theory Spec2Isabelle
  imports Complex_Main "HOL-Library.Log_Nat"
begin

section \<open>The host solver as seen by walk.c\<close>

text \<open>
  A literal is an unsigned index (variable times two, plus one for the negation). The
  host's \<open>value\<close> type is the three-valued cell -1, 0, +1 and is read as an integer.
  An \<open>unsigned\<close> is a natural number below \<open>2 ^ 32\<close>, a \<open>uint64_t\<close> one below \<open>2 ^ 64\<close>;
  arithmetic that can leave the range is written with the wrap-around.
\<close>

type_synonym lit = nat
type_synonym val = int
type_synonym double = rat
type_synonym litpair = "lit \<times> lit"

definition u32 :: "nat \<Rightarrow> nat" where
  "u32 n = n mod 2 ^ 32"

definition u64 :: "nat \<Rightarrow> nat" where
  "u64 n = n mod 2 ^ 64"

definition UINT_MAX :: nat where
  "UINT_MAX = 2 ^ 32 - 1"

definition LD_MAX_WALK_REF :: nat where
  "LD_MAX_WALK_REF = 31"

definition MAX_WALK_REF :: nat where
  "MAX_WALK_REF = 2 ^ LD_MAX_WALK_REF - 1"

definition INVALID_BEST :: nat where
  "INVALID_BEST = UINT_MAX"

text \<open>The host's \<open>INVALID_REF\<close> and \<open>INVALID_LIT\<close> are its \<open>UINT_MAX\<close> sentinels.\<close>

definition INVALID_REF :: nat where
  "INVALID_REF = UINT_MAX"

definition INVALID_LIT :: nat where
  "INVALID_LIT = UINT_MAX"

definition LIT :: "nat \<Rightarrow> lit" where
  "LIT idx = 2 * idx"

definition NOT_lit :: "lit \<Rightarrow> lit" where
  "NOT_lit l = (if even l then l + 1 else l - 1)"

definition IDX :: "lit \<Rightarrow> nat" where
  "IDX l = l div 2"

definition NEGATED :: "lit \<Rightarrow> bool" where
  "NEGATED l = odd l"

record clause =
  garbage :: bool
  redundant :: bool
  lits :: "lit list"

record statistics =
  walks :: nat
  walk_steps :: nat
  walk_decisions :: nat
  walk_improved :: nat
  flipped_stat :: nat

text \<open>
  The fields of the solver that walk.c reads or writes. The arena is the list of its
  clauses in arena order and a clause reference is the position of its clause in that
  list; \<open>arena_size\<close> is \<open>SIZE_STACK (solver->arena)\<close>, the number of wards the arena
  occupies, which is what the gate of the walk compares with \<open>MAX_WALK_REF\<close>.
  \<open>binirr_clauses\<close> is the value of the host's \<open>BINIRR_CLAUSES\<close> and \<open>initial_phase\<close>
  that of \<open>INITIAL_PHASE\<close>. \<open>frame\<close> stands for every other field of the solver.
\<close>

record 'f kissat =
  vars :: nat
  active :: "bool list"
  vals :: "val list"
  pol_activity :: "double list"
  phases_saved :: "val list"
  phases_target :: "val list"
  stable :: bool
  option_warmup :: bool
  initial_phase :: val
  arena :: "clause list"
  arena_size :: nat
  last_irredundant :: nat
  binirr_clauses :: nat
  watches :: "nat list list"
  random_seed :: nat
  stats :: statistics
  frame :: 'f

definition LITS :: "'f kissat \<Rightarrow> nat" where
  "LITS solver = 2 * vars solver"

section \<open>Double-precision arithmetic\<close>

text \<open>
  A finite \<open>double\<close> is the rational number it denotes. Each arithmetic operation of
  the source is the exact operation followed by \<open>dbl\<close>, the rounding of IEEE 754
  binary64 to the nearest representable value, ties to even: 53 bits of mantissa for
  normal numbers, multiples of \<open>2 ^ -1074\<close> below \<open>2 ^ -1022\<close>, so that a non-zero
  product can round to zero. Infinities and NaN are outside the model; the walker
  produces none from finite inputs of moderate size.
\<close>

definition pow2 :: "int \<Rightarrow> rat" where
  "pow2 e = (if 0 \<le> e then 2 ^ nat e else 1 / 2 ^ nat (- e))"

definition ilog2 :: "rat \<Rightarrow> int" where
  "ilog2 q = (if 1 \<le> q then bitlen \<lfloor>q\<rfloor> - 1 else - bitlen (\<lceil>1 / q\<rceil> - 1))"

definition round_even :: "rat \<Rightarrow> int" where
  "round_even r =
     (let f = \<lfloor>r\<rfloor>; d = r - of_int f
      in if d < 1 / 2 then f else if 1 / 2 < d then f + 1
         else if even f then f else f + 1)"

definition ulp_exp :: "rat \<Rightarrow> int" where
  "ulp_exp q = max (ilog2 \<bar>q\<bar> - 52) (- 1074)"

definition dbl :: "rat \<Rightarrow> double" where
  "dbl q = (if q = 0 then 0
            else of_int (round_even (q / pow2 (ulp_exp q))) * pow2 (ulp_exp q))"

definition fadd :: "double \<Rightarrow> double \<Rightarrow> double" where
  "fadd x y = dbl (x + y)"

definition fsub :: "double \<Rightarrow> double \<Rightarrow> double" where
  "fsub x y = dbl (x - y)"

definition fmul :: "double \<Rightarrow> double \<Rightarrow> double" where
  "fmul x y = dbl (x * y)"

definition fdiv :: "double \<Rightarrow> double \<Rightarrow> double" where
  "fdiv x y = dbl (x / y)"

section \<open>The walker\<close>

record counter =
  count :: nat
  pos :: nat

record tagged =
  ref :: nat
  binary :: bool

definition make_tagged :: "bool \<Rightarrow> nat \<Rightarrow> tagged" where
  "make_tagged b r = \<lparr>ref = r mod 2 ^ LD_MAX_WALK_REF, binary = b\<rparr>"

record walker =
  best :: nat
  clauses :: nat
  current :: nat
  exponents :: nat
  initial :: nat
  minimum :: nat
  random :: nat
  counters :: "counter list"
  binaries :: "litpair list"
  saved :: "val list"
  refs :: "tagged list"
  table :: "double list"
  scores :: "double list"
  unsat :: "nat list"
  trail :: "lit list"
  size_avg :: double
  epsilon :: double
  limit :: nat
  flipped :: nat

definition dereference_literals :: "'f kissat \<Rightarrow> walker \<Rightarrow> nat \<Rightarrow> lit list" where
  "dereference_literals solver w counter_ref =
     (let tg = refs w ! counter_ref in
      if binary tg then [fst (binaries w ! ref tg), snd (binaries w ! ref tg)]
      else lits (arena solver ! ref tg))"

subsection \<open>The unsat stack\<close>

definition push_unsat :: "walker \<Rightarrow> nat \<Rightarrow> walker" where
  "push_unsat w counter_ref =
     w\<lparr>counters := (counters w)[counter_ref :=
          (counters w ! counter_ref)\<lparr>pos := u32 (length (unsat w))\<rparr>],
       unsat := unsat w @ [counter_ref]\<rparr>"

definition pop_unsat :: "walker \<Rightarrow> nat \<Rightarrow> nat \<Rightarrow> walker \<times> bool" where
  "pop_unsat w counter_ref p =
     (let other_counter_ref = last (unsat w);
          w1 = w\<lparr>unsat := butlast (unsat w), current := u32 (current w + UINT_MAX)\<rparr>
      in if counter_ref \<noteq> other_counter_ref
         then (w1\<lparr>counters := (counters w1)[other_counter_ref :=
                     (counters w1 ! other_counter_ref)\<lparr>pos := p\<rparr>],
                  unsat := (unsat w1)[p := other_counter_ref]\<rparr>, True)
         else (w1, False))"

definition currently_unsatified :: "walker \<Rightarrow> nat" where
  "currently_unsatified w = u32 (length (unsat w))"

subsection \<open>Flipping a literal\<close>

fun make_clauses_loop :: "nat list \<Rightarrow> walker \<Rightarrow> nat \<Rightarrow> walker \<times> nat" where
  "make_clauses_loop [] w steps = (w, steps)"
| "make_clauses_loop (counter_ref # ws) w steps =
     (let c = counters w ! counter_ref;
          w1 = w\<lparr>counters := (counters w)[counter_ref := c\<lparr>count := u32 (count c + 1)\<rparr>]\<rparr>;
          steps1 = u32 (steps + 1)
      in if count c \<noteq> 0 then make_clauses_loop ws w1 steps1
         else (case pop_unsat w1 counter_ref (pos c) of
                 (w2, swapped) \<Rightarrow>
                   make_clauses_loop ws w2 (if swapped then u32 (steps1 + 1) else steps1)))"

definition add_walk_steps :: "'f kissat \<Rightarrow> nat \<Rightarrow> 'f kissat" where
  "add_walk_steps solver n =
     solver\<lparr>stats := (stats solver)\<lparr>walk_steps := u64 (walk_steps (stats solver) + n)\<rparr>\<rparr>"

definition make_clauses :: "'f kissat \<Rightarrow> walker \<Rightarrow> lit \<Rightarrow> 'f kissat \<times> walker" where
  "make_clauses solver w flp =
     (case make_clauses_loop (watches solver ! flp) w 1 of
        (w1, steps) \<Rightarrow> (add_walk_steps solver steps, w1))"

fun break_clauses_loop :: "nat list \<Rightarrow> walker \<Rightarrow> nat \<Rightarrow> walker \<times> nat" where
  "break_clauses_loop [] w steps = (w, steps)"
| "break_clauses_loop (counter_ref # ws) w steps =
     (let c = counters w ! counter_ref;
          c1 = c\<lparr>count := u32 (count c + UINT_MAX)\<rparr>;
          w1 = w\<lparr>counters := (counters w)[counter_ref := c1]\<rparr>;
          steps1 = u32 (steps + 1)
      in if count c1 \<noteq> 0 then break_clauses_loop ws w1 steps1
         else break_clauses_loop ws (push_unsat w1 counter_ref) steps1)"

definition break_clauses :: "'f kissat \<Rightarrow> walker \<Rightarrow> lit \<Rightarrow> 'f kissat \<times> walker" where
  "break_clauses solver w flp =
     (case break_clauses_loop (watches solver ! NOT_lit flp) w 1 of
        (w1, steps) \<Rightarrow> (add_walk_steps solver steps, w1))"

definition flip_literal :: "'f kissat \<Rightarrow> walker \<Rightarrow> lit \<Rightarrow> 'f kissat \<times> walker" where
  "flip_literal solver w flp =
     (let v = vals solver ! flp;
          solver1 = solver\<lparr>vals := (vals solver)[flp := - v, NOT_lit flp := v]\<rparr>
      in case make_clauses solver1 w flp of
           (solver2, w2) \<Rightarrow>
             (case break_clauses solver2 w2 flp of
                (solver3, w3) \<Rightarrow> (solver3, w3\<lparr>current := currently_unsatified w3\<rparr>)))"

section \<open>Collaborators of the walker\<close>

text \<open>
  What walk.c calls but does not define is a parameter of the model: the content of
  freshly allocated memory (\<open>kissat_malloc\<close> does not clear it), the random number
  generator, the effort limit, the termination poll, and the host's phase changes
  around the walk. \<open>kissat_calloc\<close> returns zeroed memory.
\<close>

record 'f env =
  malloc_counters :: "nat \<Rightarrow> counter"
  malloc_refs :: "nat \<Rightarrow> tagged"
  malloc_table :: "nat \<Rightarrow> double"
  pick_double :: "nat \<Rightarrow> double \<times> nat"
  effort_limit :: "'f kissat \<Rightarrow> nat"
  termination_poll :: "'f kissat \<Rightarrow> bool"
  enter_dense_mode :: "'f kissat \<Rightarrow> 'f kissat \<times> litpair list"
  resume_sparse_mode :: "'f kissat \<Rightarrow> litpair list \<Rightarrow> 'f kissat"
  warmup :: "'f kissat \<Rightarrow> 'f kissat"
  start_simplifier :: "'f kissat \<Rightarrow> 'f kissat"
  resume_search :: "'f kissat \<Rightarrow> 'f kissat"

definition kissat_malloc :: "(nat \<Rightarrow> 'a) \<Rightarrow> nat \<Rightarrow> 'a list" where
  "kissat_malloc content n = map content [0..<n]"

definition kissat_push_large_watch :: "'f kissat \<Rightarrow> lit \<Rightarrow> nat \<Rightarrow> 'f kissat" where
  "kissat_push_large_watch solver l counter_ref =
     solver\<lparr>watches := (watches solver)[l := watches solver ! l @ [counter_ref]]\<rparr>"

definition kissat_mark_clause_as_garbage :: "'f kissat \<Rightarrow> nat \<Rightarrow> 'f kissat" where
  "kissat_mark_clause_as_garbage solver i =
     solver\<lparr>arena := (arena solver)[i := (arena solver ! i)\<lparr>garbage := True\<rparr>]\<rparr>"

definition kissat_average :: "double \<Rightarrow> nat \<Rightarrow> double" where
  "kissat_average a b = (if b = 0 then 0 else fdiv a (dbl (of_nat b)))"

section \<open>The score table\<close>

definition cbvals :: "(double \<times> double) list" where
  "cbvals = [(0, 2), (3, 5 / 2), (4, dbl (285 / 100)),
             (5, dbl (37 / 10)), (6, dbl (51 / 10)), (7, dbl (74 / 10))]"

function fit_cbval_index :: "double \<Rightarrow> nat \<Rightarrow> nat" where
  "fit_cbval_index sz i =
     (if i + 2 < length cbvals \<and> (sz < fst (cbvals ! i) \<or> fst (cbvals ! (i + 1)) < sz)
      then fit_cbval_index sz (i + 1) else i)"
  by pat_completeness auto
termination
  by (relation "measure (\<lambda>(sz, i). length cbvals - i)") auto

definition fit_cbval :: "double \<Rightarrow> double" where
  "fit_cbval sz =
     (let i = fit_cbval_index sz 0;
          x2 = fst (cbvals ! (i + 1)); x1 = fst (cbvals ! i);
          y2 = snd (cbvals ! (i + 1)); y1 = snd (cbvals ! i);
          dx = fsub x2 x1; dy = fsub y2 y1
      in fadd (fdiv (fmul dy (fsub sz x1)) dx) y1)"

definition score_cb :: "'f kissat \<Rightarrow> walker \<Rightarrow> double" where
  "score_cb solver w =
     (if odd (walks (stats solver)) then fit_cbval (size_avg w) else 2)"

partial_function (option) count_exponents :: "double \<Rightarrow> double \<Rightarrow> nat \<Rightarrow> nat option" where
  "count_exponents base nxt e =
     (if nxt \<noteq> 0 then count_exponents base (fmul nxt base) (u32 (e + 1)) else Some e)"

partial_function (option) fill_table ::
  "double \<Rightarrow> double \<Rightarrow> double \<Rightarrow> double list \<Rightarrow> nat \<Rightarrow> (double list \<times> double \<times> nat) option" where
  "fill_table base nxt eps tbl i =
     (if nxt \<noteq> 0 then fill_table base (fmul nxt base) nxt (tbl[i := nxt]) (u32 (i + 1))
      else Some (tbl, eps, i))"

definition init_score_table :: "'f env \<Rightarrow> 'f kissat \<Rightarrow> walker \<Rightarrow> walker option" where
  "init_score_table ev solver w =
     (let cb = score_cb solver w; base = fdiv 1 cb in
      case count_exponents base 1 0 of
        None \<Rightarrow> None
      | Some e \<Rightarrow>
          (case fill_table base 1 1 (kissat_malloc (malloc_table ev) e) 0 of
             None \<Rightarrow> None
           | Some (tbl, eps, i) \<Rightarrow> Some (w\<lparr>table := tbl, exponents := e, epsilon := eps\<rparr>)))"

definition scale_score :: "walker \<Rightarrow> nat \<Rightarrow> double" where
  "scale_score w breaks = (if breaks < exponents w then table w ! breaks else epsilon w)"

section \<open>Setting the walker up\<close>

definition inc_walk_decisions :: "'f kissat \<Rightarrow> 'f kissat" where
  "inc_walk_decisions solver =
     solver\<lparr>stats := (stats solver)\<lparr>walk_decisions := u64 (walk_decisions (stats solver) + 1)\<rparr>\<rparr>"

definition import_phase :: "'f kissat \<Rightarrow> nat \<Rightarrow> 'f kissat" where
  "import_phase solver idx =
     (if \<not> active solver ! idx then solver
      else
        let v0 = (if stable solver \<and> \<not> option_warmup solver then phases_target solver ! idx else 0);
            v1 = (if v0 = 0 then phases_saved solver ! idx else v0);
            v = (if v1 = 0 then initial_phase solver else v1)
        in solver\<lparr>phases_saved := (phases_saved solver)[idx := v],
                  vals := (vals solver)[LIT idx := v, NOT_lit (LIT idx) := - v]\<rparr>)"

fun import_decision_phases_loop :: "nat list \<Rightarrow> 'f kissat \<Rightarrow> 'f kissat" where
  "import_decision_phases_loop [] solver = solver"
| "import_decision_phases_loop (idx # idxs) solver =
     import_decision_phases_loop idxs (import_phase solver idx)"

definition import_decision_phases :: "'f kissat \<Rightarrow> 'f kissat" where
  "import_decision_phases solver =
     import_decision_phases_loop [0..<vars solver] (inc_walk_decisions solver)"

fun connect_binary_loop ::
  "nat list \<Rightarrow> 'f kissat \<Rightarrow> walker \<Rightarrow> nat \<Rightarrow> 'f kissat \<times> walker \<times> nat" where
  "connect_binary_loop [] solver w counter_ref = (solver, w, counter_ref)"
| "connect_binary_loop (binary_ref # rest) solver w counter_ref =
     (let first = fst (binaries w ! binary_ref);
          second = snd (binaries w ! binary_ref);
          first_value = vals solver ! first;
          second_value = vals solver ! second
      in if first_value = 0 \<or> second_value = 0
         then connect_binary_loop rest solver w counter_ref
         else
           let w1 = w\<lparr>refs := (refs w)[counter_ref := make_tagged True binary_ref]\<rparr>;
               solver1 = kissat_push_large_watch
                          (kissat_push_large_watch solver first counter_ref) second counter_ref;
               cnt = (if 0 < first_value then 1 else 0) + (if 0 < second_value then 1 else 0);
               w2 = w1\<lparr>counters := (counters w1)[counter_ref :=
                          (counters w1 ! counter_ref)\<lparr>count := cnt\<rparr>]\<rparr>;
               w3 = (if cnt = 0 then push_unsat w2 counter_ref else w2)
           in connect_binary_loop rest solver1 w3 (u32 (counter_ref + 1)))"

definition connect_binary_counters :: "'f kissat \<Rightarrow> walker \<Rightarrow> 'f kissat \<times> walker \<times> nat" where
  "connect_binary_counters solver w =
     (case connect_binary_loop [0..<u32 (length (binaries w))] solver w 0 of
        (solver1, w1, counter_ref) \<Rightarrow>
          (solver1,
           w1\<lparr>size_avg := fadd (size_avg w1) (fmul 2 (dbl (of_nat counter_ref)))\<rparr>,
           counter_ref))"

fun connect_literals ::
  "lit list \<Rightarrow> 'f kissat \<Rightarrow> nat \<Rightarrow> nat \<Rightarrow> nat \<Rightarrow> 'f kissat \<times> nat \<times> nat" where
  "connect_literals [] solver counter_ref cnt sz = (solver, cnt, sz)"
| "connect_literals (l # ls) solver counter_ref cnt sz =
     (let v = vals solver ! l in
      if v = 0 then connect_literals ls solver counter_ref cnt sz
      else connect_literals ls (kissat_push_large_watch solver l counter_ref) counter_ref
             (if 0 < v then u32 (cnt + 1) else cnt) (u32 (sz + 1)))"

fun connect_large_loop ::
  "nat list \<Rightarrow> 'f kissat \<Rightarrow> walker \<Rightarrow> nat \<Rightarrow> 'f kissat \<times> walker \<times> nat" where
  "connect_large_loop [] solver w counter_ref = (solver, w, counter_ref)"
| "connect_large_loop (i # rest) solver w counter_ref =
     (let c = arena solver ! i in
      if last_irredundant solver \<noteq> INVALID_REF \<and> last_irredundant solver < i
      then (solver, w, counter_ref)
      else if garbage c then connect_large_loop rest solver w counter_ref
      else if redundant c then connect_large_loop rest solver w counter_ref
      else if \<exists>l \<in> set (lits c). 0 < saved w ! l
      then connect_large_loop rest (kissat_mark_clause_as_garbage solver i) w counter_ref
      else
        let w1 = w\<lparr>refs := (refs w)[counter_ref := make_tagged False i]\<rparr> in
        case connect_literals (lits c) solver counter_ref 0 0 of
          (solver1, cnt, sz) \<Rightarrow>
            let w2 = w1\<lparr>counters := (counters w1)[counter_ref :=
                           (counters w1 ! counter_ref)\<lparr>count := cnt\<rparr>]\<rparr>;
                w3 = (if cnt = 0 then push_unsat w2 counter_ref else w2);
                w4 = w3\<lparr>size_avg := fadd (size_avg w3) (dbl (of_nat sz))\<rparr>
            in connect_large_loop rest solver1 w4 (u32 (counter_ref + 1)))"

definition connect_large_counters :: "'f kissat \<Rightarrow> walker \<Rightarrow> nat \<Rightarrow> 'f kissat \<times> walker" where
  "connect_large_counters solver w counter_ref =
     (case connect_large_loop [0..<length (arena solver)] solver w counter_ref of
        (solver1, w1, n) \<Rightarrow> (solver1, w1))"

definition zero_walker :: walker where
  "zero_walker =
     \<lparr>best = 0, clauses = 0, current = 0, exponents = 0, initial = 0, minimum = 0,
      random = 0, counters = [], binaries = [], saved = [], refs = [], table = [],
      scores = [], unsat = [], trail = [], size_avg = 0, epsilon = 0, limit = 0,
      flipped = 0\<rparr>"

definition init_walker ::
  "'f env \<Rightarrow> 'f kissat \<Rightarrow> litpair list \<Rightarrow> ('f kissat \<times> walker) option" where
  "init_walker ev solver bins =
     (let n = u32 (binirr_clauses solver);
          w0 = zero_walker\<lparr>clauses := n, binaries := bins,
                 random := xor (random_seed solver) (walks (stats solver)),
                 saved := vals solver\<rparr>;
          solver0 = solver\<lparr>vals := replicate (LITS solver) 0,
                           pol_activity := replicate (LITS solver) 0\<rparr>;
          solver1 = import_decision_phases solver0;
          w1 = w0\<lparr>counters := kissat_malloc (malloc_counters ev) (binirr_clauses solver),
                  refs := kissat_malloc (malloc_refs ev) (binirr_clauses solver)\<rparr>
      in case connect_binary_counters solver1 w1 of
           (solver2, w2, counter_ref) \<Rightarrow>
             (case connect_large_counters solver2 w2 counter_ref of
                (solver3, w3) \<Rightarrow>
                  let w4 = w3\<lparr>current := currently_unsatified w3,
                              initial := currently_unsatified w3\<rparr>;
                      w5 = w4\<lparr>size_avg := kissat_average (size_avg w4) (binirr_clauses solver)\<rparr>;
                      w6 = w5\<lparr>minimum := current w5\<rparr>
                  in (case init_score_table ev solver3 w6 of
                        None \<Rightarrow> None
                      | Some w7 \<Rightarrow> Some (solver3, w7))))"

definition init_walker_limit :: "'f env \<Rightarrow> 'f kissat \<Rightarrow> walker \<Rightarrow> walker" where
  "init_walker_limit ev solver w = w\<lparr>limit := effort_limit ev solver, flipped := 0\<rparr>"

definition release_walker :: "'f kissat \<Rightarrow> walker \<Rightarrow> 'f kissat" where
  "release_walker solver w = solver\<lparr>vals := saved w\<rparr>"

section \<open>Picking a literal\<close>

definition break_value :: "'f kissat \<Rightarrow> walker \<Rightarrow> lit \<Rightarrow> 'f kissat \<times> nat" where
  "break_value solver w l =
     (let ws = watches solver ! NOT_lit l;
          steps = u32 (1 + length ws);
          res = u32 (length (filter (\<lambda>counter_ref. count (counters w ! counter_ref) = 1) ws))
      in (add_walk_steps solver steps, res))"

fun pick_scores_loop ::
  "lit list \<Rightarrow> 'f kissat \<Rightarrow> walker \<Rightarrow> lit \<Rightarrow> double \<Rightarrow> 'f kissat \<times> walker \<times> lit \<times> double" where
  "pick_scores_loop [] solver w picked_lit sm = (solver, w, picked_lit, sm)"
| "pick_scores_loop (l # ls) solver w picked_lit sm =
     (if vals solver ! l = 0 then pick_scores_loop ls solver w picked_lit sm
      else case break_value solver w l of
             (solver1, breaks) \<Rightarrow>
               let score = scale_score w breaks
               in pick_scores_loop ls solver1 (w\<lparr>scores := scores w @ [score]\<rparr>) l
                    (fadd sm score))"

fun pick_threshold_loop ::
  "lit list \<Rightarrow> val list \<Rightarrow> double list \<Rightarrow> nat \<Rightarrow> double \<Rightarrow> double \<Rightarrow> lit \<Rightarrow> lit" where
  "pick_threshold_loop [] vs scs k threshold sm picked_lit = picked_lit"
| "pick_threshold_loop (l # ls) vs scs k threshold sm picked_lit =
     (if vs ! l = 0 then pick_threshold_loop ls vs scs k threshold sm picked_lit
      else let sm1 = fadd sm (scs ! k)
           in if threshold < sm1 then l
              else pick_threshold_loop ls vs scs (k + 1) threshold sm1 picked_lit)"

definition pick_pos :: "walker \<Rightarrow> nat" where
  "pick_pos w = flipped w mod current w"

definition pick_literal :: "'f env \<Rightarrow> 'f kissat \<Rightarrow> walker \<Rightarrow> 'f kissat \<times> walker \<times> lit" where
  "pick_literal ev solver w =
     (let p = pick_pos w;
          w1 = w\<lparr>flipped := u64 (flipped w + 1)\<rparr>;
          counter_ref = unsat w1 ! p;
          ls = dereference_literals solver w1 counter_ref
      in case pick_scores_loop ls solver w1 INVALID_LIT 0 of
           (solver1, w2, last_lit, sm) \<Rightarrow>
             (case pick_double ev (random w2) of
                (r, g) \<Rightarrow>
                  let threshold = fmul sm r;
                      picked_lit = pick_threshold_loop ls (vals solver1) (scores w2) 0
                                     threshold 0 last_lit
                  in (solver1, w2\<lparr>random := g, scores := []\<rparr>, picked_lit)))"

section \<open>Tracking the best assignment\<close>

fun save_all_values_loop :: "nat list \<Rightarrow> val list \<Rightarrow> val list \<Rightarrow> val list" where
  "save_all_values_loop [] vs sv = sv"
| "save_all_values_loop (idx # idxs) vs sv =
     save_all_values_loop idxs vs (if vs ! LIT idx \<noteq> 0 then sv[idx := vs ! LIT idx] else sv)"

definition save_all_values :: "'f kissat \<Rightarrow> walker \<Rightarrow> 'f kissat \<times> walker" where
  "save_all_values solver w =
     (solver\<lparr>phases_saved :=
         save_all_values_loop [0..<vars solver] (vals solver) (phases_saved solver)\<rparr>,
      w\<lparr>best := 0\<rparr>)"

fun save_trail_loop :: "lit list \<Rightarrow> val list \<Rightarrow> val list" where
  "save_trail_loop [] sv = sv"
| "save_trail_loop (l # ls) sv =
     save_trail_loop ls (sv[IDX l := (if NEGATED l then - 1 else 1)])"

definition save_walker_trail :: "'f kissat \<Rightarrow> walker \<Rightarrow> bool \<Rightarrow> 'f kissat \<times> walker" where
  "save_walker_trail solver w keep =
     (let solver1 = solver\<lparr>phases_saved :=
                      save_trail_loop (take (best w) (trail w)) (phases_saved solver)\<rparr>
      in if \<not> keep then (solver1, w)
         else (solver1, w\<lparr>trail := drop (best w) (trail w), best := 0\<rparr>))"

definition push_flipped :: "'f kissat \<Rightarrow> walker \<Rightarrow> lit \<Rightarrow> 'f kissat \<times> walker" where
  "push_flipped solver w flp =
     (if best w = INVALID_BEST then (solver, w)
      else
        let size_trail = u32 (length (trail w));
            lim = vars solver div 4 + 1
        in if size_trail < lim then (solver, w\<lparr>trail := trail w @ [flp]\<rparr>)
           else if best w \<noteq> 0
           then (case save_walker_trail solver w True of
                   (solver1, w1) \<Rightarrow> (solver1, w1\<lparr>trail := trail w1 @ [flp]\<rparr>))
           else (solver, w\<lparr>trail := [], best := INVALID_BEST\<rparr>))"

definition update_best :: "'f kissat \<Rightarrow> walker \<Rightarrow> 'f kissat \<times> walker" where
  "update_best solver w =
     (let w1 = w\<lparr>minimum := current w\<rparr>
      in if best w1 = INVALID_BEST then save_all_values solver w1
         else (solver, w1\<lparr>best := u32 (length (trail w1))\<rparr>))"

section \<open>The local search\<close>

definition inc_flipped :: "'f kissat \<Rightarrow> 'f kissat" where
  "inc_flipped solver =
     solver\<lparr>stats := (stats solver)\<lparr>flipped_stat := u64 (flipped_stat (stats solver) + 1)\<rparr>\<rparr>"

definition local_search_step :: "'f env \<Rightarrow> 'f kissat \<Rightarrow> walker \<Rightarrow> 'f kissat \<times> walker" where
  "local_search_step ev solver w =
     (let solver1 = inc_flipped solver;
          w1 = w\<lparr>flipped := u64 (flipped w + 1)\<rparr>
      in case pick_literal ev solver1 w1 of
           (solver2, w2, l) \<Rightarrow>
             (case flip_literal solver2 w2 l of
                (solver3, w3) \<Rightarrow>
                  (case push_flipped solver3 w3 l of
                     (solver4, w4) \<Rightarrow>
                       if current w4 < minimum w4 then update_best solver4 w4
                       else (solver4, w4))))"

partial_function (option) local_search_round ::
  "'f env \<Rightarrow> 'f kissat \<Rightarrow> walker \<Rightarrow> ('f kissat \<times> walker) option" where
  "local_search_round ev solver w =
     (if minimum w \<noteq> 0 \<and> walk_steps (stats solver) < limit w
      then (if termination_poll ev solver then Some (solver, w)
            else case local_search_step ev solver w of
                   (solver1, w1) \<Rightarrow> local_search_round ev solver1 w1)
      else Some (solver, w))"

definition inc_walk_improved :: "'f kissat \<Rightarrow> 'f kissat" where
  "inc_walk_improved solver =
     solver\<lparr>stats := (stats solver)\<lparr>walk_improved := u64 (walk_improved (stats solver) + 1)\<rparr>\<rparr>"

definition save_final_minimum :: "'f kissat \<Rightarrow> walker \<Rightarrow> 'f kissat \<times> walker" where
  "save_final_minimum solver w =
     (if minimum w = initial w then (solver, w)
      else if best w = 0 \<or> best w = INVALID_BEST then (inc_walk_improved solver, w)
      else case save_walker_trail solver w False of
             (solver1, w1) \<Rightarrow> (inc_walk_improved solver1, w1))"

definition inc_walks :: "'f kissat \<Rightarrow> 'f kissat" where
  "inc_walks solver =
     solver\<lparr>stats := (stats solver)\<lparr>walks := u64 (walks (stats solver) + 1)\<rparr>\<rparr>"

definition walker_section :: "'f env \<Rightarrow> 'f kissat \<Rightarrow> litpair list \<Rightarrow> 'f kissat option" where
  "walker_section ev solver irredundant =
     (case init_walker ev solver irredundant of
        None \<Rightarrow> None
      | Some (solver1, w1) \<Rightarrow>
          (case local_search_round ev solver1 (init_walker_limit ev solver1 w1) of
             None \<Rightarrow> None
           | Some (solver2, w2) \<Rightarrow>
               (case save_final_minimum solver2 w2 of
                  (solver3, w3) \<Rightarrow> Some (release_walker solver3 w3))))"

definition walking_phase :: "'f env \<Rightarrow> 'f kissat \<Rightarrow> 'f kissat option" where
  "walking_phase ev solver =
     (case enter_dense_mode ev (inc_walks solver) of
        (solver1, irredundant) \<Rightarrow>
          (case walker_section ev solver1 irredundant of
             None \<Rightarrow> None
           | Some solver2 \<Rightarrow> Some (resume_sparse_mode ev solver2 irredundant)))"

text \<open>
  Both functions start from the host's field \<open>last_irredundant\<close> and replace the
  sentinel \<open>INVALID_REF\<close> by \<open>SIZE_STACK (solver->arena)\<close>, stored in a 32-bit
  \<open>reference\<close>.
\<close>

definition kissat_walking :: "'f kissat \<Rightarrow> bool" where
  "kissat_walking solver =
     (let last = last_irredundant solver;
          last1 = (if last = INVALID_REF then u32 (arena_size solver) else last);
          clauses = binirr_clauses solver
      in if MAX_WALK_REF < last1 then False
         else if MAX_WALK_REF < clauses then False
         else True)"

definition kissat_walk :: "'f env \<Rightarrow> 'f kissat \<Rightarrow> 'f kissat option" where
  "kissat_walk ev solver =
     (let last = last_irredundant solver;
          last1 = (if last = INVALID_REF then u32 (arena_size solver) else last);
          clauses = binirr_clauses solver
      in if MAX_WALK_REF < last1 then Some solver
         else if MAX_WALK_REF < clauses then Some solver
         else
           let solver1 = (if option_warmup solver then warmup ev solver else solver)
           in case walking_phase ev (start_simplifier ev solver1) of
                None \<Rightarrow> None
              | Some solver2 \<Rightarrow> Some (resume_search ev solver2))"

section \<open>Auxiliary definitions of the statements\<close>

text \<open>
  Projections that blank the fields a function may write (what is left must be unchanged),
  the phase a trail prefix writes last for a variable, the iteration of the local search
  step, and a small walker on three variables with the binary clause (0, 2) and the
  large clauses (1, 3, 4) and (0, 3, 5), used where a statement is instantiated.
\<close>

definition search_part :: "walker \<Rightarrow> walker" where
  "search_part w = w\<lparr>counters := [], unsat := [], current := 0\<rparr>"

definition pick_part :: "walker \<Rightarrow> walker" where
  "pick_part w = w\<lparr>scores := [], random := 0, flipped := 0\<rparr>"

definition zero_statistics :: statistics where
  "zero_statistics = \<lparr>walks = 0, walk_steps = 0, walk_decisions = 0, walk_improved = 0, flipped_stat = 0\<rparr>"

definition host_part :: "'f kissat \<Rightarrow> 'f kissat" where
  "host_part s = s\<lparr>vals := [], stats := zero_statistics\<rparr>"

fun trail_phase :: "lit list \<Rightarrow> nat \<Rightarrow> val option" where
  "trail_phase [] idx = None"
| "trail_phase (l # ls) idx =
     (case trail_phase ls idx of
        Some v \<Rightarrow> Some v
      | None \<Rightarrow> if IDX l = idx then Some (if NEGATED l then - 1 else 1) else None)"

definition solver_ex :: "unit kissat" where
  "solver_ex =
     \<lparr>vars = 3, active = [True, True, True], vals = [- 1, 1, - 1, 1, - 1, 1],
      pol_activity = [0, 0, 0, 0, 0, 0], phases_saved = [- 1, - 1, - 1],
      phases_target = [0, 0, 0], stable = False, option_warmup = False, initial_phase = 1,
      arena = [\<lparr>garbage = False, redundant = False, lits = [1, 3, 4]\<rparr>,
               \<lparr>garbage = False, redundant = False, lits = [0, 3, 5]\<rparr>],
      arena_size = 12, last_irredundant = 1, binirr_clauses = 3,
      watches = [[0, 2], [1], [0], [1, 2], [1], [2]],
      random_seed = 0,
      stats = \<lparr>walks = 1, walk_steps = 0, walk_decisions = 1, walk_improved = 0,
               flipped_stat = 0\<rparr>,
      frame = ()\<rparr>"

definition walker_ex :: walker where
  "walker_ex =
     \<lparr>best = 0, clauses = 3, current = 1, exponents = 2, initial = 1, minimum = 1,
      random = 1, counters = [\<lparr>count = 0, pos = 0\<rparr>, \<lparr>count = 2, pos = 0\<rparr>,
        \<lparr>count = 2, pos = 0\<rparr>],
      binaries = [(0, 2)], saved = [0, 0, 0, 0, 0, 0],
      refs = [\<lparr>ref = 0, binary = True\<rparr>, \<lparr>ref = 0, binary = False\<rparr>,
        \<lparr>ref = 1, binary = False\<rparr>],
      table = [1, 1 / 2], scores = [], unsat = [0], trail = [], size_avg = 8 / 3,
      epsilon = 1 / 2, limit = 100, flipped = 0\<rparr>"

definition env_ex :: "unit env" where
  "env_ex =
     \<lparr>malloc_counters = (\<lambda>i. \<lparr>count = 0, pos = 7\<rparr>),
      malloc_refs = (\<lambda>i. \<lparr>ref = 9, binary = False\<rparr>),
      malloc_table = (\<lambda>i. 0),
      pick_double = (\<lambda>g. (1 / 2, g + 1)),
      effort_limit = (\<lambda>s. walk_steps (stats s) + 100),
      termination_poll = (\<lambda>s. False),
      enter_dense_mode = (\<lambda>s. (s, [(0, 2)])),
      resume_sparse_mode = (\<lambda>s b. s),
      warmup = (\<lambda>s. s),
      start_simplifier = (\<lambda>s. s),
      resume_search = (\<lambda>s. s)\<rparr>"

definition walker_c7 :: walker where
  "walker_c7 = walker_ex\<lparr>trail := [0, 3, 1], best := 2, minimum := 0\<rparr>"

definition walker_c8 :: walker where
  "walker_c8 = walker_ex\<lparr>trail := [1]\<rparr>"

fun score_power :: "double \<Rightarrow> nat \<Rightarrow> double" where
  "score_power base 0 = 1"
| "score_power base (Suc k) = fmul (score_power base k) base"

definition walker_c3 :: walker where
  "walker_c3 = walker_ex\<lparr>size_avg := 3\<rparr>"

definition picked_clause :: "'f kissat \<Rightarrow> walker \<Rightarrow> lit list" where
  "picked_clause s w = dereference_literals s w (unsat w ! pick_pos w)"

definition candidates :: "'f kissat \<Rightarrow> walker \<Rightarrow> lit list" where
  "candidates s w = filter (\<lambda>l. vals s ! l \<noteq> 0) (picked_clause s w)"

definition lit_score :: "'f kissat \<Rightarrow> walker \<Rightarrow> lit \<Rightarrow> double" where
  "lit_score s w l = scale_score w (snd (break_value s w l))"

fun running_sums :: "double \<Rightarrow> double list \<Rightarrow> double list" where
  "running_sums sm [] = []"
| "running_sums sm (x # xs) = fadd sm x # running_sums (fadd sm x) xs"

definition pick_choice :: "double \<Rightarrow> lit list \<Rightarrow> double list \<Rightarrow> lit" where
  "pick_choice threshold ls scs =
     (case find (\<lambda>(l, r). threshold < r) (zip ls (running_sums 0 scs)) of
        Some (l, r) \<Rightarrow> l
      | None \<Rightarrow> last ls)"

definition cnt :: "walker \<Rightarrow> nat \<Rightarrow> nat" where
  "cnt w r = count (counters w ! r)"

definition U32 :: nat where
  "U32 = 2 ^ 32"

definition index_inv :: "nat \<Rightarrow> walker \<Rightarrow> bool" where
  "index_inv n w \<longleftrightarrow>
     n \<le> length (counters w) \<and> n < U32 \<and> distinct (unsat w)
     \<and> (\<forall>r \<in> set (unsat w). r < n)
     \<and> (\<forall>r<n. cnt w r < U32)
     \<and> (\<forall>r<n. cnt w r = 0 \<longleftrightarrow> r \<in> set (unsat w))
     \<and> (\<forall>i<length (unsat w). pos (counters w ! (unsat w ! i)) = i)"

definition true_count :: "val list \<Rightarrow> lit list \<Rightarrow> nat" where
  "true_count vs ls = length (filter (\<lambda>l. 0 < vs ! l) ls)"

definition assignment_ok :: "'f kissat \<Rightarrow> bool" where
  "assignment_ok s \<longleftrightarrow>
     length (vals s) = LITS s \<and> (\<forall>l<LITS s. vals s ! NOT_lit l = - vals s ! l)"

definition count_inv :: "nat \<Rightarrow> 'f kissat \<Rightarrow> walker \<Rightarrow> bool" where
  "count_inv n s w \<longleftrightarrow>
     length (watches s) = LITS s
     \<and> (\<forall>l<LITS s. \<forall>r \<in> set (watches s ! l). r < n)
     \<and> (\<forall>r<n. cnt w r = true_count (vals s) (dereference_literals s w r))
     \<and> (\<forall>r<n. \<forall>l<LITS s. count_list (watches s ! l) r =
           (if vals s ! l \<noteq> 0 then count_list (dereference_literals s w r) l else 0))
     \<and> (\<forall>r<n. (\<forall>l \<in> set (dereference_literals s w r). l < LITS s)
           \<and> length (dereference_literals s w r) < U32)"

definition tracker_part :: "walker \<Rightarrow> walker" where
  "tracker_part w = w\<lparr>trail := [], best := 0, minimum := 0\<rparr>"

definition phase_part :: "'f kissat \<Rightarrow> 'f kissat" where
  "phase_part s = s\<lparr>phases_saved := []\<rparr>"

definition round_inv :: "nat \<Rightarrow> 'f kissat \<Rightarrow> walker \<Rightarrow> bool" where
  "round_inv n s w \<longleftrightarrow>
     index_inv n w \<and> count_inv n s w \<and> assignment_ok s
     \<and> current w = currently_unsatified w \<and> minimum w \<le> current w \<and> scores w = []
     \<and> (\<forall>r<n. \<exists>l \<in> set (dereference_literals s w r). vals s ! l \<noteq> 0)"

definition conn :: "nat \<Rightarrow> 'f kissat \<Rightarrow> walker \<Rightarrow> bool" where
  "conn n s w \<longleftrightarrow>
     index_inv n w \<and> count_inv n s w
     \<and> (\<forall>r<n. \<exists>l \<in> set (dereference_literals s w r). vals s ! l \<noteq> 0)"

fun watch_literals :: "lit list \<Rightarrow> nat \<Rightarrow> val list \<Rightarrow> nat list list \<Rightarrow> nat list list" where
  "watch_literals [] n vs ws = ws"
| "watch_literals (l # ls) n vs ws =
     watch_literals ls n vs (if vs ! l \<noteq> 0 then ws[l := ws ! l @ [n]] else ws)"

definition clear_garbage :: "clause \<Rightarrow> clause" where
  "clear_garbage c = c\<lparr>garbage := False\<rparr>"

definition watch_part :: "'f kissat \<Rightarrow> 'f kissat" where
  "watch_part s = s\<lparr>arena := map clear_garbage (arena s), watches := []\<rparr>"

definition conn_part :: "walker \<Rightarrow> walker" where
  "conn_part w = w\<lparr>counters := [], refs := [], unsat := [], size_avg := 0\<rparr>"

definition connectable :: "'f kissat \<Rightarrow> val list \<Rightarrow> nat \<Rightarrow> bool" where
  "connectable s sv i \<longleftrightarrow>
     (last_irredundant s = INVALID_REF \<or> i \<le> last_irredundant s)
     \<and> \<not> garbage (arena s ! i) \<and> \<not> redundant (arena s ! i)
     \<and> \<not> (\<exists>l \<in> set (lits (arena s ! i)). 0 < sv ! l)"

definition clause_ok :: "'f kissat \<Rightarrow> nat \<Rightarrow> bool" where
  "clause_ok s i \<longleftrightarrow>
     i \<le> MAX_WALK_REF \<and> (\<forall>l \<in> set (lits (arena s ! i)). l < LITS s)
     \<and> length (lits (arena s ! i)) < U32
     \<and> (\<exists>l \<in> set (lits (arena s ! i)). vals s ! l \<noteq> 0)"

definition irredundant_live :: "'f kissat \<Rightarrow> nat \<Rightarrow> bool" where
  "irredundant_live s i \<longleftrightarrow> \<not> garbage (arena s ! i) \<and> \<not> redundant (arena s ! i)"

definition host_ok :: "'f kissat \<Rightarrow> litpair list \<Rightarrow> bool" where
  "host_ok s bins \<longleftrightarrow>
     kissat_walking s \<and> length (arena s) \<le> arena_size s \<and> arena_size s \<le> UINT_MAX
     \<and> length (watches s) = LITS s \<and> (\<forall>ws \<in> set (watches s). ws = [])
     \<and> initial_phase s \<noteq> 0
     \<and> (\<forall>p \<in> set bins. fst p < LITS s \<and> snd p < LITS s)
     \<and> (\<forall>c \<in> set (arena s). (\<forall>l \<in> set (lits c). l < LITS s) \<and> length (lits c) \<le> UINT_MAX)
     \<and> length bins + length (filter (\<lambda>c. \<not> garbage c \<and> \<not> redundant c) (arena s))
          \<le> binirr_clauses s
     \<and> (\<forall>c \<in> set (arena s).
           \<not> garbage c \<and> \<not> redundant c \<and> (\<forall>l \<in> set (lits c). vals s ! l \<le> 0)
           \<longrightarrow> (\<exists>l \<in> set (lits c). active s ! IDX l))"

datatype point = Set_up | Round_head | Flipped lit

inductive walk_point ::
  "'f env \<Rightarrow> 'f kissat \<Rightarrow> litpair list \<Rightarrow> point \<Rightarrow> 'f kissat \<Rightarrow> walker \<Rightarrow> bool"
  for ev :: "'f env" and s0 :: "'f kissat" and bins :: "litpair list" where
  set_up: "host_ok s0 bins \<Longrightarrow> init_walker ev s0 bins = Some (s, w) \<Longrightarrow>
             walk_point ev s0 bins Set_up s w"
| start: "walk_point ev s0 bins Set_up s w \<Longrightarrow>
            walk_point ev s0 bins Round_head s (init_walker_limit ev s w)"
| flip: "walk_point ev s0 bins Round_head s w \<Longrightarrow>
           minimum w \<noteq> 0 \<Longrightarrow> walk_steps (stats s) < limit w \<Longrightarrow> \<not> termination_poll ev s \<Longrightarrow>
           pick_literal ev (inc_flipped s) (w\<lparr>flipped := u64 (flipped w + 1)\<rparr>) = (s2, w2, l) \<Longrightarrow>
           flip_literal s2 w2 l = (s3, w3) \<Longrightarrow>
           walk_point ev s0 bins (Flipped l) s3 w3"
| finish: "walk_point ev s0 bins (Flipped l) s3 w3 \<Longrightarrow>
             push_flipped s3 w3 l = (s4, w4) \<Longrightarrow>
             (if current w4 < minimum w4 then update_best s4 w4 else (s4, w4)) = (s5, w5) \<Longrightarrow>
             walk_point ev s0 bins Round_head s5 w5"

definition counter_refs :: "'f kissat \<Rightarrow> nat set" where
  "counter_refs s = set (concat (watches s))"

definition invariant_A :: "'f kissat \<Rightarrow> walker \<Rightarrow> bool" where
  "invariant_A s w \<longleftrightarrow>
     (\<forall>r \<in> counter_refs s. r \<in> set (unsat w) \<longleftrightarrow> count (counters w ! r) = 0)
     \<and> (\<forall>r \<in> set (unsat w). r \<in> counter_refs s \<and> pos (counters w ! r) < length (unsat w)
           \<and> unsat w ! pos (counters w ! r) = r)
     \<and> distinct (unsat w)"

definition pop_keeps_index :: "walker \<Rightarrow> nat \<Rightarrow> bool" where
  "pop_keeps_index w r \<longleftrightarrow>
     (let p = pos (counters w ! r); other = last (unsat w); w' = fst (pop_unsat w r p) in
        set (unsat w') = set (unsat w) - {r} \<and> distinct (unsat w')
        \<and> (\<forall>x \<in> set (unsat w'). pos (counters w' ! x) < length (unsat w')
              \<and> unsat w' ! pos (counters w' ! x) = x)
        \<and> (r \<noteq> other \<longrightarrow> unsat w' ! p = other \<and> pos (counters w' ! other) = p))"

definition flip_inv :: "nat \<Rightarrow> 'f kissat \<Rightarrow> walker \<Rightarrow> bool" where
  "flip_inv n s w \<longleftrightarrow>
     index_inv n w \<and> count_inv n s w \<and> assignment_ok s
     \<and> current w = currently_unsatified w \<and> scores w = []
     \<and> (\<forall>r<n. \<exists>l \<in> set (dereference_literals s w r). vals s ! l \<noteq> 0)"

definition host_ex :: "unit kissat" where
  "host_ex = solver_ex\<lparr>vals := replicate 6 0, watches := replicate 6 []\<rparr>"

fun round_steps ::
  "'f env \<Rightarrow> nat \<Rightarrow> 'f kissat \<times> walker \<Rightarrow> ('f kissat \<times> walker) option" where
  "round_steps ev 0 sw = Some sw"
| "round_steps ev (Suc k) sw =
     (case round_steps ev k sw of
        None \<Rightarrow> None
      | Some (s, w) \<Rightarrow>
          if minimum w \<noteq> 0 \<and> walk_steps (stats s) < limit w \<and> \<not> termination_poll ev s
          then Some (local_search_step ev s w) else None)"

definition solver_c10 :: "unit kissat" where
  "solver_c10 =
     \<lparr>vars = 4, active = [True, True, True, True], vals = [- 1, 1, - 1, 1, - 1, 1, - 1, 1],
      pol_activity = [0, 0, 0, 0, 0, 0, 0, 0], phases_saved = [- 1, - 1, - 1, - 1],
      phases_target = [0, 0, 0, 0], stable = False, option_warmup = False, initial_phase = 1,
      arena = [], arena_size = 0, last_irredundant = INVALID_REF, binirr_clauses = 4,
      watches = [[0, 3], [], [0, 2], [], [1, 2, 3], [], [1], []],
      random_seed = 0,
      stats = \<lparr>walks = 1, walk_steps = 0, walk_decisions = 1, walk_improved = 0,
               flipped_stat = 0\<rparr>,
      frame = ()\<rparr>"

definition walker_c10 :: walker where
  "walker_c10 =
     \<lparr>best = 0, clauses = 4, current = 4, exponents = 2, initial = 4, minimum = 4,
      random = 1, counters = [\<lparr>count = 0, pos = 0\<rparr>, \<lparr>count = 0, pos = 1\<rparr>,
        \<lparr>count = 0, pos = 2\<rparr>, \<lparr>count = 0, pos = 3\<rparr>],
      binaries = [(0, 2), (4, 6), (2, 4), (0, 4)], saved = [0, 0, 0, 0, 0, 0, 0, 0],
      refs = [\<lparr>ref = 0, binary = True\<rparr>, \<lparr>ref = 1, binary = True\<rparr>,
        \<lparr>ref = 2, binary = True\<rparr>, \<lparr>ref = 3, binary = True\<rparr>],
      table = [1, 1 / 2], scores = [], unsat = [0, 1, 2, 3], trail = [], size_avg = 2,
      epsilon = 1 / 2, limit = 100, flipped = 0\<rparr>"

definition state_c10 :: "unit kissat \<times> walker" where
  "state_c10 = local_search_step env_ex solver_c10 walker_c10"

definition solver_c4 :: "unit kissat" where
  "solver_c4 = solver_ex\<lparr>stats := (stats solver_ex)\<lparr>walks := 2\<rparr>\<rparr>"

definition cb_line :: "nat \<Rightarrow> double \<Rightarrow> double" where
  "cb_line i sz =
     (let x2 = fst (cbvals ! (i + 1)); x1 = fst (cbvals ! i);
          y2 = snd (cbvals ! (i + 1)); y1 = snd (cbvals ! i)
      in fadd (fdiv (fmul (fsub y2 y1) (fsub sz x1)) (fsub x2 x1)) y1)"

section \<open>Properties\<close>

lemma u32_id: "n < 2 ^ 32 \<Longrightarrow> u32 n = n"
  by (simp add: u32_def)

subsection \<open>What each function leaves unchanged\<close>

lemma search_part_simps [simp]:
  "search_part (w\<lparr>counters := cs\<rparr>) = search_part w"
  "search_part (w\<lparr>unsat := us\<rparr>) = search_part w"
  "search_part (w\<lparr>current := c\<rparr>) = search_part w"
  by (simp_all add: search_part_def)

lemma search_part_fields:
  assumes "search_part w' = search_part w"
  shows "best w' = best w" "trail w' = trail w" "minimum w' = minimum w"
    "flipped w' = flipped w" "clauses w' = clauses w" "refs w' = refs w"
    "binaries w' = binaries w" "saved w' = saved w" "table w' = table w"
    "exponents w' = exponents w" "epsilon w' = epsilon w" "initial w' = initial w"
    "random w' = random w" "scores w' = scores w" "limit w' = limit w"
    "size_avg w' = size_avg w"
proof -
  have a: "\<And>f. f (search_part w') = f (search_part w)" using assms by simp
  show "best w' = best w" using a[of best] by (simp add: search_part_def)
  show "trail w' = trail w" using a[of trail] by (simp add: search_part_def)
  show "minimum w' = minimum w" using a[of minimum] by (simp add: search_part_def)
  show "flipped w' = flipped w" using a[of flipped] by (simp add: search_part_def)
  show "clauses w' = clauses w" using a[of clauses] by (simp add: search_part_def)
  show "refs w' = refs w" using a[of refs] by (simp add: search_part_def)
  show "binaries w' = binaries w" using a[of binaries] by (simp add: search_part_def)
  show "saved w' = saved w" using a[of saved] by (simp add: search_part_def)
  show "table w' = table w" using a[of table] by (simp add: search_part_def)
  show "exponents w' = exponents w" using a[of exponents] by (simp add: search_part_def)
  show "epsilon w' = epsilon w" using a[of epsilon] by (simp add: search_part_def)
  show "initial w' = initial w" using a[of initial] by (simp add: search_part_def)
  show "random w' = random w" using a[of random] by (simp add: search_part_def)
  show "scores w' = scores w" using a[of scores] by (simp add: search_part_def)
  show "limit w' = limit w" using a[of limit] by (simp add: search_part_def)
  show "size_avg w' = size_avg w" using a[of size_avg] by (simp add: search_part_def)
qed

lemma search_part_push [simp]: "search_part (push_unsat w r) = search_part w"
  by (simp add: push_unsat_def)

lemma search_part_pop [simp]: "search_part (fst (pop_unsat w r p)) = search_part w"
  by (simp add: pop_unsat_def Let_def)

lemma make_clauses_loop_frame:
  "search_part (fst (make_clauses_loop ws w steps)) = search_part w"
proof (induction ws arbitrary: w steps)
  case Nil
  show ?case by simp
next
  case (Cons r ws)
  show ?case
    by (simp add: Let_def Cons.IH split: prod.splits)
       (metis search_part_pop search_part_simps(1) fst_conv)
qed

lemma break_clauses_loop_frame:
  "search_part (fst (break_clauses_loop ws w steps)) = search_part w"
  by (induction ws arbitrary: w steps) (simp_all add: Let_def)

lemma host_part_simps [simp]:
  "host_part (s\<lparr>vals := vs\<rparr>) = host_part s"
  "host_part (s\<lparr>stats := st\<rparr>) = host_part s"
  by (simp_all add: host_part_def)

lemma host_part_fields:
  assumes "host_part s' = host_part s"
  shows "vars s' = vars s" "phases_saved s' = phases_saved s" "watches s' = watches s"
    "arena s' = arena s" "pol_activity s' = pol_activity s" "active s' = active s"
    "phases_target s' = phases_target s" "frame s' = frame s"
    "last_irredundant s' = last_irredundant s" "binirr_clauses s' = binirr_clauses s"
    "random_seed s' = random_seed s" "stable s' = stable s"
    "option_warmup s' = option_warmup s" "initial_phase s' = initial_phase s"
proof -
  have a: "\<And>f. f (host_part s') = f (host_part s)" using assms by simp
  show "vars s' = vars s" using a[of vars] by (simp add: host_part_def)
  show "phases_saved s' = phases_saved s" using a[of phases_saved] by (simp add: host_part_def)
  show "watches s' = watches s" using a[of watches] by (simp add: host_part_def)
  show "arena s' = arena s" using a[of arena] by (simp add: host_part_def)
  show "pol_activity s' = pol_activity s" using a[of pol_activity] by (simp add: host_part_def)
  show "active s' = active s" using a[of active] by (simp add: host_part_def)
  show "phases_target s' = phases_target s" using a[of phases_target] by (simp add: host_part_def)
  show "frame s' = frame s" using a[of frame] by (simp add: host_part_def)
  show "last_irredundant s' = last_irredundant s" using a[of last_irredundant] by (simp add: host_part_def)
  show "binirr_clauses s' = binirr_clauses s" using a[of binirr_clauses] by (simp add: host_part_def)
  show "random_seed s' = random_seed s" using a[of random_seed] by (simp add: host_part_def)
  show "stable s' = stable s" using a[of stable] by (simp add: host_part_def)
  show "option_warmup s' = option_warmup s" using a[of option_warmup] by (simp add: host_part_def)
  show "initial_phase s' = initial_phase s" using a[of initial_phase] by (simp add: host_part_def)
qed

lemma host_part_add_walk_steps [simp]: "host_part (add_walk_steps s n) = host_part s"
  by (simp add: add_walk_steps_def)

lemma flip_literal_frame:
  "host_part (fst (flip_literal s w l)) = host_part s"
  "search_part (snd (flip_literal s w l)) = search_part w"
  by (simp_all add: flip_literal_def Let_def make_clauses_def break_clauses_def
      split: prod.splits)
     (metis make_clauses_loop_frame break_clauses_loop_frame fst_conv)

lemma flip_literal_current:
  "current (snd (flip_literal s w l)) = currently_unsatified (snd (flip_literal s w l))"
  by (simp add: flip_literal_def Let_def currently_unsatified_def split: prod.splits)

lemma pick_part_simps [simp]:
  "pick_part (w\<lparr>scores := sc\<rparr>) = pick_part w"
  "pick_part (w\<lparr>random := g\<rparr>) = pick_part w"
  "pick_part (w\<lparr>flipped := f\<rparr>) = pick_part w"
  by (simp_all add: pick_part_def)

lemma pick_part_fields:
  assumes "pick_part w' = pick_part w"
  shows "best w' = best w" "trail w' = trail w" "minimum w' = minimum w"
    "clauses w' = clauses w" "refs w' = refs w" "counters w' = counters w"
    "binaries w' = binaries w" "saved w' = saved w" "table w' = table w"
    "exponents w' = exponents w" "epsilon w' = epsilon w" "initial w' = initial w"
    "unsat w' = unsat w" "current w' = current w" "limit w' = limit w"
    "size_avg w' = size_avg w"
proof -
  have a: "\<And>f. f (pick_part w') = f (pick_part w)" using assms by simp
  show "best w' = best w" using a[of best] by (simp add: pick_part_def)
  show "trail w' = trail w" using a[of trail] by (simp add: pick_part_def)
  show "minimum w' = minimum w" using a[of minimum] by (simp add: pick_part_def)
  show "clauses w' = clauses w" using a[of clauses] by (simp add: pick_part_def)
  show "refs w' = refs w" using a[of refs] by (simp add: pick_part_def)
  show "counters w' = counters w" using a[of counters] by (simp add: pick_part_def)
  show "binaries w' = binaries w" using a[of binaries] by (simp add: pick_part_def)
  show "saved w' = saved w" using a[of saved] by (simp add: pick_part_def)
  show "table w' = table w" using a[of table] by (simp add: pick_part_def)
  show "exponents w' = exponents w" using a[of exponents] by (simp add: pick_part_def)
  show "epsilon w' = epsilon w" using a[of epsilon] by (simp add: pick_part_def)
  show "initial w' = initial w" using a[of initial] by (simp add: pick_part_def)
  show "unsat w' = unsat w" using a[of unsat] by (simp add: pick_part_def)
  show "current w' = current w" using a[of current] by (simp add: pick_part_def)
  show "limit w' = limit w" using a[of limit] by (simp add: pick_part_def)
  show "size_avg w' = size_avg w" using a[of size_avg] by (simp add: pick_part_def)
qed

lemma pick_scores_loop_frame:
  "pick_scores_loop ls s w pl sm = (s', w', pl', sm') \<Longrightarrow>
     host_part s' = host_part s \<and> vals s' = vals s \<and> pick_part w' = pick_part w"
proof (induction ls arbitrary: s w pl sm)
  case Nil
  then show ?case by simp
next
  case (Cons l ls)
  show ?case
  proof (cases "vals s ! l = 0")
    case True
    with Cons show ?thesis by simp
  next
    case False
    obtain s1 b where bv: "break_value s w l = (s1, b)" by (cases "break_value s w l")
    have s1: "host_part s1 = host_part s" "vals s1 = vals s"
      using bv by (auto simp: break_value_def Let_def add_walk_steps_def)
    from Cons.prems False bv
    have "pick_scores_loop ls s1 (w\<lparr>scores := scores w @ [scale_score w b]\<rparr>) l
            (fadd sm (scale_score w b)) = (s', w', pl', sm')"
      by (simp add: Let_def)
    from Cons.IH[OF this] s1 show ?thesis by simp
  qed
qed

lemma pick_literal_frame:
  "pick_literal ev s w = (s', w', l) \<Longrightarrow>
     host_part s' = host_part s \<and> vals s' = vals s \<and> pick_part w' = pick_part w
     \<and> flipped w' = u64 (flipped w + 1)"
proof -
  assume a: "pick_literal ev s w = (s', w', l)"
  let ?w1 = "w\<lparr>flipped := u64 (flipped w + 1)\<rparr>"
  let ?ls = "dereference_literals s ?w1 (unsat ?w1 ! pick_pos w)"
  obtain s1 w2 ll sm where ps: "pick_scores_loop ?ls s ?w1 INVALID_LIT 0 = (s1, w2, ll, sm)"
    by (cases "pick_scores_loop ?ls s ?w1 INVALID_LIT 0") auto
  from pick_scores_loop_frame[OF ps]
  have f: "host_part s1 = host_part s" "vals s1 = vals s" "pick_part w2 = pick_part w" by simp_all
  have "flipped w2 = flipped ?w1"
  proof -
    have "pick_scores_loop ls s0 w0 pl sm0 = (sa, wa, pla, sma) \<Longrightarrow> flipped wa = flipped w0"
      for ls s0 w0 pl sm0 sa wa pla sma
      by (induction ls arbitrary: s0 w0 pl sm0) (auto simp: Let_def split: if_splits prod.splits)
    from this[OF ps] show ?thesis .
  qed
  with a ps f show ?thesis
    by (auto simp: pick_literal_def Let_def split: prod.splits)
qed

lemma push_flipped_frame:
  "push_flipped s w l = (s', w') \<Longrightarrow>
     vals s' = vals s \<and> stats s' = stats s \<and> vars s' = vars s \<and>
     unsat w' = unsat w \<and> counters w' = counters w \<and> current w' = current w \<and>
     flipped w' = flipped w \<and> minimum w' = minimum w"
  by (auto simp: push_flipped_def Let_def save_walker_trail_def split: if_splits prod.splits)

lemma update_best_frame:
  "update_best s w = (s', w') \<Longrightarrow>
     vals s' = vals s \<and> stats s' = stats s \<and> vars s' = vars s \<and>
     unsat w' = unsat w \<and> counters w' = counters w \<and> current w' = current w \<and>
     flipped w' = flipped w \<and> trail w' = trail w"
  by (auto simp: update_best_def Let_def save_all_values_def split: if_splits prod.splits)

lemma local_search_step_unfold:
  assumes "pick_literal ev (inc_flipped s) (w\<lparr>flipped := u64 (flipped w + 1)\<rparr>) = (s2, w2, l)"
    and "flip_literal s2 w2 l = (s3, w3)"
    and "push_flipped s3 w3 l = (s4, w4)"
  shows "local_search_step ev s w =
           (if current w4 < minimum w4 then update_best s4 w4 else (s4, w4))"
  using assms by (simp add: local_search_step_def Let_def)

lemma local_search_step_flipped:
  "local_search_step ev s w = (s', w') \<Longrightarrow>
     flipped w' = u64 (u64 (flipped w + 1) + 1) \<and> current w' = currently_unsatified w'"
proof -
  assume a: "local_search_step ev s w = (s', w')"
  obtain s2 w2 l where p: "pick_literal ev (inc_flipped s) (w\<lparr>flipped := u64 (flipped w + 1)\<rparr>) = (s2, w2, l)"
    by (metis prod_cases3)
  obtain s3 w3 where f: "flip_literal s2 w2 l = (s3, w3)" by (metis surj_pair)
  obtain s4 w4 where q: "push_flipped s3 w3 l = (s4, w4)" by (metis surj_pair)
  have 1: "flipped w2 = u64 (u64 (flipped w + 1) + 1)"
    using pick_literal_frame[OF p] by simp
  have 2: "flipped w3 = flipped w2" "current w3 = currently_unsatified w3"
    using search_part_fields(4)[OF flip_literal_frame(2), of s2 w2 l]
      flip_literal_current[of s2 w2 l] f by simp_all
  have 3: "flipped w4 = flipped w3" "current w4 = current w3" "unsat w4 = unsat w3"
    using push_flipped_frame[OF q] by simp_all
  have 4: "flipped w4 = u64 (u64 (flipped w + 1) + 1)" "current w4 = currently_unsatified w4"
    using 1 2 3 by (simp_all add: currently_unsatified_def)
  show ?thesis
  proof (cases "current w4 < minimum w4")
    case True
    then have "update_best s4 w4 = (s', w')"
      using local_search_step_unfold[OF p f q] a by simp
    from update_best_frame[OF this] 4 show ?thesis by (simp add: currently_unsatified_def)
  next
    case False
    then have "(s4, w4) = (s', w')"
      using local_search_step_unfold[OF p f q] a by simp
    with 4 show ?thesis by auto
  qed
qed

subsection \<open>The gate of the walk\<close>

text \<open>
  Claim C6, as stated, reads the host's field \<open>last_irredundant\<close>. The code first replaces
  the sentinel \<open>INVALID_REF\<close> (no irredundant large clause) by the size of the arena, so a
  solver whose field is \<open>INVALID_REF\<close>, which is above \<open>MAX_WALK_REF\<close>, walks when its
  arena is small.
\<close>

theorem kissat_walking_counterexample:
  "\<not> (kissat_walking (solver_ex\<lparr>last_irredundant := INVALID_REF\<rparr>) \<longleftrightarrow>
        last_irredundant (solver_ex\<lparr>last_irredundant := INVALID_REF\<rparr>) \<le> MAX_WALK_REF \<and>
        binirr_clauses (solver_ex\<lparr>last_irredundant := INVALID_REF\<rparr>) \<le> MAX_WALK_REF)"
  by (simp add: kissat_walking_def Let_def solver_ex_def
      INVALID_REF_def UINT_MAX_def MAX_WALK_REF_def LD_MAX_WALK_REF_def u32_def)

text \<open>
  Claim C6, amended. \<open>kissat_walking\<close> returns true iff \<open>BINIRR_CLAUSES\<close> is at most
  \<open>MAX_WALK_REF = 2 ^ 31 - 1\<close> and so is the last irredundant reference, which is the field
  \<open>last_irredundant\<close> unless that is \<open>INVALID_REF\<close>, and then the size of the arena in wards
  as an \<open>unsigned\<close>. When it returns false, \<open>kissat_walk\<close> returns the solver as it is,
  without the warm-up and without the walking phase; when it returns true, \<open>kissat_walk\<close>
  is the optional warm-up followed by the walking phase between the host's two mode
  switches.
\<close>

theorem kissat_walking_gate:
  "(kissat_walking s \<longleftrightarrow>
      (if last_irredundant s = INVALID_REF then arena_size s mod 2 ^ 32 \<le> 2 ^ 31 - 1
       else last_irredundant s \<le> 2 ^ 31 - 1)
      \<and> binirr_clauses s \<le> 2 ^ 31 - 1)
   \<and> (\<not> kissat_walking s \<longrightarrow> kissat_walk ev s = Some s)
   \<and> (kissat_walking s \<longrightarrow>
        kissat_walk ev s =
          map_option (resume_search ev)
            (walking_phase ev
               (start_simplifier ev (if option_warmup s then warmup ev s else s))))"
proof -
  have m: "MAX_WALK_REF = 2 ^ 31 - 1" by (simp add: MAX_WALK_REF_def LD_MAX_WALK_REF_def)
  have 1: "kissat_walking s \<longleftrightarrow>
      (if last_irredundant s = INVALID_REF then arena_size s mod 2 ^ 32 \<le> 2 ^ 31 - 1
       else last_irredundant s \<le> 2 ^ 31 - 1)
      \<and> binirr_clauses s \<le> 2 ^ 31 - 1"
    unfolding kissat_walking_def Let_def m u32_def by (simp add: not_less)
  have 2: "\<not> kissat_walking s \<longrightarrow> kissat_walk ev s = Some s"
    unfolding kissat_walking_def kissat_walk_def Let_def by simp
  have 3: "kissat_walking s \<longrightarrow>
        kissat_walk ev s =
          map_option (resume_search ev)
            (walking_phase ev
               (start_simplifier ev (if option_warmup s then warmup ev s else s)))"
    unfolding kissat_walking_def kissat_walk_def Let_def
    by (simp split: option.splits if_splits)
  show ?thesis using 1 2 3 by blast
qed

theorem kissat_walking_gate_witness:
  "last_irredundant (solver_ex\<lparr>arena_size := 2 ^ 31, last_irredundant := INVALID_REF\<rparr>)
     = INVALID_REF
   \<and> \<not> kissat_walking (solver_ex\<lparr>arena_size := 2 ^ 31, last_irredundant := INVALID_REF\<rparr>)
   \<and> kissat_walk env_ex (solver_ex\<lparr>arena_size := 2 ^ 31, last_irredundant := INVALID_REF\<rparr>)
       = Some (solver_ex\<lparr>arena_size := 2 ^ 31, last_irredundant := INVALID_REF\<rparr>)
   \<and> kissat_walking (solver_ex\<lparr>arena_size := 2 ^ 31 - 1, last_irredundant := INVALID_REF\<rparr>)
   \<and> \<not> kissat_walking (solver_ex\<lparr>binirr_clauses := 2 ^ 31\<rparr>)
   \<and> kissat_walk env_ex (solver_ex\<lparr>binirr_clauses := 2 ^ 31\<rparr>)
       = Some (solver_ex\<lparr>binirr_clauses := 2 ^ 31\<rparr>)"
proof -
  let ?a = "solver_ex\<lparr>arena_size := 2 ^ 31, last_irredundant := INVALID_REF\<rparr>"
  let ?b = "solver_ex\<lparr>arena_size := 2 ^ 31 - 1, last_irredundant := INVALID_REF\<rparr>"
  let ?c = "solver_ex\<lparr>binirr_clauses := 2 ^ 31\<rparr>"
  have a: "last_irredundant ?a = INVALID_REF" "arena_size ?a = 2 ^ 31" by simp_all
  have b: "last_irredundant ?b = INVALID_REF" "arena_size ?b = 2 ^ 31 - 1"
    "binirr_clauses ?b = 3"
    by (simp_all add: solver_ex_def)
  have c: "binirr_clauses ?c = 2 ^ 31" by simp
  have na: "\<not> kissat_walking ?a"
    using kissat_walking_gate[of ?a env_ex] unfolding a by simp
  have wb: "kissat_walking ?b"
    using kissat_walking_gate[of ?b env_ex] unfolding b by simp
  have nc: "\<not> kissat_walking ?c"
    using kissat_walking_gate[of ?c env_ex] unfolding c by simp
  from kissat_walking_gate[of ?a env_ex] kissat_walking_gate[of ?c env_ex] a(1) na wb nc
  show ?thesis by blast
qed

subsection \<open>Exporting the best assignment\<close>

lemma save_trail_loop_length [simp]: "length (save_trail_loop ls sv) = length sv"
  by (induction ls arbitrary: sv) simp_all

lemma save_trail_loop_nth:
  "idx < length sv \<Longrightarrow>
   save_trail_loop ls sv ! idx = (case trail_phase ls idx of None \<Rightarrow> sv ! idx | Some v \<Rightarrow> v)"
proof (induction ls arbitrary: sv)
  case Nil
  then show ?case by simp
next
  case (Cons l ls)
  then show ?case
    by (cases "trail_phase ls idx") (simp_all add: nth_list_update)
qed

text \<open>
  Claim C7. \<open>save_final_minimum\<close>: when \<open>minimum = initial\<close> nothing changes; else when
  \<open>best\<close> is 0 or \<open>INVALID_BEST\<close> the saved phases are left as they are; otherwise every
  variable of a literal among the first \<open>best\<close> entries of the trail gets the phase of the
  last such literal (+1 for a positive, -1 for a negated literal), every other saved
  phase is kept, and the walker, its trail included, is not changed.
\<close>

theorem save_final_minimum_export:
  "(minimum w = initial w \<longrightarrow> save_final_minimum s w = (s, w))
   \<and> (minimum w \<noteq> initial w \<and> (best w = 0 \<or> best w = INVALID_BEST) \<longrightarrow>
        phases_saved (fst (save_final_minimum s w)) = phases_saved s
        \<and> snd (save_final_minimum s w) = w)
   \<and> (minimum w \<noteq> initial w \<and> best w \<noteq> 0 \<and> best w \<noteq> INVALID_BEST \<longrightarrow>
        snd (save_final_minimum s w) = w
        \<and> length (phases_saved (fst (save_final_minimum s w))) = length (phases_saved s)
        \<and> (\<forall>idx < length (phases_saved s).
              phases_saved (fst (save_final_minimum s w)) ! idx =
                (case trail_phase (take (best w) (trail w)) idx of
                   None \<Rightarrow> phases_saved s ! idx
                 | Some v \<Rightarrow> v)))"
  by (simp add: save_final_minimum_def save_walker_trail_def inc_walk_improved_def
      save_trail_loop_nth)

theorem save_final_minimum_export_witness:
  "minimum walker_c7 \<noteq> initial walker_c7 \<and> best walker_c7 \<noteq> 0
   \<and> best walker_c7 \<noteq> INVALID_BEST
   \<and> snd (save_final_minimum solver_ex walker_c7) = walker_c7
   \<and> phases_saved (fst (save_final_minimum solver_ex walker_c7)) ! 0 = 1
   \<and> phases_saved (fst (save_final_minimum solver_ex walker_c7)) ! 1 = - 1
   \<and> phases_saved (fst (save_final_minimum solver_ex walker_c7)) ! 2 = - 1"
proof -
  have h: "minimum walker_c7 \<noteq> initial walker_c7 \<and> best walker_c7 \<noteq> 0
           \<and> best walker_c7 \<noteq> INVALID_BEST"
    by (simp add: walker_c7_def walker_ex_def INVALID_BEST_def UINT_MAX_def)
  have l: "length (phases_saved solver_ex) = 3" by (simp add: solver_ex_def)
  have t: "take (best walker_c7) (trail walker_c7) = [0, 3]"
    by (simp add: walker_c7_def walker_ex_def)
  have p: "trail_phase [0, 3] 0 = Some 1" "trail_phase [0, 3] 1 = Some (- 1)"
    "trail_phase [0, 3] 2 = None"
    by (simp_all add: IDX_def NEGATED_def)
  have s: "phases_saved solver_ex ! 2 = - 1" by (simp add: solver_ex_def)
  from save_final_minimum_export[of walker_c7 solver_ex] h
  have c: "snd (save_final_minimum solver_ex walker_c7) = walker_c7"
    "\<forall>idx < 3. phases_saved (fst (save_final_minimum solver_ex walker_c7)) ! idx =
        (case trail_phase [0, 3] idx of None \<Rightarrow> phases_saved solver_ex ! idx | Some v \<Rightarrow> v)"
    unfolding l t by blast+
  from c(2) have "phases_saved (fst (save_final_minimum solver_ex walker_c7)) ! 0 = 1"
    "phases_saved (fst (save_final_minimum solver_ex walker_c7)) ! 1 = - 1"
    "phases_saved (fst (save_final_minimum solver_ex walker_c7)) ! 2 = - 1"
    using p s by simp_all
  with h c(1) show ?thesis by blast
qed

subsection \<open>Invalidating the trail\<close>

lemma save_all_values_loop_length [simp]:
  "length (save_all_values_loop idxs vs sv) = length sv"
  by (induction idxs arbitrary: sv) simp_all

lemma save_all_values_loop_nth:
  "idx < length sv \<Longrightarrow>
   save_all_values_loop idxs vs sv ! idx =
     (if idx \<in> set idxs \<and> vs ! LIT idx \<noteq> 0 then vs ! LIT idx else sv ! idx)"
proof (induction idxs arbitrary: sv)
  case Nil
  then show ?case by simp
next
  case (Cons i idxs)
  then show ?case by (cases "i = idx") (auto simp: nth_list_update)
qed

lemma invalid_step:
  assumes b: "best w = INVALID_BEST"
    and st: "local_search_step ev s w = (s', w')"
  shows "trail w' = trail w"
    and "current w' < minimum w \<Longrightarrow>
           best w' = 0 \<and> minimum w' = current w'
           \<and> length (phases_saved s') = length (phases_saved s)
           \<and> (\<forall>idx < length (phases_saved s). phases_saved s' ! idx =
                 (if idx < vars s \<and> vals s' ! LIT idx \<noteq> 0 then vals s' ! LIT idx
                  else phases_saved s ! idx))"
    and "\<not> current w' < minimum w \<Longrightarrow>
           best w' = INVALID_BEST \<and> minimum w' = minimum w \<and> phases_saved s' = phases_saved s"
proof -
  let ?w1 = "w\<lparr>flipped := u64 (flipped w + 1)\<rparr>"
  obtain s2 w2 l where p: "pick_literal ev (inc_flipped s) ?w1 = (s2, w2, l)"
    by (metis prod_cases3)
  obtain s3 w3 where f: "flip_literal s2 w2 l = (s3, w3)" by (metis surj_pair)
  have hp: "host_part s2 = host_part s" and pp: "pick_part w2 = pick_part w"
    using pick_literal_frame[OF p] by (simp_all add: inc_flipped_def)
  have hf: "host_part s3 = host_part s2" and sf: "search_part w3 = search_part w2"
    using flip_literal_frame[of s2 w2 l] f by simp_all
  have w3: "best w3 = best w" "trail w3 = trail w" "minimum w3 = minimum w"
    using search_part_fields(1,2,3)[OF sf] pick_part_fields(1,2,3)[OF pp] by simp_all
  have s3: "phases_saved s3 = phases_saved s" "vars s3 = vars s"
    using host_part_fields(1,2)[OF hf] host_part_fields(1,2)[OF hp] by simp_all
  have q: "push_flipped s3 w3 l = (s3, w3)"
    using w3(1) b by (simp add: push_flipped_def)
  have u: "local_search_step ev s w =
             (if current w3 < minimum w3 then update_best s3 w3 else (s3, w3))"
    by (rule local_search_step_unfold[OF p f q])
  have ub: "update_best s3 w3 =
              (s3\<lparr>phases_saved := save_all_values_loop [0..<vars s3] (vals s3) (phases_saved s3)\<rparr>,
               w3\<lparr>minimum := current w3, best := 0\<rparr>)"
    using w3(1) b by (simp add: update_best_def save_all_values_def Let_def)
  show "trail w' = trail w"
    using u st ub w3 by (auto split: if_splits)
  have cur: "current w' = current w3"
    using u st ub by (auto split: if_splits)
  {
    assume "current w' < minimum w"
    then have e: "s' = s3\<lparr>phases_saved := save_all_values_loop [0..<vars s3] (vals s3) (phases_saved s3)\<rparr>"
      "w' = w3\<lparr>minimum := current w3, best := 0\<rparr>"
      using u st ub cur w3 by simp_all
    show "best w' = 0 \<and> minimum w' = current w'
           \<and> length (phases_saved s') = length (phases_saved s)
           \<and> (\<forall>idx < length (phases_saved s). phases_saved s' ! idx =
                 (if idx < vars s \<and> vals s' ! LIT idx \<noteq> 0 then vals s' ! LIT idx
                  else phases_saved s ! idx))"
      using e s3 by (simp add: save_all_values_loop_nth)
  }
  {
    assume "\<not> current w' < minimum w"
    then have "s' = s3" "w' = w3" using u st cur w3 by simp_all
    then show "best w' = INVALID_BEST \<and> minimum w' = minimum w \<and> phases_saved s' = phases_saved s"
      using w3 s3 b by simp
  }
qed

text \<open>
  Claim C8. With \<open>best = 0\<close> and a trail that has reached the limit \<open>VARS / 4 + 1\<close>,
  \<open>push_flipped\<close> clears the trail, sets \<open>best\<close> to \<open>INVALID_BEST\<close> and does not push the
  literal. While \<open>best\<close> is \<open>INVALID_BEST\<close>, \<open>push_flipped\<close> changes nothing and a whole
  local search step leaves the trail as it is; when that step improves on the minimum,
  \<open>best\<close> becomes 0, \<open>minimum\<close> the current count, and the saved phase of every variable
  with a non-zero value becomes that value (a variable whose value is 0 has no phase in
  the walker's assignment and keeps its saved phase); otherwise \<open>best\<close> stays invalid and
  the saved phases are kept.
\<close>

theorem trail_invalidation:
  "(best w = 0 \<and> vars s div 4 + 1 \<le> u32 (length (trail w)) \<longrightarrow>
      push_flipped s w flp = (s, w\<lparr>trail := [], best := INVALID_BEST\<rparr>))
   \<and> (best w = INVALID_BEST \<longrightarrow> push_flipped s w flp = (s, w))
   \<and> (best w = INVALID_BEST \<longrightarrow>
        (case local_search_step ev s w of
           (s', w') \<Rightarrow>
             trail w' = trail w
             \<and> (if current w' < minimum w
                then best w' = 0 \<and> minimum w' = current w'
                     \<and> length (phases_saved s') = length (phases_saved s)
                     \<and> (\<forall>idx < length (phases_saved s). phases_saved s' ! idx =
                           (if idx < vars s \<and> vals s' ! LIT idx \<noteq> 0 then vals s' ! LIT idx
                            else phases_saved s ! idx))
                else best w' = INVALID_BEST \<and> minimum w' = minimum w
                     \<and> phases_saved s' = phases_saved s)))"
proof (intro conjI impI)
  assume "best w = 0 \<and> vars s div 4 + 1 \<le> u32 (length (trail w))"
  then show "push_flipped s w flp = (s, w\<lparr>trail := [], best := INVALID_BEST\<rparr>)"
    by (simp add: push_flipped_def Let_def INVALID_BEST_def UINT_MAX_def)
next
  assume "best w = INVALID_BEST"
  then show "push_flipped s w flp = (s, w)" by (simp add: push_flipped_def)
next
  assume b: "best w = INVALID_BEST"
  obtain s' w' where st: "local_search_step ev s w = (s', w')" by (metis surj_pair)
  from invalid_step[OF b st] st
  show "case local_search_step ev s w of
           (s', w') \<Rightarrow>
             trail w' = trail w
             \<and> (if current w' < minimum w
                then best w' = 0 \<and> minimum w' = current w'
                     \<and> length (phases_saved s') = length (phases_saved s)
                     \<and> (\<forall>idx < length (phases_saved s). phases_saved s' ! idx =
                           (if idx < vars s \<and> vals s' ! LIT idx \<noteq> 0 then vals s' ! LIT idx
                            else phases_saved s ! idx))
                else best w' = INVALID_BEST \<and> minimum w' = minimum w
                     \<and> phases_saved s' = phases_saved s)"
    by (simp del: One_nat_def)
qed

theorem trail_invalidation_witness:
  "best walker_c8 = 0 \<and> vars solver_ex div 4 + 1 \<le> u32 (length (trail walker_c8))
   \<and> push_flipped solver_ex walker_c8 0 = (solver_ex, walker_c8\<lparr>trail := [], best := INVALID_BEST\<rparr>)
   \<and> best (walker_c8\<lparr>trail := [], best := INVALID_BEST\<rparr>) = INVALID_BEST
   \<and> push_flipped solver_ex (walker_c8\<lparr>trail := [], best := INVALID_BEST\<rparr>) 2
       = (solver_ex, walker_c8\<lparr>trail := [], best := INVALID_BEST\<rparr>)
   \<and> trail (snd (local_search_step env_ex solver_ex
        (walker_c8\<lparr>trail := [], best := INVALID_BEST\<rparr>))) = []"
proof -
  let ?w = "walker_c8\<lparr>trail := [], best := INVALID_BEST\<rparr>"
  have h1: "best walker_c8 = 0 \<and> vars solver_ex div 4 + 1 \<le> u32 (length (trail walker_c8))"
    by (simp add: walker_c8_def walker_ex_def solver_ex_def u32_def)
  have h2: "best ?w = INVALID_BEST" by simp
  have a: "push_flipped solver_ex walker_c8 0 = (solver_ex, ?w)"
    using trail_invalidation[of walker_c8 solver_ex 0 env_ex] h1 by blast
  have b: "push_flipped solver_ex ?w 2 = (solver_ex, ?w)"
    using trail_invalidation[of ?w solver_ex 2 env_ex] h2 by blast
  have c: "trail (snd (local_search_step env_ex solver_ex ?w)) = []"
    using trail_invalidation[of ?w solver_ex 2 env_ex] h2
    by (auto split: prod.splits)
  from h1 h2 a b c show ?thesis by blast
qed

subsection \<open>Rounding to binary64\<close>

lemma pow2_powi: "pow2 e = 2 powi e"
  by (simp add: pow2_def power_int_def field_simps)

lemma pow2_pos [simp]: "0 < pow2 e"
  by (simp add: pow2_powi)

lemma pow2_nonneg [simp]: "0 \<le> pow2 e"
  using pow2_pos[of e] by (rule less_imp_le)

lemma pow2_neq0 [simp]: "pow2 e \<noteq> 0"
  by (metis pow2_pos less_irrefl)

lemma pow2_abs [simp]: "\<bar>pow2 e\<bar> = pow2 e"
  by simp

lemma pow2_add: "pow2 (a + b) = pow2 a * pow2 b"
  by (simp add: pow2_powi power_int_add)

lemma pow2_diff: "pow2 (a - b) = pow2 a / pow2 b"
  by (simp add: pow2_powi power_int_diff)

lemma pow2_minus: "pow2 (- a) = 1 / pow2 a"
  by (simp add: pow2_powi power_int_minus_divide)

lemma pow2_mono: "a \<le> b \<Longrightarrow> pow2 a \<le> pow2 b"
  by (simp add: pow2_powi power_int_increasing)

lemma pow2_strict_mono: "a < b \<Longrightarrow> pow2 a < pow2 b"
  by (simp add: pow2_powi power_int_strict_increasing)

lemma pow2_less_cancel: "pow2 a < pow2 b \<Longrightarrow> a < b"
  using pow2_mono[of b a] by (cases "a < b") auto

lemma pow2_nat: "0 \<le> e \<Longrightarrow> pow2 e = of_int (2 ^ nat e)"
  by (simp add: pow2_def)

lemma ilog2_bounds:
  assumes "0 < q"
  shows "pow2 (ilog2 q) \<le> q" and "q < pow2 (ilog2 q + 1)"
proof -
  have "pow2 (ilog2 q) \<le> q \<and> q < pow2 (ilog2 q + 1)"
  proof (cases "1 \<le> q")
    case True
    define n where "n = \<lfloor>q\<rfloor>"
    have n: "0 < n" using True by (simp add: n_def)
    have b1: "1 \<le> bitlen n" using n by (simp add: bitlen_alt_def)
    from bitlen_bounds[OF n]
    have lo: "2 ^ nat (bitlen n - 1) \<le> n" and hi: "n < 2 ^ nat (bitlen n)" by simp_all
    have e: "ilog2 q = bitlen n - 1" using True by (simp add: ilog2_def n_def)
    have "pow2 (bitlen n - 1) = of_int (2 ^ nat (bitlen n - 1))"
      using b1 by (simp add: pow2_nat)
    also have "\<dots> \<le> of_int n" using lo by (simp only: of_int_le_iff)
    also have "\<dots> \<le> q" by (simp add: n_def)
    finally have 1: "pow2 (ilog2 q) \<le> q" by (simp add: e)
    have "n + 1 \<le> 2 ^ nat (bitlen n)" using hi by simp
    then have "(of_int (n + 1) :: rat) \<le> of_int (2 ^ nat (bitlen n))"
      by (simp only: of_int_le_iff)
    moreover have "q < of_int (n + 1)" by (simp add: n_def; linarith?)
    ultimately have "q < of_int (2 ^ nat (bitlen n))" by simp
    also have "\<dots> = pow2 (bitlen n)" using b1 by (simp add: pow2_nat)
    finally have 2: "q < pow2 (ilog2 q + 1)" by (simp add: e)
    from 1 2 show ?thesis by simp
  next
    case False
    define r where "r = 1 / q"
    define m where "m = \<lceil>r\<rceil>"
    have r1: "1 < r" using False assms by (simp add: r_def)
    have m2: "2 \<le> m" using r1 by (simp add: m_def; linarith?)
    have m1: "0 < m - 1" using m2 by simp
    define b where "b = bitlen (m - 1)"
    have b1: "1 \<le> b" using m1 by (simp add: b_def bitlen_alt_def)
    from bitlen_bounds[OF m1]
    have lo: "2 ^ nat (b - 1) \<le> m - 1" and hi: "m - 1 < 2 ^ nat b" by (simp_all add: b_def)
    have e: "ilog2 q = - b" using False by (simp add: ilog2_def b_def m_def r_def)
    have "(of_int (2 ^ nat (b - 1)) :: rat) \<le> of_int (m - 1)"
      using lo by (simp only: of_int_le_iff)
    moreover have "of_int (m - 1) < r" by (simp add: m_def; linarith?)
    ultimately have rl: "pow2 (b - 1) < r" using b1 by (simp add: pow2_nat)
    have "m \<le> 2 ^ nat b" using hi by simp
    then have mb: "(of_int m :: rat) \<le> of_int (2 ^ nat b)" by (simp only: of_int_le_iff)
    have "r \<le> of_int m" by (simp add: m_def)
    then have "r \<le> of_int (2 ^ nat b)" using mb by (rule order_trans)
    moreover have "pow2 b = of_int (2 ^ nat b)" using b1 by (simp add: pow2_nat)
    ultimately have ru: "r \<le> pow2 b" by simp
    have q: "q = 1 / r" using assms by (simp add: r_def)
    have 1: "pow2 (- b) \<le> q"
    proof -
      have "pow2 (- b) = 1 / pow2 b" by (rule pow2_minus)
      also have "\<dots> \<le> 1 / r" using ru r1 by (simp add: frac_le)
      finally show ?thesis by (simp add: q)
    qed
    have 2: "q < pow2 (- b + 1)"
    proof -
      have "1 / r < 1 / pow2 (b - 1)" using rl by (simp add: frac_less2)
      also have "\<dots> = pow2 (- (b - 1))" by (rule pow2_minus[symmetric])
      also have "- (b - 1) = - b + 1" by simp
      finally show ?thesis by (simp add: q)
    qed
    from 1 2 show ?thesis by (simp add: e)
  qed
  then show "pow2 (ilog2 q) \<le> q" and "q < pow2 (ilog2 q + 1)" by simp_all
qed

lemma ilog2_unique:
  assumes "pow2 e \<le> q" "q < pow2 (e + 1)"
  shows "ilog2 q = e"
proof -
  have q: "0 < q" using assms(1) pow2_pos[of e] by linarith
  from ilog2_bounds[OF q] assms
  have "pow2 (ilog2 q) < pow2 (e + 1)" "pow2 e < pow2 (ilog2 q + 1)" by linarith+
  then have "ilog2 q < e + 1" "e < ilog2 q + 1" by (auto dest: pow2_less_cancel)
  then show ?thesis by simp
qed

lemma ilog2_mono:
  assumes "0 < x" "x \<le> y"
  shows "ilog2 x \<le> ilog2 y"
proof -
  have y: "0 < y" using assms by simp
  from ilog2_bounds(1)[OF assms(1)] ilog2_bounds(2)[OF y] assms(2)
  have "pow2 (ilog2 x) < pow2 (ilog2 y + 1)" by linarith
  then show ?thesis by (auto dest: pow2_less_cancel)
qed

lemma round_even_ge: "of_int n \<le> r \<Longrightarrow> n \<le> round_even r"
proof -
  assume "of_int n \<le> r"
  then have "n \<le> \<lfloor>r\<rfloor>" by (simp add: le_floor_iff)
  then show ?thesis by (auto simp: round_even_def Let_def)
qed

lemma round_even_le: "r \<le> of_int n \<Longrightarrow> round_even r \<le> n"
proof -
  assume a: "r \<le> of_int n"
  show ?thesis
  proof (cases "r = of_int n")
    case True
    then show ?thesis by (simp add: round_even_def)
  next
    case False
    with a have "r < of_int n" by simp
    then have "\<lfloor>r\<rfloor> < n" by (simp add: floor_less_iff)
    then show ?thesis by (auto simp: round_even_def Let_def)
  qed
qed

lemma round_even_of_int [simp]: "round_even (of_int n) = n"
  by (simp add: round_even_def)

lemma round_even_mono:
  assumes "r \<le> r'"
  shows "round_even r \<le> round_even r'"
proof (cases "\<lfloor>r\<rfloor> = \<lfloor>r'\<rfloor>")
  case True
  then have "r - of_int \<lfloor>r\<rfloor> \<le> r' - of_int \<lfloor>r'\<rfloor>" using assms by simp
  with True show ?thesis by (auto simp: round_even_def Let_def)
next
  case False
  have "\<lfloor>r\<rfloor> \<le> \<lfloor>r'\<rfloor>" using assms by (rule floor_mono)
  with False have "\<lfloor>r\<rfloor> + 1 \<le> \<lfloor>r'\<rfloor>" by simp
  moreover have "round_even r \<le> \<lfloor>r\<rfloor> + 1" by (auto simp: round_even_def Let_def)
  moreover have "\<lfloor>r'\<rfloor> \<le> round_even r'" by (auto simp: round_even_def Let_def)
  ultimately show ?thesis by linarith
qed

lemma ulp_exp_ge: "- 1074 \<le> ulp_exp q"
  by (simp add: ulp_exp_def)

lemma dbl_nonneg: "0 \<le> q \<Longrightarrow> 0 \<le> dbl q"
proof -
  assume q: "0 \<le> q"
  have "0 \<le> q / pow2 (ulp_exp q)" using q by simp
  then have "0 \<le> round_even (q / pow2 (ulp_exp q))"
    using round_even_ge[of 0] by simp
  then show ?thesis by (simp add: dbl_def)
qed

lemma dbl_fix:
  assumes k: "0 \<le> k" "k \<le> 2 ^ 53" and u: "- 1074 \<le> u"
  shows "dbl (of_int k * pow2 u) = of_int k * pow2 u"
proof (cases "k = 0")
  case True
  then show ?thesis by (simp add: dbl_def)
next
  case False
  define q where "q = of_int k * pow2 u"
  have kpos: "0 < k" using False k by simp
  have qpos: "0 < q" using kpos by (simp add: q_def)
  define e where "e = ilog2 q"
  define u' where "u' = ulp_exp q"
  have u'def: "u' = max (e - 52) (- 1074)" using qpos by (simp add: u'_def ulp_exp_def e_def)
  have lo: "pow2 e \<le> q" and hi: "q < pow2 (e + 1)"
    using ilog2_bounds[OF qpos] by (simp_all add: e_def)
  have kq: "of_int k = q / pow2 u" by (simp add: q_def)
  have "\<exists>n. q / pow2 u' = of_int n"
  proof (cases "e - 52 \<le> u")
    case True
    then have le: "u' \<le> u" using u by (simp add: u'def)
    have "q / pow2 u' = of_int k * pow2 (u - u')" by (simp add: q_def pow2_diff)
    also have "\<dots> = of_int (k * 2 ^ nat (u - u'))" using le by (simp add: pow2_nat)
    finally show ?thesis by blast
  next
    case False
    then have eu: "u + 53 \<le> e" by simp
    have "pow2 (u + 53) \<le> pow2 e" using eu by (rule pow2_mono)
    also have "\<dots> \<le> q" by (rule lo)
    finally have "pow2 53 * pow2 u \<le> of_int k * pow2 u" by (simp add: q_def pow2_add mult.commute)
    then have "pow2 53 \<le> of_int k" by simp
    then have "(of_int (2 ^ 53) :: rat) \<le> of_int k" by (simp add: pow2_def)
    then have "2 ^ 53 \<le> k" by (simp only: of_int_le_iff)
    with k have k53: "k = 2 ^ 53" by simp
    have p53: "pow2 53 = of_int (2 ^ 53)" by (simp add: pow2_def)
    have qv: "q = pow2 (u + 53)" unfolding q_def k53 pow2_add p53 by (simp add: mult.commute)
    then have "ilog2 q = u + 53"
      using ilog2_unique[of "u + 53" q] pow2_strict_mono[of "u + 53" "u + 53 + 1"] by simp
    then have "u' = u + 1" using u by (simp add: u'def e_def)
    then have "q / pow2 u' = pow2 52" using qv pow2_diff[of "u + 53" "u + 1"] by simp
    also have "\<dots> = of_int (2 ^ 52)" by (simp add: pow2_def)
    finally show ?thesis by blast
  qed
  then obtain n where n: "q / pow2 u' = of_int n" by blast
  have "dbl q = of_int (round_even (q / pow2 u')) * pow2 u'"
    using qpos by (simp add: dbl_def u'_def)
  also have "\<dots> = of_int n * pow2 u'" by (simp add: n)
  also have "\<dots> = q" using n[symmetric] by simp
  finally show ?thesis by (simp add: q_def)
qed

lemma dbl_shape:
  assumes "0 \<le> q"
  shows "\<exists>k u. 0 \<le> k \<and> k \<le> 2 ^ 53 \<and> - 1074 \<le> u \<and> dbl q = of_int k * pow2 u"
proof (cases "q = 0")
  case True
  have "dbl q = of_int 0 * pow2 0" using True by (simp add: dbl_def)
  then show ?thesis by (metis order_refl zero_le_numeral zero_le_power neg_numeral_le_zero)
next
  case False
  then have qpos: "0 < q" using assms by simp
  define e where "e = ilog2 q"
  define u where "u = ulp_exp q"
  define k where "k = round_even (q / pow2 u)"
  have u1: "- 1074 \<le> u" by (simp add: u_def ulp_exp_ge)
  have u2: "e - 52 \<le> u" using qpos by (simp add: u_def ulp_exp_def e_def)
  have k0: "0 \<le> k" using round_even_ge[of 0 "q / pow2 u"] qpos by (simp add: k_def)
  have "q < pow2 (e + 1)" using ilog2_bounds(2)[OF qpos] by (simp add: e_def)
  also have "\<dots> \<le> pow2 (u + 53)" using u2 by (intro pow2_mono) simp
  finally have "q / pow2 u < pow2 (u + 53) / pow2 u" by (simp add: divide_strict_right_mono)
  then have "q / pow2 u < pow2 53" using pow2_diff[of "u + 53" u] by simp
  then have "q / pow2 u \<le> of_int (2 ^ 53)" by (simp add: pow2_def)
  then have k1: "k \<le> 2 ^ 53" unfolding k_def by (rule round_even_le)
  have "dbl q = of_int k * pow2 u" using qpos by (simp add: dbl_def k_def u_def)
  with k0 k1 u1 show ?thesis by blast
qed

lemma dbl_idem: "0 \<le> q \<Longrightarrow> dbl (dbl q) = dbl q"
  using dbl_shape[of q] dbl_fix by auto

lemma dbl_pow2: "- 1074 \<le> e \<Longrightarrow> dbl (pow2 e) = pow2 e"
  using dbl_fix[of 1 e] by simp

lemma dbl_of_nat: "n \<le> 2 ^ 53 \<Longrightarrow> dbl (of_nat n) = of_nat n"
proof -
  assume "n \<le> 2 ^ 53"
  then have "int n \<le> 2 ^ 53" by (metis of_nat_le_iff of_nat_numeral of_nat_power)
  from dbl_fix[of "int n" 0, OF _ this] show ?thesis by (simp add: pow2_def)
qed

lemma dbl_mono:
  assumes "0 \<le> x" "x \<le> y"
  shows "dbl x \<le> dbl y"
proof (cases "x = 0")
  case True
  then show ?thesis using dbl_nonneg[of y] assms by (simp add: dbl_def)
next
  case False
  then have x: "0 < x" and y: "0 < y" using assms by simp_all
  define ex where "ex = ilog2 x"
  define ey where "ey = ilog2 y"
  define ux where "ux = ulp_exp x"
  define uy where "uy = ulp_exp y"
  have exy: "ex \<le> ey" using ilog2_mono[OF x assms(2)] by (simp add: ex_def ey_def)
  have uxd: "ux = max (ex - 52) (- 1074)" using x by (simp add: ux_def ulp_exp_def ex_def)
  have uyd: "uy = max (ey - 52) (- 1074)" using y by (simp add: uy_def ulp_exp_def ey_def)
  have uxy: "ux \<le> uy" using exy by (simp add: uxd uyd)
  have dx: "dbl x = of_int (round_even (x / pow2 ux)) * pow2 ux"
    using x by (simp add: dbl_def ux_def)
  have dy: "dbl y = of_int (round_even (y / pow2 uy)) * pow2 uy"
    using y by (simp add: dbl_def uy_def)
  show ?thesis
  proof (cases "ux = uy")
    case True
    have "x / pow2 uy \<le> y / pow2 uy" using assms(2) by (simp add: divide_right_mono)
    then have "round_even (x / pow2 uy) \<le> round_even (y / pow2 uy)" by (rule round_even_mono)
    then have "(of_int (round_even (x / pow2 uy)) :: rat) \<le> of_int (round_even (y / pow2 uy))"
      by (simp only: of_int_le_iff)
    then show ?thesis using True by (simp add: dx dy)
  next
    case False
    then have lt: "ux < uy" using uxy by simp
    then have uy': "uy = ey - 52" using ulp_exp_ge[of x] by (simp add: uyd ux_def)
    have ge: "0 \<le> ey - ux" using lt uy' by simp
    have "x \<le> y" by (rule assms(2))
    have e1: "ex + 1 \<le> ey" using lt uy' by (simp add: uxd)
    have "x < pow2 (ex + 1)" using ilog2_bounds(2)[OF x] by (simp add: ex_def)
    also have "\<dots> \<le> pow2 ey" using e1 by (rule pow2_mono)
    finally have "x / pow2 ux \<le> pow2 ey / pow2 ux" by (simp add: divide_right_mono)
    also have "\<dots> = of_int (2 ^ nat (ey - ux))"
      using ge pow2_diff[of ey ux] by (simp add: pow2_nat)
    finally have "round_even (x / pow2 ux) \<le> 2 ^ nat (ey - ux)" by (rule round_even_le)
    then have "(of_int (round_even (x / pow2 ux)) :: rat) \<le> of_int (2 ^ nat (ey - ux))"
      by (simp only: of_int_le_iff)
    also have "\<dots> = pow2 ey / pow2 ux" using ge pow2_diff[of ey ux] by (simp add: pow2_nat)
    finally have a: "dbl x \<le> pow2 ey" by (simp add: dx pos_le_divide_eq)
    have "pow2 ey \<le> y" using ilog2_bounds(1)[OF y] by (simp add: ey_def)
    then have "pow2 ey / pow2 uy \<le> y / pow2 uy" by (simp add: divide_right_mono)
    moreover have "pow2 ey / pow2 uy = of_int (2 ^ 52)"
      using pow2_diff[of ey uy] uy' by (simp add: pow2_def)
    ultimately have "of_int (2 ^ 52) \<le> y / pow2 uy" by simp
    then have "2 ^ 52 \<le> round_even (y / pow2 uy)" by (rule round_even_ge)
    then have "(of_int (2 ^ 52) :: rat) \<le> of_int (round_even (y / pow2 uy))"
      by (simp only: of_int_le_iff)
    then have "pow2 ey / pow2 uy \<le> of_int (round_even (y / pow2 uy))"
      using pow2_diff[of ey uy] uy' by (simp add: pow2_def)
    then have b: "pow2 ey \<le> dbl y" by (simp add: dy pos_divide_le_eq)
    from a b show ?thesis by simp
  qed
qed

lemma dbl_tiny: "0 \<le> q \<Longrightarrow> q \<le> pow2 (- 1075) \<Longrightarrow> dbl q = 0"
proof -
  assume q: "0 \<le> q" "q \<le> pow2 (- 1075)"
  have "ilog2 (pow2 (- 1075)) = - 1075"
    using ilog2_unique[of "- 1075" "pow2 (- 1075)"] pow2_strict_mono[of "- 1075" "- 1074"] by simp
  then have u: "ulp_exp (pow2 (- 1075)) = - 1074" by (simp add: ulp_exp_def)
  have "pow2 (- 1075) / pow2 (- 1074) = 1 / 2"
    using pow2_diff[of "- 1075" "- 1074"] by (simp add: pow2_def)
  moreover have "\<lfloor>1 / 2 :: rat\<rfloor> = 0" by (rule floor_unique) simp_all
  ultimately have "dbl (pow2 (- 1075)) = 0"
    by (simp add: dbl_def u round_even_def)
  with dbl_mono[OF q] dbl_nonneg[OF q(1)] show ?thesis by simp
qed

subsection \<open>The break multiplier\<close>

lemma cbvals_eval:
  "cbvals = [(0, 2), (3, 5 / 2), (4, 6417629469002957 / 2251799813685248),
             (5, 4165829655317709 / 1125899906842624),
             (6, 2871044762448691 / 562949953421312),
             (7, 4165829655317709 / 562949953421312)]"
  by code_simp

lemma fit_cbval_index_range:
  assumes "0 \<le> sz"
  shows "fit_cbval_index sz 0 \<le> 4 \<and> fst (cbvals ! fit_cbval_index sz 0) \<le> sz"
  using assms by (simp add: cbvals_def)

lemma dbl_two: "dbl 2 = 2"
  using dbl_pow2[of 1] by (simp add: pow2_def)

lemma dbl_one: "dbl 1 = 1"
  using dbl_pow2[of 0] by (simp add: pow2_def)

lemma dbl_half: "dbl (1 / 2) = 1 / 2"
  using dbl_pow2[of "- 1"] by (simp add: pow2_def)

lemma fit_cbval_ge_2:
  assumes "0 \<le> sz"
  shows "2 \<le> fit_cbval sz"
proof -
  define i where "i = fit_cbval_index sz 0"
  have i: "i \<le> 4" "fst (cbvals ! i) \<le> sz"
    using fit_cbval_index_range[OF assms] by (simp_all add: i_def)
  define x1 x2 y1 y2 where "x1 = fst (cbvals ! i)" and "x2 = fst (cbvals ! (i + 1))"
    and "y1 = snd (cbvals ! i)" and "y2 = snd (cbvals ! (i + 1))"
  have "i = 0 \<or> i = 1 \<or> i = 2 \<or> i = 3 \<or> i = 4" using i(1) by linarith
  then have y: "2 \<le> y1" "y1 \<le> y2"
    unfolding y1_def y2_def cbvals_eval by auto
  have a: "0 \<le> fsub y2 y1" using y by (simp add: fsub_def dbl_nonneg)
  have b: "0 \<le> fsub sz x1" using i(2) by (simp add: fsub_def dbl_nonneg x1_def)
  have c: "0 \<le> fmul (fsub y2 y1) (fsub sz x1)" using a b by (simp add: fmul_def dbl_nonneg)
  have d: "0 \<le> fsub x2 x1"
  proof -
    have "i = 0 \<or> i = 1 \<or> i = 2 \<or> i = 3 \<or> i = 4" using i(1) by linarith
    then have "x1 \<le> x2" unfolding x1_def x2_def cbvals_eval by auto
    then show ?thesis by (simp add: fsub_def dbl_nonneg)
  qed
  have e: "0 \<le> fdiv (fmul (fsub y2 y1) (fsub sz x1)) (fsub x2 x1)"
    using c d by (simp add: fdiv_def dbl_nonneg)
  have "fit_cbval sz = fadd (fdiv (fmul (fsub y2 y1) (fsub sz x1)) (fsub x2 x1)) y1"
    by (simp add: fit_cbval_def Let_def i_def x1_def x2_def y1_def y2_def)
  also have "\<dots> = dbl (fdiv (fmul (fsub y2 y1) (fsub sz x1)) (fsub x2 x1) + y1)"
    by (simp add: fadd_def)
  also have "\<dots> \<ge> dbl 2" using e y(1) by (intro dbl_mono) simp_all
  finally show ?thesis by (simp add: dbl_two)
qed

lemma score_cb_ge_2: "0 \<le> size_avg w \<Longrightarrow> 2 \<le> score_cb s w"
  by (simp add: score_cb_def fit_cbval_ge_2)

lemma base_range:
  assumes "2 \<le> cb"
  shows "0 \<le> fdiv 1 cb" and "fdiv 1 cb \<le> 1 / 2"
proof -
  have p: "0 \<le> 1 / cb" using assms by simp
  show "0 \<le> fdiv 1 cb" using p by (simp add: fdiv_def dbl_nonneg)
  have "1 / cb \<le> 1 / 2" using assms by (simp add: frac_le)
  from dbl_mono[OF p this] show "fdiv 1 cb \<le> 1 / 2" by (simp add: fdiv_def dbl_half)
qed

subsection \<open>The powers of the base\<close>

lemma pow2_half_step: "pow2 e * (1 / 2) = pow2 (e - 1)"
proof -
  have "pow2 (e - 1) = pow2 (e + - 1)" by simp
  also have "\<dots> = pow2 e * pow2 (- 1)" by (rule pow2_add)
  also have "pow2 (- 1) = 1 / 2" by (simp add: pow2_def)
  finally show ?thesis by simp
qed

lemma score_power_nonneg: "0 \<le> base \<Longrightarrow> 0 \<le> score_power base k"
  by (induction k) (simp_all add: fmul_def dbl_nonneg)

lemma score_power_fix: "0 \<le> base \<Longrightarrow> dbl (score_power base k) = score_power base k"
proof (cases k)
  case 0
  then show ?thesis by (simp add: dbl_one)
next
  case (Suc j)
  assume "0 \<le> base"
  then have "0 \<le> score_power base j * base" by (simp add: score_power_nonneg)
  then show ?thesis using Suc by (simp add: fmul_def dbl_idem)
qed

lemma score_power_decreasing:
  assumes "0 \<le> base" "base \<le> 1"
  shows "score_power base (Suc k) \<le> score_power base k"
proof -
  have n: "0 \<le> score_power base k" using assms(1) by (rule score_power_nonneg)
  then have "score_power base k * base \<le> score_power base k"
    using assms(2) by (simp add: mult_left_le)
  moreover have "0 \<le> score_power base k * base" using n assms(1) by simp
  ultimately have "dbl (score_power base k * base) \<le> dbl (score_power base k)"
    by (rule dbl_mono[rotated])
  then show ?thesis using assms(1) by (simp add: fmul_def score_power_fix)
qed

lemma score_power_antimono:
  assumes "0 \<le> base" "base \<le> 1" "i \<le> j"
  shows "score_power base j \<le> score_power base i"
  using assms(3)
proof (induction j)
  case 0
  then show ?case by simp
next
  case (Suc j)
  show ?case
  proof (cases "i = Suc j")
    case True
    then show ?thesis by simp
  next
    case False
    with Suc have "score_power base j \<le> score_power base i" by simp
    with score_power_decreasing[OF assms(1,2), of j] show ?thesis by simp
  qed
qed

lemma score_power_bound:
  assumes "0 \<le> base" "base \<le> 1 / 2" "k \<le> 1074"
  shows "score_power base k \<le> pow2 (- int k)"
  using assms(3)
proof (induction k)
  case 0
  then show ?case by (simp add: pow2_def)
next
  case (Suc k)
  then have ih: "score_power base k \<le> pow2 (- int k)" by simp
  have n: "0 \<le> score_power base k" using assms(1) by (rule score_power_nonneg)
  have "score_power base k * base \<le> pow2 (- int k) * (1 / 2)"
    using ih assms(1,2) n by (intro mult_mono) simp_all
  also have "\<dots> = pow2 (- int k - 1)" by (rule pow2_half_step)
  also have "- int k - 1 = - int (Suc k)" by simp
  finally have le: "score_power base k * base \<le> pow2 (- int (Suc k))" .
  have "0 \<le> score_power base k * base" using n assms(1) by simp
  from dbl_mono[OF this le] have "score_power base (Suc k) \<le> dbl (pow2 (- int (Suc k)))"
    by (simp add: fmul_def)
  also have "\<dots> = pow2 (- int (Suc k))" using Suc.prems by (intro dbl_pow2) simp
  finally show ?case .
qed

lemma score_power_underflow:
  assumes "0 \<le> base" "base \<le> 1 / 2"
  shows "score_power base 1075 = 0"
proof -
  have n: "0 \<le> score_power base 1074" using assms(1) by (rule score_power_nonneg)
  have "score_power base 1074 \<le> pow2 (- 1074)"
    using score_power_bound[OF assms, of 1074] by simp
  then have "score_power base 1074 * base \<le> pow2 (- 1074) * (1 / 2)"
    using assms n by (intro mult_mono) simp_all
  also have "\<dots> = pow2 (- 1074 - 1)" by (rule pow2_half_step)
  also have "- 1074 - 1 = (- 1075 :: int)" by simp
  finally have le: "score_power base 1074 * base \<le> pow2 (- 1075)" .
  have "0 \<le> score_power base 1074 * base" using n assms(1) by simp
  from dbl_tiny[OF this le] have z: "fmul (score_power base 1074) base = 0"
    by (simp add: fmul_def)
  have e: "(1075 :: nat) = Suc 1074" by simp
  show ?thesis unfolding e score_power.simps by (rule z)
qed

subsection \<open>Building the score table\<close>

lemma count_exponents_run:
  "score_power base (i + n) = 0 \<Longrightarrow> (\<forall>j<n. score_power base (i + j) \<noteq> 0) \<Longrightarrow>
   e + n < 2 ^ 32 \<Longrightarrow>
   count_exponents base (score_power base i) e = Some (e + n)"
proof (induction n arbitrary: i e)
  case 0
  then show ?case by (subst count_exponents.simps) simp
next
  case (Suc n)
  have nz: "score_power base i \<noteq> 0" using Suc.prems(2) by (metis add_0_right zero_less_Suc)
  have 1: "score_power base (Suc i + n) = 0" using Suc.prems(1) by simp
  have 2: "\<forall>j<n. score_power base (Suc i + j) \<noteq> 0"
  proof (intro allI impI)
    fix j assume "j < n"
    then have "Suc j < Suc n" by simp
    with Suc.prems(2) have "score_power base (i + Suc j) \<noteq> 0" by blast
    then show "score_power base (Suc i + j) \<noteq> 0" by simp
  qed
  have 3: "Suc e + n < 2 ^ 32" using Suc.prems(3) by simp
  have "count_exponents base (score_power base i) e
          = count_exponents base (score_power base (Suc i)) (u32 (e + 1))"
    using nz by (subst count_exponents.simps) simp
  also have "u32 (e + 1) = Suc e" using Suc.prems(3) by (simp add: u32_def)
  also have "count_exponents base (score_power base (Suc i)) (Suc e) = Some (Suc e + n)"
    by (rule Suc.IH[OF 1 2 3])
  finally show ?case by simp
qed

lemma fill_table_run:
  "score_power base (i + n) = 0 \<Longrightarrow> (\<forall>j<n. score_power base (i + j) \<noteq> 0) \<Longrightarrow>
   i + n < 2 ^ 32 \<Longrightarrow> i + n \<le> length tbl \<Longrightarrow>
   fill_table base (score_power base i) eps tbl i =
     Some (take i tbl @ map (score_power base) [i..<i + n] @ drop (i + n) tbl,
           if n = 0 then eps else score_power base (i + n - 1), i + n)"
proof (induction n arbitrary: i eps tbl)
  case 0
  then show ?case by (subst fill_table.simps) simp
next
  case (Suc n)
  let ?x = "score_power base i"
  let ?tbl = "tbl[i := ?x]"
  have nz: "?x \<noteq> 0" using Suc.prems(2) by (metis add_0_right zero_less_Suc)
  have 1: "score_power base (Suc i + n) = 0" using Suc.prems(1) by simp
  have 2: "\<forall>j<n. score_power base (Suc i + j) \<noteq> 0"
  proof (intro allI impI)
    fix j assume "j < n"
    then have "Suc j < Suc n" by simp
    with Suc.prems(2) have "score_power base (i + Suc j) \<noteq> 0" by blast
    then show "score_power base (Suc i + j) \<noteq> 0" by simp
  qed
  have 3: "Suc i + n < 2 ^ 32" using Suc.prems(3) by simp
  have 4: "Suc i + n \<le> length ?tbl" using Suc.prems(4) by simp
  have il: "i < length tbl" using Suc.prems(4) by simp
  have u: "u32 (i + 1) = Suc i" using Suc.prems(3) by (simp add: u32_def)
  have step: "fill_table base ?x eps tbl i
                = fill_table base (score_power base (Suc i)) ?x ?tbl (Suc i)"
    using nz u by (subst fill_table.simps) simp
  have ih: "fill_table base (score_power base (Suc i)) ?x ?tbl (Suc i) =
     Some (take (Suc i) ?tbl @ map (score_power base) [Suc i..<Suc i + n] @ drop (Suc i + n) ?tbl,
           if n = 0 then ?x else score_power base (Suc i + n - 1), Suc i + n)"
    by (rule Suc.IH[OF 1 2 3 4])
  have A: "take (Suc i) ?tbl @ map (score_power base) [Suc i..<Suc i + n] @ drop (Suc i + n) ?tbl
       = take i tbl @ map (score_power base) [i..<i + Suc n] @ drop (i + Suc n) tbl"
  proof -
    have "i < i + Suc n" by simp
    then have up: "[i..<i + Suc n] = i # [Suc i..<i + Suc n]" by (rule upt_conv_Cons)
    have e: "Suc i + n = i + Suc n" by simp
    show ?thesis unfolding up e using il by (simp add: take_Suc_conv_app_nth del: upt_Suc)
  qed
  have B: "(if n = 0 then ?x else score_power base (Suc i + n - 1))
       = score_power base (i + Suc n - 1)"
    by (cases n) simp_all
  show ?case unfolding step ih A B by simp
qed

lemma score_table_size:
  assumes "0 \<le> base" "base \<le> 1 / 2"
  obtains E where "1 \<le> E" "E \<le> 1075" "score_power base E = 0"
    "\<forall>k<E. 0 < score_power base k"
proof -
  define E where "E = (LEAST n. score_power base n = 0)"
  have z: "score_power base 1075 = 0" by (rule score_power_underflow[OF assms])
  have e0: "score_power base E = 0"
    unfolding E_def by (rule LeastI[where P = "\<lambda>n. score_power base n = 0", OF z])
  have e1: "E \<le> 1075"
    unfolding E_def by (rule Least_le[where P = "\<lambda>n. score_power base n = 0", OF z])
  have e2: "\<forall>k<E. 0 < score_power base k"
  proof (intro allI impI)
    fix k assume "k < E"
    then have "score_power base k \<noteq> 0" unfolding E_def by (rule not_less_Least)
    with score_power_nonneg[OF assms(1), of k] show "0 < score_power base k" by simp
  qed
  have "E \<noteq> 0" using e0 by (cases E) simp_all
  then have "1 \<le> E" by simp
  with e1 e0 e2 show ?thesis using that[of E] by blast
qed

lemma init_score_table_result:
  assumes "2 \<le> score_cb s w"
  obtains E where "1 \<le> E" "E \<le> 1075"
    "score_power (fdiv 1 (score_cb s w)) E = 0"
    "\<forall>k<E. 0 < score_power (fdiv 1 (score_cb s w)) k"
    "init_score_table ev s w =
       Some (w\<lparr>table := map (score_power (fdiv 1 (score_cb s w))) [0..<E], exponents := E,
               epsilon := score_power (fdiv 1 (score_cb s w)) (E - 1)\<rparr>)"
proof -
  let ?base = "fdiv 1 (score_cb s w)"
  obtain E where E: "1 \<le> E" "E \<le> 1075" "score_power ?base E = 0"
    "\<forall>k<E. 0 < score_power ?base k"
    using score_table_size[OF base_range[OF assms]] by blast
  have nz: "\<forall>j<E. score_power ?base (0 + j) \<noteq> 0" using E(4) by auto
  have z: "score_power ?base (0 + E) = 0" using E(3) by simp
  have b: "0 + E < (2::nat) ^ 32" using E(2) by simp
  have c: "count_exponents ?base 1 0 = Some E"
    using count_exponents_run[OF z nz b] by simp
  let ?tbl = "kissat_malloc (malloc_table ev) E"
  have l: "0 + E \<le> length ?tbl" by (simp add: kissat_malloc_def)
  have f: "fill_table ?base 1 1 ?tbl 0 =
     Some (map (score_power ?base) [0..<E], score_power ?base (E - 1), E)"
    using fill_table_run[OF z nz b l, of 1] E(1) by (simp add: kissat_malloc_def)
  have "init_score_table ev s w =
       Some (w\<lparr>table := map (score_power ?base) [0..<E], exponents := E,
               epsilon := score_power ?base (E - 1)\<rparr>)"
    by (simp add: init_score_table_def Let_def c f)
  with E show ?thesis using that[of E] by blast
qed

lemma scale_score_table:
  assumes "1 \<le> E"
  shows "scale_score (w\<lparr>table := map (score_power base) [0..<E], exponents := E,
            epsilon := score_power base (E - 1)\<rparr>) b = score_power base (min b (E - 1))"
proof (cases "b < E")
  case True
  then have "min b (E - 1) = b" by simp
  with True show ?thesis by (simp add: scale_score_def)
next
  case False
  then have "min b (E - 1) = E - 1" by simp
  with False show ?thesis by (simp add: scale_score_def)
qed

subsection \<open>Values of the interpolation\<close>

lemma fit_cbval_index_3: "fit_cbval_index 3 0 = 0"
  by (simp add: cbvals_def)

lemma fit_cbval_index_4: "fit_cbval_index 4 0 = 1"
  by (simp add: cbvals_def)

lemma fit_cbval_index_5: "fit_cbval_index 5 0 = 2"
  by (simp add: cbvals_def)

lemma fit_cbval_index_6: "fit_cbval_index 6 0 = 3"
  by (simp add: cbvals_def)

lemma fit_cbval_index_0: "fit_cbval_index 0 0 = 0"
  by (simp add: cbvals_def)

lemma fit_cbval_index_11_2: "fit_cbval_index (11 / 2) 0 = 3"
  by (simp add: cbvals_def)

lemma fit_cbval_index_beyond: "6 < sz \<Longrightarrow> fit_cbval_index sz 0 = 4"
  by (simp add: cbvals_def)

lemma fit_cbval_0: "fit_cbval 0 = 2"
  apply (simp add: fit_cbval_def fit_cbval_index_0 cbvals_def Let_def)
  apply code_simp
  done

lemma fit_cbval_3: "fit_cbval 3 = 5 / 2"
  apply (simp add: fit_cbval_def fit_cbval_index_3 cbvals_def Let_def)
  apply code_simp
  done

lemma fit_cbval_4: "fit_cbval 4 = dbl (285 / 100)"
  apply (simp add: fit_cbval_def fit_cbval_index_4 cbvals_def Let_def)
  apply code_simp
  done

lemma fit_cbval_5: "fit_cbval 5 = dbl (37 / 10)"
  apply (simp add: fit_cbval_def fit_cbval_index_5 cbvals_def Let_def)
  apply code_simp
  done

lemma fit_cbval_6: "fit_cbval 6 = dbl (51 / 10)"
  apply (simp add: fit_cbval_def fit_cbval_index_6 cbvals_def Let_def)
  apply code_simp
  done

lemma fit_cbval_7: "fit_cbval 7 = dbl (74 / 10)"
  apply (simp add: fit_cbval_def fit_cbval_index_beyond cbvals_def Let_def)
  apply code_simp
  done

lemma fit_cbval_11_2: "fit_cbval (11 / 2) = dbl (44 / 10)"
  apply (simp add: fit_cbval_def fit_cbval_index_11_2 cbvals_def Let_def)
  apply code_simp
  done

lemma fit_cbval_10: "fit_cbval 10 = dbl (143 / 10) + 1 / 2 ^ 49"
  apply (simp add: fit_cbval_def fit_cbval_index_beyond cbvals_def Let_def)
  apply code_simp
  done

lemma fit_cbval_beyond:
  "6 < sz \<Longrightarrow>
   fit_cbval sz = fadd (fdiv (fmul (fsub (dbl (74 / 10)) (dbl (51 / 10))) (fsub sz 6)) (fsub 7 6))
                    (dbl (51 / 10))"
  by (simp add: fit_cbval_def fit_cbval_index_beyond cbvals_def Let_def)

subsection \<open>The score table of a walk\<close>

text \<open>
  Claim C3, as stated, gives \<open>cb = 2.0\<close> to the walks with an odd \<open>walks\<close> counter. The
  code tests \<open>GET (walks) & 1\<close> and takes \<open>fit_cbval\<close> when the bit is set: on the first
  walk (counter 1) with average clause size 3 the multiplier is 2.5 and the second entry
  of the table is the double 0.4, not 0.5.
\<close>

theorem score_cb_counterexample:
  "odd (walks (stats solver_ex)) \<and> score_cb solver_ex walker_c3 \<noteq> 2
   \<and> (\<exists>w'. init_score_table env_ex solver_ex walker_c3 = Some w'
          \<and> table w' ! 1 = dbl (2 / 5) \<and> table w' ! 1 \<noteq> 1 / 2)"
proof -
  have o: "odd (walks (stats solver_ex))" by (simp add: solver_ex_def)
  have cb: "score_cb solver_ex walker_c3 = 5 / 2"
    using o by (simp add: score_cb_def walker_c3_def fit_cbval_3)
  have b: "fdiv 1 (5 / 2) = dbl (2 / 5)" by (simp add: fdiv_def)
  have v: "dbl (2 / 5) = 3602879701896397 / 9007199254740992" by code_simp
  have nz: "score_power (dbl (2 / 5)) 1 = dbl (2 / 5)"
    using dbl_idem[of "2 / 5"] by (simp add: fmul_def)
  have "2 \<le> score_cb solver_ex walker_c3" by (simp add: cb)
  from init_score_table_result[OF this, of env_ex]
  obtain E where E: "1 \<le> E" "score_power (dbl (2 / 5)) E = 0"
    "init_score_table env_ex solver_ex walker_c3 =
       Some (walker_c3\<lparr>table := map (score_power (dbl (2 / 5))) [0..<E], exponents := E,
               epsilon := score_power (dbl (2 / 5)) (E - 1)\<rparr>)"
    unfolding cb b by blast
  have "E \<noteq> 1" using E(2) nz v by auto
  with E(1) have "1 < E" by simp
  then have m: "map (score_power (dbl (2 / 5))) [0..<E] ! 1 = dbl (2 / 5)"
    using nz by simp
  let ?w' = "walker_c3\<lparr>table := map (score_power (dbl (2 / 5))) [0..<E], exponents := E,
               epsilon := score_power (dbl (2 / 5)) (E - 1)\<rparr>"
  have t1: "table ?w' ! 1 = dbl (2 / 5)" using m by simp
  have ne: "dbl (2 / 5) \<noteq> 1 / 2" unfolding v by simp
  have t2: "table ?w' ! 1 \<noteq> 1 / 2" using t1 ne by simp
  have cbne: "score_cb solver_ex walker_c3 \<noteq> 2" unfolding cb by simp
  show ?thesis by (intro conjI exI[of _ ?w'] o cbne E(3) t1 t2)
qed

text \<open>
  Claim C3, amended. The break multiplier is \<open>fit_cbval\<close> of the average clause size when
  the host's \<open>walks\<close> counter is odd and 2.0 when it is even. For a non-negative average
  size \<open>init_score_table\<close> returns, with a table of \<open>E\<close> entries, \<open>1 \<le> E \<le> 1075\<close>, whose
  \<open>i\<close>-th entry is the \<open>i\<close>-th power of \<open>base = 1 / cb\<close> in double arithmetic (1 multiplied
  \<open>i\<close> times by \<open>base\<close>, rounding each product), all positive; \<open>E\<close> is the first exponent
  whose power underflows to zero and \<open>epsilon\<close> is the last entry.
\<close>

theorem score_table_construction:
  "score_cb s w = (if odd (walks (stats s)) then fit_cbval (size_avg w) else 2)
   \<and> (0 \<le> size_avg w \<longrightarrow>
        (\<exists>E. 1 \<le> E \<and> E \<le> 1075
           \<and> init_score_table ev s w =
               Some (w\<lparr>table := map (score_power (fdiv 1 (score_cb s w))) [0..<E],
                       exponents := E,
                       epsilon := score_power (fdiv 1 (score_cb s w)) (E - 1)\<rparr>)
           \<and> score_power (fdiv 1 (score_cb s w)) E = 0
           \<and> (\<forall>k<E. 0 < score_power (fdiv 1 (score_cb s w)) k)))"
proof (intro conjI impI)
  show "score_cb s w = (if odd (walks (stats s)) then fit_cbval (size_avg w) else 2)"
    by (simp add: score_cb_def)
next
  assume "0 \<le> size_avg w"
  then have "2 \<le> score_cb s w" by (rule score_cb_ge_2)
  from init_score_table_result[OF this, of ev]
  show "\<exists>E. 1 \<le> E \<and> E \<le> 1075
           \<and> init_score_table ev s w =
               Some (w\<lparr>table := map (score_power (fdiv 1 (score_cb s w))) [0..<E],
                       exponents := E,
                       epsilon := score_power (fdiv 1 (score_cb s w)) (E - 1)\<rparr>)
           \<and> score_power (fdiv 1 (score_cb s w)) E = 0
           \<and> (\<forall>k<E. 0 < score_power (fdiv 1 (score_cb s w)) k)"
    by blast
qed

theorem score_table_construction_witness:
  "0 \<le> size_avg walker_ex
   \<and> (\<exists>E. 1 \<le> E \<and> E \<le> 1075
        \<and> init_score_table env_ex solver_ex walker_ex =
            Some (walker_ex\<lparr>table :=
                      map (score_power (fdiv 1 (score_cb solver_ex walker_ex))) [0..<E],
                    exponents := E,
                    epsilon := score_power (fdiv 1 (score_cb solver_ex walker_ex)) (E - 1)\<rparr>))"
proof -
  have h: "0 \<le> size_avg walker_ex" by (simp add: walker_ex_def)
  from score_table_construction[of solver_ex walker_ex env_ex] h show ?thesis by blast
qed

subsection \<open>Scores by break count\<close>

lemma scale_score_after_init:
  assumes "0 \<le> size_avg w"
  obtains w' E base where "init_score_table ev s w = Some w'" "1 \<le> E"
    "0 \<le> base" "base \<le> 1 / 2" "exponents w' = E" "epsilon w' = score_power base (E - 1)"
    "\<forall>k<E. 0 < score_power base k"
    "\<forall>b. scale_score w' b = score_power base (min b (E - 1))"
proof -
  have cb: "2 \<le> score_cb s w" using assms by (rule score_cb_ge_2)
  let ?base = "fdiv 1 (score_cb s w)"
  from init_score_table_result[OF cb, of ev]
  obtain E where E: "1 \<le> E" "\<forall>k<E. 0 < score_power ?base k"
    "init_score_table ev s w =
       Some (w\<lparr>table := map (score_power ?base) [0..<E], exponents := E,
               epsilon := score_power ?base (E - 1)\<rparr>)"
    by blast
  let ?w' = "w\<lparr>table := map (score_power ?base) [0..<E], exponents := E,
               epsilon := score_power ?base (E - 1)\<rparr>"
  have "\<forall>b. scale_score ?w' b = score_power ?base (min b (E - 1))"
    using scale_score_table[OF E(1)] by blast
  with E base_range[OF cb] show ?thesis using that[of ?w' E ?base] by simp
qed

text \<open>
  Claim C4, as stated, is an equivalence. Every break count from \<open>exponents - 1\<close> on has
  the score \<open>epsilon\<close>, so a larger break count can have an equal score: on the table of the
  example walker the counts \<open>exponents + 1\<close> and \<open>exponents\<close> score the same.
\<close>

theorem scale_score_counterexample:
  "\<not> (\<forall>b1 b2. scale_score (the (init_score_table env_ex solver_ex walker_ex)) b2
                  \<le> scale_score (the (init_score_table env_ex solver_ex walker_ex)) b1
                \<longleftrightarrow> b1 \<le> b2)"
proof -
  have h: "0 \<le> size_avg walker_ex" by (simp add: walker_ex_def)
  from scale_score_after_init[OF h, of env_ex solver_ex]
  obtain w' E base where w: "init_score_table env_ex solver_ex walker_ex = Some w'" "1 \<le> E"
    "\<forall>b. scale_score w' b = score_power base (min b (E - 1))"
    by metis
  have "scale_score w' E \<le> scale_score w' (E + 1)" using w(2,3) by simp
  moreover have "\<not> E + 1 \<le> E" by simp
  ultimately have "\<not> (\<forall>b1 b2. scale_score w' b2 \<le> scale_score w' b1 \<longleftrightarrow> b1 \<le> b2)"
    by blast
  then show ?thesis by (simp add: w(1))
qed

subsection \<open>The choice of pick_literal\<close>

lemma lit_score_frame [simp]:
  "lit_score (add_walk_steps s n) w = lit_score s w"
  "lit_score s (w\<lparr>scores := sc\<rparr>) = lit_score s w"
  "lit_score s (w\<lparr>flipped := f\<rparr>) = lit_score s w"
  "lit_score (inc_flipped s) w = lit_score s w"
  by (auto simp: lit_score_def break_value_def scale_score_def add_walk_steps_def Let_def
      inc_flipped_def)

lemma break_value_fst: "fst (break_value s w l) = add_walk_steps s (u32 (1 + length (watches s ! NOT_lit l)))"
  by (simp add: break_value_def Let_def)

lemma vals_add_walk_steps [simp]: "vals (add_walk_steps s n) = vals s"
  by (simp add: add_walk_steps_def)

lemma pick_scores_loop_result:
  "pick_scores_loop ls s w pl sm = (s', w', pl', sm') \<Longrightarrow>
     scores w' = scores w @ map (lit_score s w) (filter (\<lambda>l. vals s ! l \<noteq> 0) ls)
     \<and> pl' = (if filter (\<lambda>l. vals s ! l \<noteq> 0) ls = [] then pl
              else last (filter (\<lambda>l. vals s ! l \<noteq> 0) ls))
     \<and> sm' = foldl fadd sm (map (lit_score s w) (filter (\<lambda>l. vals s ! l \<noteq> 0) ls))
     \<and> random w' = random w"
proof (induction ls arbitrary: s w pl sm)
  case Nil
  then show ?case by simp
next
  case (Cons l ls)
  show ?case
  proof (cases "vals s ! l = 0")
    case True
    with Cons.prems have "pick_scores_loop ls s w pl sm = (s', w', pl', sm')" by simp
    from Cons.IH[OF this] True show ?thesis by simp
  next
    case False
    let ?s1 = "fst (break_value s w l)"
    let ?w1 = "w\<lparr>scores := scores w @ [lit_score s w l]\<rparr>"
    have "pick_scores_loop ls ?s1 ?w1 l (fadd sm (lit_score s w l)) = (s', w', pl', sm')"
      using Cons.prems False by (simp add: lit_score_def Let_def split: prod.splits)
    from Cons.IH[OF this] False show ?thesis
      by (simp add: break_value_fst)
  qed
qed

lemma pick_threshold_loop_result:
  "k + length (filter (\<lambda>l. vs ! l \<noteq> 0) ls) \<le> length scs \<Longrightarrow>
   pick_threshold_loop ls vs scs k th sm pl =
     (case find (\<lambda>(l, r). th < r)
             (zip (filter (\<lambda>l. vs ! l \<noteq> 0) ls) (running_sums sm (drop k scs))) of
        Some (l, r) \<Rightarrow> l
      | None \<Rightarrow> pl)"
proof (induction ls arbitrary: k sm)
  case Nil
  then show ?case by simp
next
  case (Cons l ls)
  show ?case
  proof (cases "vs ! l = 0")
    case True
    with Cons show ?thesis by simp
  next
    case False
    then have k: "k < length scs" using Cons.prems by simp
    then have d: "drop k scs = scs ! k # drop (Suc k) scs" by (simp add: Cons_nth_drop_Suc)
    have "Suc k + length (filter (\<lambda>l. vs ! l \<noteq> 0) ls) \<le> length scs"
      using Cons.prems False by simp
    from Cons.IH[OF this] False show ?thesis by (simp add: d Let_def)
  qed
qed

lemma running_sums_length [simp]: "length (running_sums sm xs) = length xs"
  by (induction xs arbitrary: sm) simp_all

lemma pick_choice_member:
  "ls \<noteq> [] \<Longrightarrow> pick_choice th ls scs \<in> set ls"
proof -
  assume ne: "ls \<noteq> []"
  show ?thesis
  proof (cases "find (\<lambda>(l, r). th < r) (zip ls (running_sums 0 scs))")
    case None
    then show ?thesis using ne by (simp add: pick_choice_def)
  next
    case (Some p)
    then have "p \<in> set (zip ls (running_sums 0 scs))"
      by (metis find_Some_iff nth_mem)
    then have "fst p \<in> set ls" by (metis set_zip_leftD prod.collapse)
    with Some show ?thesis by (cases p) (simp add: pick_choice_def)
  qed
qed

lemma dereference_literals_flipped [simp]:
  "dereference_literals s (w\<lparr>flipped := f\<rparr>) r = dereference_literals s w r"
  by (simp add: dereference_literals_def Let_def)

lemma pick_literal_result:
  assumes "scores w = []"
  shows "snd (snd (pick_literal ev s w)) =
    (if candidates s w = [] then INVALID_LIT
     else pick_choice
       (fmul (foldl fadd 0 (map (lit_score s w) (candidates s w)))
          (fst (pick_double ev (random w))))
       (candidates s w) (map (lit_score s w) (candidates s w)))"
proof -
  let ?w1 = "w\<lparr>flipped := u64 (flipped w + 1)\<rparr>"
  let ?ls = "dereference_literals s ?w1 (unsat ?w1 ! pick_pos w)"
  have ls: "dereference_literals s w (unsat w ! pick_pos w) = picked_clause s w"
    by (simp add: picked_clause_def)
  let ?nz = "filter (\<lambda>l. vals s ! l \<noteq> 0) (picked_clause s w)"
  obtain s1 w2 ll sm where ps: "pick_scores_loop ?ls s ?w1 INVALID_LIT 0 = (s1, w2, ll, sm)"
    by (cases "pick_scores_loop ?ls s ?w1 INVALID_LIT 0") auto
  from pick_scores_loop_result[OF ps] assms
  have r: "scores w2 = map (lit_score s w) ?nz"
    "ll = (if ?nz = [] then INVALID_LIT else last ?nz)"
    "sm = foldl fadd 0 (map (lit_score s w) ?nz)"
    "random w2 = random w"
    by (simp_all add: ls)
  have v: "vals s1 = vals s"
    using pick_scores_loop_frame[OF ps] by simp
  obtain r g where pd: "pick_double ev (random w) = (r, g)" by (metis surj_pair)
  have len: "0 + length (filter (\<lambda>l. vals s ! l \<noteq> 0) ?ls) \<le> length (scores w2)"
    by (simp add: r ls)
  have "snd (snd (pick_literal ev s w)) =
      pick_threshold_loop ?ls (vals s1) (scores w2) 0 (fmul sm r) 0 ll"
    using ps pd v r(4) by (simp add: pick_literal_def Let_def)
  also have "\<dots> = (case find (\<lambda>(l, q). fmul sm r < q)
             (zip ?nz (running_sums 0 (map (lit_score s w) ?nz))) of
        Some (l, q) \<Rightarrow> l | None \<Rightarrow> ll)"
    using pick_threshold_loop_result[OF len, of "fmul sm r" 0 ll] by (simp add: v ls r)
  finally show ?thesis
    using r pd by (auto simp: candidates_def pick_choice_def)
qed

lemma pick_choice_fallback:
  "(\<forall>r \<in> set (running_sums 0 scs). \<not> th < r) \<Longrightarrow> pick_choice th ls scs = last ls"
proof -
  assume a: "\<forall>r \<in> set (running_sums 0 scs). \<not> th < r"
  have "find (\<lambda>(l, r). th < r) (zip ls (running_sums 0 scs)) = None"
    using a by (auto simp: find_None_iff dest: set_zip_rightD)
  then show ?thesis by (simp add: pick_choice_def)
qed

text \<open>
  Claim C5. \<open>pick_literal\<close> is called with a non-empty unsat stack of \<open>current\<close> entries
  and an empty score buffer, on a clause with at least one non-zero-valued literal (the
  source asserts each of these). The scores of the clause's non-zero-valued literals are
  summed in clause order, the threshold is the sum times the random draw, and the literal
  returned is \<open>pick_choice\<close>: the first of these literals at which the running sum strictly
  exceeds the threshold, and the last of them when no running sum does. For every draw it
  is a non-zero-valued literal of the picked clause, so its value is negative when the
  clause has no true literal, as a clause of the unsat stack has.
\<close>

theorem pick_literal_choice:
  "unsat w \<noteq> [] \<and> current w = length (unsat w) \<and> scores w = [] \<and> candidates s w \<noteq> [] \<longrightarrow>
     snd (snd (pick_literal ev s w)) =
       pick_choice
         (fmul (foldl fadd 0 (map (lit_score s w) (candidates s w)))
            (fst (pick_double ev (random w))))
         (candidates s w) (map (lit_score s w) (candidates s w))
     \<and> ((\<forall>r \<in> set (running_sums 0 (map (lit_score s w) (candidates s w))).
            \<not> fmul (foldl fadd 0 (map (lit_score s w) (candidates s w)))
                 (fst (pick_double ev (random w))) < r) \<longrightarrow>
          snd (snd (pick_literal ev s w)) = last (candidates s w))
     \<and> snd (snd (pick_literal ev s w)) \<in> set (picked_clause s w)
     \<and> vals s ! snd (snd (pick_literal ev s w)) \<noteq> 0
     \<and> ((\<forall>l \<in> set (picked_clause s w). vals s ! l \<le> 0) \<longrightarrow>
          vals s ! snd (snd (pick_literal ev s w)) < 0)"
proof
  assume a: "unsat w \<noteq> [] \<and> current w = length (unsat w) \<and> scores w = []
    \<and> candidates s w \<noteq> []"
  let ?th = "fmul (foldl fadd 0 (map (lit_score s w) (candidates s w)))
            (fst (pick_double ev (random w)))"
  let ?l = "snd (snd (pick_literal ev s w))"
  have 1: "?l = pick_choice ?th (candidates s w) (map (lit_score s w) (candidates s w))"
    using pick_literal_result[of w ev s] a by simp
  have m: "?l \<in> set (candidates s w)"
    unfolding 1 using a by (intro pick_choice_member) simp
  then have 3: "?l \<in> set (picked_clause s w)" and 4: "vals s ! ?l \<noteq> 0"
    by (simp_all add: candidates_def)
  have 2: "(\<forall>r \<in> set (running_sums 0 (map (lit_score s w) (candidates s w))). \<not> ?th < r) \<longrightarrow>
          ?l = last (candidates s w)"
    unfolding 1 by (intro impI pick_choice_fallback)
  have 5: "(\<forall>l \<in> set (picked_clause s w). vals s ! l \<le> 0) \<longrightarrow> vals s ! ?l < 0"
    using 3 4 by fastforce
  from 1 2 3 4 5
  show "?l = pick_choice ?th (candidates s w) (map (lit_score s w) (candidates s w))
     \<and> ((\<forall>r \<in> set (running_sums 0 (map (lit_score s w) (candidates s w))). \<not> ?th < r) \<longrightarrow>
          ?l = last (candidates s w))
     \<and> ?l \<in> set (picked_clause s w)
     \<and> vals s ! ?l \<noteq> 0
     \<and> ((\<forall>l \<in> set (picked_clause s w). vals s ! l \<le> 0) \<longrightarrow> vals s ! ?l < 0)"
    by blast
qed

lemma picked_clause_ex: "picked_clause solver_ex walker_ex = [0, 2]"
  by (simp add: picked_clause_def dereference_literals_def pick_pos_def walker_ex_def
      solver_ex_def Let_def)

lemma candidates_ex: "candidates solver_ex walker_ex = [0, 2]"
  by (simp add: candidates_def picked_clause_ex) (simp add: solver_ex_def)

lemma lit_score_ex: "map (lit_score solver_ex walker_ex) [0, 2] = [1, 1]"
  by (simp add: lit_score_def break_value_def scale_score_def NOT_lit_def Let_def u32_def
      walker_ex_def solver_ex_def)

theorem pick_literal_choice_witness:
  "unsat walker_ex \<noteq> [] \<and> current walker_ex = length (unsat walker_ex)
   \<and> scores walker_ex = [] \<and> candidates solver_ex walker_ex \<noteq> []
   \<and> snd (snd (pick_literal env_ex solver_ex walker_ex)) = 2
   \<and> vals solver_ex ! snd (snd (pick_literal env_ex solver_ex walker_ex)) < 0"
proof -
  have h: "unsat walker_ex \<noteq> [] \<and> current walker_ex = length (unsat walker_ex)
   \<and> scores walker_ex = [] \<and> candidates solver_ex walker_ex \<noteq> []"
    by (simp add: candidates_ex) (simp add: walker_ex_def)
  have n: "\<forall>l \<in> set (picked_clause solver_ex walker_ex). vals solver_ex ! l \<le> 0"
    by (simp add: picked_clause_ex) (simp add: solver_ex_def)
  have r: "fst (pick_double env_ex (random walker_ex)) = 1 / 2" by (simp add: env_ex_def)
  have c: "pick_choice (fmul (foldl fadd 0 [1, 1]) (1 / 2)) [0, 2] [1, 1] = 2"
    by (simp add: pick_choice_def fadd_def fmul_def dbl_one dbl_two)
  from pick_literal_choice[of walker_ex solver_ex env_ex] h n
  have "snd (snd (pick_literal env_ex solver_ex walker_ex)) =
       pick_choice
         (fmul (foldl fadd 0 (map (lit_score solver_ex walker_ex) (candidates solver_ex walker_ex)))
            (fst (pick_double env_ex (random walker_ex))))
         (candidates solver_ex walker_ex)
         (map (lit_score solver_ex walker_ex) (candidates solver_ex walker_ex))"
    "vals solver_ex ! snd (snd (pick_literal env_ex solver_ex walker_ex)) < 0"
    by blast+
  moreover have "pick_choice
         (fmul (foldl fadd 0 (map (lit_score solver_ex walker_ex) (candidates solver_ex walker_ex)))
            (fst (pick_double env_ex (random walker_ex))))
         (candidates solver_ex walker_ex)
         (map (lit_score solver_ex walker_ex) (candidates solver_ex walker_ex)) = 2"
    unfolding candidates_ex lit_score_ex r by (rule c)
  ultimately have "snd (snd (pick_literal env_ex solver_ex walker_ex)) = 2"
    "vals solver_ex ! snd (snd (pick_literal env_ex solver_ex walker_ex)) < 0"
    by simp_all
  with h show ?thesis by blast
qed

subsection \<open>The unsat stack and the counters\<close>

lemma u32_small: "n < U32 \<Longrightarrow> u32 n = n"
  by (simp add: u32_def U32_def)

lemma u32_decrement:
  assumes "0 < n" "n < U32"
  shows "u32 (n + UINT_MAX) = n - 1"
proof -
  obtain k where k: "n = Suc k" using assms(1) by (cases n) auto
  have "Suc k + (2 ^ 32 - 1) = k + (2 :: nat) ^ 32" by simp
  then have "(n + UINT_MAX) mod 2 ^ 32 = (k + 2 ^ 32) mod 2 ^ 32"
    unfolding k UINT_MAX_def by (rule arg_cong)
  also have "\<dots> = k mod 2 ^ 32" by (rule mod_add_self2)
  also have "\<dots> = k" using assms(2) unfolding k U32_def by (intro mod_less) simp
  finally show ?thesis by (simp add: u32_def k)
qed

lemma index_inv_length:
  assumes "index_inv n w"
  shows "length (unsat w) \<le> n"
proof -
  have "set (unsat w) \<subseteq> {..<n}" using assms by (auto simp: index_inv_def)
  then have "card (set (unsat w)) \<le> card {..<n}" by (intro card_mono) simp_all
  moreover have "card (set (unsat w)) = length (unsat w)"
    using assms by (simp add: index_inv_def distinct_card)
  ultimately show ?thesis by simp
qed

lemma index_inv_pos:
  assumes "index_inv n w" "r \<in> set (unsat w)"
  shows "pos (counters w ! r) < length (unsat w)" "unsat w ! pos (counters w ! r) = r"
proof -
  from assms(2) obtain i where i: "i < length (unsat w)" "unsat w ! i = r"
    by (auto simp: in_set_conv_nth)
  with assms(1) have "pos (counters w ! r) = i" by (auto simp: index_inv_def)
  with i show "pos (counters w ! r) < length (unsat w)" "unsat w ! pos (counters w ! r) = r"
    by simp_all
qed

lemma pop_list_swap:
  assumes d: "distinct us" and p: "p < length us" and r: "us ! p = r" and ne: "r \<noteq> last us"
  shows "p < length (butlast us)"
    and "distinct ((butlast us)[p := last us])"
    and "set ((butlast us)[p := last us]) = set us - {r}"
    and "\<forall>i<length (butlast us). (butlast us)[p := last us] ! i = (if i = p then last us else us ! i)"
    and "\<forall>i<length (butlast us). i \<noteq> p \<longrightarrow> us ! i \<noteq> last us \<and> us ! i \<noteq> r"
proof -
  have nn: "us \<noteq> []" using p by auto
  then have us: "us = butlast us @ [last us]" by simp
  have lastnth: "last us = us ! (length us - 1)" using nn by (simp add: last_conv_nth)
  have pl: "p \<noteq> length us - 1" using r ne lastnth by auto
  then show p': "p < length (butlast us)" using p by simp
  have dl: "distinct (butlast us)" "last us \<notin> set (butlast us)"
    using d us by (metis distinct_append distinct_butlast, metis d us distinct_append
        disjoint_iff list.set_intros(1))
  have nb: "\<forall>i<length (butlast us). butlast us ! i = us ! i" by (simp add: nth_butlast)
  show "distinct ((butlast us)[p := last us])"
    using dl p' by (simp add: distinct_list_update)
  have "set ((butlast us)[p := last us]) = insert (last us) (set (butlast us) - {butlast us ! p})"
    using dl(1) p' by (simp add: set_update_distinct)
  moreover have "butlast us ! p = r" using p' r nb by simp
  moreover have "set us = insert (last us) (set (butlast us))"
    using us by (metis insert_is_Un list.simps(15) set_append sup_commute empty_set list.set(2) Un_commute)
  ultimately show "set ((butlast us)[p := last us]) = set us - {r}"
    using dl(2) ne by auto
  show "\<forall>i<length (butlast us). (butlast us)[p := last us] ! i = (if i = p then last us else us ! i)"
    using nb by (simp add: nth_list_update)
  show "\<forall>i<length (butlast us). i \<noteq> p \<longrightarrow> us ! i \<noteq> last us \<and> us ! i \<noteq> r"
  proof (intro allI impI)
    fix i assume i: "i < length (butlast us)" "i \<noteq> p"
    then have il: "i < length us" "i \<noteq> length us - 1" by simp_all
    have "us ! i \<noteq> us ! (length us - 1)"
      using d il nn by (simp add: nth_eq_iff_index_eq)
    moreover have "us ! i \<noteq> us ! p" using d il(1) p i(2) by (simp add: nth_eq_iff_index_eq)
    ultimately show "us ! i \<noteq> last us \<and> us ! i \<noteq> r" using lastnth r by simp
  qed
qed

lemma pop_list_last:
  assumes d: "distinct us" and p: "p < length us" and r: "us ! p = r" and e: "r = last us"
  shows "p = length us - 1" and "distinct (butlast us)" and "set (butlast us) = set us - {r}"
    and "\<forall>i<length (butlast us). butlast us ! i = us ! i \<and> us ! i \<noteq> r"
proof -
  have nn: "us \<noteq> []" using p by auto
  then have us: "us = butlast us @ [last us]" by simp
  have lastnth: "last us = us ! (length us - 1)" using nn by (simp add: last_conv_nth)
  show pl: "p = length us - 1"
    using d p r e lastnth nn by (simp add: nth_eq_iff_index_eq)
  show "distinct (butlast us)" using d by (rule distinct_butlast)
  have nl: "last us \<notin> set (butlast us)"
    using d us by (metis distinct_append disjoint_iff list.set_intros(1))
  have "set us = insert (last us) (set (butlast us))"
    using us by (metis Un_commute insert_is_Un list.simps(15) set_append empty_set)
  then show "set (butlast us) = set us - {r}" using nl e by auto
  show "\<forall>i<length (butlast us). butlast us ! i = us ! i \<and> us ! i \<noteq> r"
  proof (intro allI impI)
    fix i assume i: "i < length (butlast us)"
    then have "butlast us ! i \<in> set (butlast us)" by simp
    with nl e have "butlast us ! i \<noteq> r" by auto
    then show "butlast us ! i = us ! i \<and> us ! i \<noteq> r" using i by (simp add: nth_butlast)
  qed
qed

lemma index_invI:
  assumes "n \<le> length (counters w)" "n < U32" "distinct (unsat w)"
    "\<And>r. r \<in> set (unsat w) \<Longrightarrow> r < n"
    "\<And>r. r < n \<Longrightarrow> cnt w r < U32"
    "\<And>r. r < n \<Longrightarrow> cnt w r = 0 \<longleftrightarrow> r \<in> set (unsat w)"
    "\<And>i. i < length (unsat w) \<Longrightarrow> pos (counters w ! (unsat w ! i)) = i"
  shows "index_inv n w"
  using assms unfolding index_inv_def by blast

lemma index_invD:
  assumes "index_inv n w"
  shows "n \<le> length (counters w)" "n < U32" "distinct (unsat w)"
    "\<And>r. r \<in> set (unsat w) \<Longrightarrow> r < n"
    "\<And>r. r < n \<Longrightarrow> cnt w r < U32"
    "\<And>r. r < n \<Longrightarrow> cnt w r = 0 \<longleftrightarrow> r \<in> set (unsat w)"
    "\<And>i. i < length (unsat w) \<Longrightarrow> pos (counters w ! (unsat w ! i)) = i"
  using assms unfolding index_inv_def by blast+

lemma make_step:
  assumes inv: "index_inv n w" and r: "r < n" and b: "cnt w r + 1 < U32"
    and m: "make_clauses_loop [r] w st = (w', st')"
  shows "index_inv n w'"
    and "\<forall>x<n. cnt w' x = (if x = r then cnt w r + 1 else cnt w x)"
    and "length (counters w') = length (counters w)"
proof -
  note I = index_invD[OF inv]
  define c where "c = counters w ! r"
  define cs1 where "cs1 = (counters w)[r := c\<lparr>count := count c + 1\<rparr>]"
  have rl: "r < length (counters w)" using r I(1) by simp
  have u: "u32 (count c + 1) = count c + 1" using b by (simp add: u32_small cnt_def c_def)
  have cs1: "\<And>x. x < length (counters w) \<Longrightarrow>
      cs1 ! x = (if x = r then c\<lparr>count := count c + 1\<rparr> else counters w ! x)"
    by (simp add: cs1_def nth_list_update)
  have "index_inv n w' \<and> (\<forall>x<n. cnt w' x = (if x = r then cnt w r + 1 else cnt w x))
        \<and> length (counters w') = length (counters w)"
  proof (cases "count c = 0")
    case False
    then have w': "w' = w\<lparr>counters := cs1\<rparr>"
      using m u by (simp add: Let_def c_def cs1_def)
    have nin: "r \<notin> set (unsat w)" using False I(6)[OF r] by (simp add: cnt_def c_def)
    have cn: "\<forall>x<n. cnt w' x = (if x = r then cnt w r + 1 else cnt w x)"
      using I(1) cs1 by (auto simp: w' cnt_def c_def)
    have ps: "\<And>x. x < length (counters w) \<Longrightarrow> pos (cs1 ! x) = pos (counters w ! x)"
      using cs1 by (simp add: c_def)
    have "index_inv n w'"
    proof (rule index_invI)
      show "n \<le> length (counters w')" using I(1) by (simp add: w' cs1_def)
      show "n < U32" by (rule I(2))
      show "distinct (unsat w')" using I(3) by (simp add: w')
      show "\<And>x. x \<in> set (unsat w') \<Longrightarrow> x < n" using I(4) by (simp add: w')
      show "\<And>x. x < n \<Longrightarrow> cnt w' x < U32" using cn I(5) b by auto
      show "\<And>x. x < n \<Longrightarrow> cnt w' x = 0 \<longleftrightarrow> x \<in> set (unsat w')"
        using cn I(6) nin by (auto simp: w')
      show "\<And>i. i < length (unsat w') \<Longrightarrow> pos (counters w' ! (unsat w' ! i)) = i"
      proof -
        fix i assume "i < length (unsat w')"
        then have i: "i < length (unsat w)" by (simp add: w')
        then have "unsat w ! i < length (counters w)" using I(4)[of "unsat w ! i"] I(1) by simp
        from ps[OF this] I(7)[OF i] show "pos (counters w' ! (unsat w' ! i)) = i"
          by (simp add: w')
      qed
    qed
    with cn show ?thesis by (simp add: w' cs1_def)
  next
    case True
    then have rin: "r \<in> set (unsat w)" using I(6)[OF r] by (simp add: cnt_def c_def)
    define p where "p = pos c"
    have p: "p < length (unsat w)" "unsat w ! p = r"
      using index_inv_pos[OF inv rin] by (simp_all add: p_def c_def)
    define other where "other = last (unsat w)"
    have "unsat w \<noteq> []" using p(1) by auto
    then have oin: "other \<in> set (unsat w)" by (simp add: other_def)
    then have on: "other < n" by (rule I(4))
    then have ol: "other < length (counters w)" using I(1) by simp
    show ?thesis
    proof (cases "r = other")
      case False
      note L = pop_list_swap[OF I(3) p(1) p(2) False[unfolded other_def]]
      define cs2 where "cs2 = cs1[other := (cs1 ! other)\<lparr>pos := p\<rparr>]"
      have w': "w' = w\<lparr>current := u32 (current w + UINT_MAX), counters := cs2,
                      unsat := (butlast (unsat w))[p := other]\<rparr>"
        using m u True False
        by (auto simp: Let_def pop_unsat_def c_def cs1_def cs2_def p_def other_def)
      have cw: "counters w' = cs2" by (simp add: w')
      have len: "length cs2 = length (counters w)" by (simp add: cs2_def cs1_def)
      have cs2: "\<And>x. x < length (counters w) \<Longrightarrow>
          cs2 ! x = (if x = other then (counters w ! other)\<lparr>pos := p\<rparr>
                     else if x = r then c\<lparr>count := count c + 1\<rparr> else counters w ! x)"
        using False cs1 ol by (simp add: cs2_def cs1_def nth_list_update)
      have cn: "\<forall>x<n. cnt w' x = (if x = r then cnt w r + 1 else cnt w x)"
        using I(1) cs2 False by (auto simp: w' cnt_def c_def)
      have "index_inv n w'"
      proof (rule index_invI)
        show "n \<le> length (counters w')" using I(1) len by (simp add: w')
        show "n < U32" by (rule I(2))
        show "distinct (unsat w')" using L(2) by (simp add: w' other_def)
        show "\<And>x. x \<in> set (unsat w') \<Longrightarrow> x < n" using L(3) I(4) by (simp add: w' other_def)
        show "\<And>x. x < n \<Longrightarrow> cnt w' x < U32" using cn I(5) b by auto
        show "\<And>x. x < n \<Longrightarrow> cnt w' x = 0 \<longleftrightarrow> x \<in> set (unsat w')"
          using cn I(6) L(3) by (auto simp: w' other_def)
        show "\<And>i. i < length (unsat w') \<Longrightarrow> pos (counters w' ! (unsat w' ! i)) = i"
        proof -
          fix i assume "i < length (unsat w')"
          then have i: "i < length (butlast (unsat w))" by (simp add: w')
          then have iu: "i < length (unsat w)" by simp
          show "pos (counters w' ! (unsat w' ! i)) = i"
          proof (cases "i = p")
            case True
            then have "unsat w' ! i = other" using L(4) i by (simp add: w' other_def nth_butlast)
            then show ?thesis using cs2[OF ol] True by (simp add: cw)
          next
            case F: False
            then have e: "unsat w' ! i = unsat w ! i"
              using L(4) i by (simp add: w' other_def nth_butlast)
            have ne: "unsat w ! i \<noteq> other" "unsat w ! i \<noteq> r"
              using L(5) i F by (simp_all add: other_def)
            have "unsat w ! i < length (counters w)"
              using I(4)[of "unsat w ! i"] I(1) iu by simp
            from cs2[OF this] ne I(7)[OF iu] show ?thesis by (simp add: cw e)
          qed
        qed
      qed
      with cn len show ?thesis by (simp add: w')
    next
      case T: True
      note L = pop_list_last[OF I(3) p(1) p(2) T[unfolded other_def]]
      have w': "w' = w\<lparr>current := u32 (current w + UINT_MAX), counters := cs1,
                      unsat := butlast (unsat w)\<rparr>"
        using m u True T
        by (auto simp: Let_def pop_unsat_def c_def cs1_def p_def other_def)
      have cn: "\<forall>x<n. cnt w' x = (if x = r then cnt w r + 1 else cnt w x)"
        using I(1) cs1 by (auto simp: w' cnt_def c_def)
      have "index_inv n w'"
      proof (rule index_invI)
        show "n \<le> length (counters w')" using I(1) by (simp add: w' cs1_def)
        show "n < U32" by (rule I(2))
        show "distinct (unsat w')" using L(2) by (simp add: w')
        show "\<And>x. x \<in> set (unsat w') \<Longrightarrow> x < n" using L(3) I(4) by (simp add: w')
        show "\<And>x. x < n \<Longrightarrow> cnt w' x < U32" using cn I(5) b by auto
        show "\<And>x. x < n \<Longrightarrow> cnt w' x = 0 \<longleftrightarrow> x \<in> set (unsat w')"
          using cn I(6) L(3) by (auto simp: w')
        show "\<And>i. i < length (unsat w') \<Longrightarrow> pos (counters w' ! (unsat w' ! i)) = i"
        proof -
          fix i assume "i < length (unsat w')"
          then have i: "i < length (butlast (unsat w))" by (simp add: w')
          then have iu: "i < length (unsat w)" by simp
          have e: "unsat w' ! i = unsat w ! i" "unsat w ! i \<noteq> r"
            using L(4) i by (simp_all add: w' nth_butlast)
          have "unsat w ! i < length (counters w)"
            using I(4)[of "unsat w ! i"] I(1) iu by simp
          have "counters w' = cs1" by (simp add: w')
          with cs1[OF \<open>unsat w ! i < length (counters w)\<close>] e I(7)[OF iu]
          show "pos (counters w' ! (unsat w' ! i)) = i"
            by (simp add: c_def)
        qed
      qed
      with cn show ?thesis by (simp add: w' cs1_def)
    qed
  qed
  then show "index_inv n w'"
    and "\<forall>x<n. cnt w' x = (if x = r then cnt w r + 1 else cnt w x)"
    and "length (counters w') = length (counters w)"
    by simp_all
qed

lemma break_step:
  assumes inv: "index_inv n w" and r: "r < n" and b: "0 < cnt w r"
    and m: "break_clauses_loop [r] w st = (w', st')"
  shows "index_inv n w'"
    and "\<forall>x<n. cnt w' x = (if x = r then cnt w r - 1 else cnt w x)"
    and "length (counters w') = length (counters w)"
proof -
  note I = index_invD[OF inv]
  define c where "c = counters w ! r"
  define cs1 where "cs1 = (counters w)[r := c\<lparr>count := count c - 1\<rparr>]"
  have rl: "r < length (counters w)" using r I(1) by simp
  have c32: "count c < U32" using I(5)[OF r] by (simp add: cnt_def c_def)
  have cpos: "0 < count c" using b by (simp add: cnt_def c_def)
  have u: "u32 (count c + UINT_MAX) = count c - 1" using cpos c32 by (rule u32_decrement)
  have nin: "r \<notin> set (unsat w)" using cpos I(6)[OF r] by (simp add: cnt_def c_def)
  have cs1: "\<And>x. x < length (counters w) \<Longrightarrow>
      cs1 ! x = (if x = r then c\<lparr>count := count c - 1\<rparr> else counters w ! x)"
    by (simp add: cs1_def nth_list_update)
  have "index_inv n w' \<and> (\<forall>x<n. cnt w' x = (if x = r then cnt w r - 1 else cnt w x))
        \<and> length (counters w') = length (counters w)"
  proof (cases "count c - 1 = 0")
    case False
    then have w': "w' = w\<lparr>counters := cs1\<rparr>"
      using m u by (auto simp: Let_def c_def cs1_def)
    have cn: "\<forall>x<n. cnt w' x = (if x = r then cnt w r - 1 else cnt w x)"
      using I(1) cs1 by (auto simp: w' cnt_def c_def)
    have "index_inv n w'"
    proof (rule index_invI)
      show "n \<le> length (counters w')" using I(1) by (simp add: w' cs1_def)
      show "n < U32" by (rule I(2))
      show "distinct (unsat w')" using I(3) by (simp add: w')
      show "\<And>x. x \<in> set (unsat w') \<Longrightarrow> x < n" using I(4) by (simp add: w')
      show "\<And>x. x < n \<Longrightarrow> cnt w' x < U32" using cn I(5) by (auto intro: less_imp_diff_less)
      show "\<And>x. x < n \<Longrightarrow> cnt w' x = 0 \<longleftrightarrow> x \<in> set (unsat w')"
        using cn I(6) nin False by (auto simp: w' cnt_def c_def)
      show "\<And>i. i < length (unsat w') \<Longrightarrow> pos (counters w' ! (unsat w' ! i)) = i"
      proof -
        fix i assume "i < length (unsat w')"
        then have i: "i < length (unsat w)" by (simp add: w')
        then have "unsat w ! i < length (counters w)" using I(4)[of "unsat w ! i"] I(1) by simp
        from cs1[OF this] I(7)[OF i] show "pos (counters w' ! (unsat w' ! i)) = i"
          by (auto simp: w' c_def)
      qed
    qed
    with cn show ?thesis by (simp add: w' cs1_def)
  next
    case True
    have lu: "length (unsat w) < U32" using index_inv_length[OF inv] I(2) by simp
    define cs2 where "cs2 = cs1[r := (cs1 ! r)\<lparr>pos := length (unsat w)\<rparr>]"
    have w': "w' = w\<lparr>counters := cs2, unsat := unsat w @ [r]\<rparr>"
      using m u True lu
      by (auto simp: Let_def push_unsat_def c_def cs1_def cs2_def u32_small)
    have cw: "counters w' = cs2" and uw: "unsat w' = unsat w @ [r]" by (simp_all add: w')
    have len: "length cs2 = length (counters w)" by (simp add: cs2_def cs1_def)
    have cs2: "\<And>x. x < length (counters w) \<Longrightarrow>
        cs2 ! x = (if x = r then c\<lparr>count := count c - 1, pos := length (unsat w)\<rparr>
                   else counters w ! x)"
      using rl by (simp add: cs2_def cs1_def nth_list_update)
    have cn: "\<forall>x<n. cnt w' x = (if x = r then cnt w r - 1 else cnt w x)"
      using I(1) cs2 by (auto simp: cw cnt_def c_def)
    have "index_inv n w'"
    proof (rule index_invI)
      show "n \<le> length (counters w')" using I(1) len by (simp add: cw)
      show "n < U32" by (rule I(2))
      show "distinct (unsat w')" using I(3) nin by (simp add: uw)
      show "\<And>x. x \<in> set (unsat w') \<Longrightarrow> x < n" using I(4) r by (auto simp: uw)
      show "\<And>x. x < n \<Longrightarrow> cnt w' x < U32" using cn I(5) by (auto intro: less_imp_diff_less)
      show "\<And>x. x < n \<Longrightarrow> cnt w' x = 0 \<longleftrightarrow> x \<in> set (unsat w')"
        using cn I(6) True by (auto simp: uw cnt_def c_def)
      show "\<And>i. i < length (unsat w') \<Longrightarrow> pos (counters w' ! (unsat w' ! i)) = i"
      proof -
        fix i assume i: "i < length (unsat w')"
        show "pos (counters w' ! (unsat w' ! i)) = i"
        proof (cases "i = length (unsat w)")
          case True
          then have "unsat w' ! i = r" by (simp add: uw)
          then show ?thesis using cs2[OF rl] True by (simp add: cw)
        next
          case False
          then have iu: "i < length (unsat w)" using i by (simp add: uw)
          then have e: "unsat w' ! i = unsat w ! i" by (simp add: uw nth_append)
          have ne: "unsat w ! i \<noteq> r" using nin iu by (metis nth_mem)
          have "unsat w ! i < length (counters w)"
            using I(4)[of "unsat w ! i"] I(1) iu by simp
          from cs2[OF this] ne I(7)[OF iu] show ?thesis by (simp add: cw e)
        qed
      qed
    qed
    with cn len show ?thesis by (simp add: cw)
  qed
  then show "index_inv n w'"
    and "\<forall>x<n. cnt w' x = (if x = r then cnt w r - 1 else cnt w x)"
    and "length (counters w') = length (counters w)"
    by simp_all
qed

lemma make_clauses_loop_Cons:
  "make_clauses_loop (r # ws) w st =
     (case make_clauses_loop [r] w st of (w1, st1) \<Rightarrow> make_clauses_loop ws w1 st1)"
  by (simp add: Let_def split: prod.splits)

lemma break_clauses_loop_Cons:
  "break_clauses_loop (r # ws) w st =
     (case break_clauses_loop [r] w st of (w1, st1) \<Rightarrow> break_clauses_loop ws w1 st1)"
  by (simp add: Let_def split: prod.splits)

lemma make_clauses_loop_inv:
  "index_inv n w \<Longrightarrow> \<forall>r \<in> set ws. r < n \<Longrightarrow>
   \<forall>r<n. cnt w r + count_list ws r < U32 \<Longrightarrow>
   make_clauses_loop ws w st = (w', st') \<Longrightarrow>
   index_inv n w' \<and> (\<forall>r<n. cnt w' r = cnt w r + count_list ws r)
   \<and> length (counters w') = length (counters w)"
proof (induction ws arbitrary: w st)
  case Nil
  then show ?case by simp
next
  case (Cons r ws)
  obtain w1 st1 where one: "make_clauses_loop [r] w st = (w1, st1)" by (metis surj_pair)
  have r: "r < n" using Cons.prems(2) by simp
  have b: "cnt w r + 1 < U32" using Cons.prems(3) r by fastforce
  note S = make_step[OF Cons.prems(1) r b one]
  have rest: "make_clauses_loop ws w1 st1 = (w', st')"
    using Cons.prems(4) unfolding make_clauses_loop_Cons[of r ws w st] one by simp
  have 2: "\<forall>r \<in> set ws. r < n" using Cons.prems(2) by simp
  have 3: "\<forall>x<n. cnt w1 x + count_list ws x < U32"
    using Cons.prems(3) S(2) by (auto split: if_splits)
  from Cons.IH[OF S(1) 2 3 rest] S(2,3) show ?case by (auto split: if_splits)
qed

lemma break_clauses_loop_inv:
  "index_inv n w \<Longrightarrow> \<forall>r \<in> set ws. r < n \<Longrightarrow>
   \<forall>r<n. count_list ws r \<le> cnt w r \<Longrightarrow>
   break_clauses_loop ws w st = (w', st') \<Longrightarrow>
   index_inv n w' \<and> (\<forall>r<n. cnt w' r = cnt w r - count_list ws r)
   \<and> length (counters w') = length (counters w)"
proof (induction ws arbitrary: w st)
  case Nil
  then show ?case by simp
next
  case (Cons r ws)
  obtain w1 st1 where one: "break_clauses_loop [r] w st = (w1, st1)" by (metis surj_pair)
  have r: "r < n" using Cons.prems(2) by simp
  have b: "0 < cnt w r" using Cons.prems(3) r by fastforce
  note S = break_step[OF Cons.prems(1) r b one]
  have rest: "break_clauses_loop ws w1 st1 = (w', st')"
    using Cons.prems(4) unfolding break_clauses_loop_Cons[of r ws w st] one by simp
  have 2: "\<forall>r \<in> set ws. r < n" using Cons.prems(2) by simp
  have 3: "\<forall>x<n. count_list ws x \<le> cnt w1 x"
    using Cons.prems(3) S(2) by (auto split: if_splits)
  from Cons.IH[OF S(1) 2 3 rest] S(2,3) show ?case by (auto split: if_splits)
qed

subsection \<open>Counting true literals\<close>

lemma NOT_lit_involution [simp]: "NOT_lit (NOT_lit l) = l"
  by (auto simp: NOT_lit_def)

lemma NOT_lit_neq [simp]: "NOT_lit l \<noteq> l"
proof (cases "even l")
  case True
  then show ?thesis by (simp add: NOT_lit_def)
next
  case False
  then have "0 < l" by (cases l) auto
  with False show ?thesis by (simp add: NOT_lit_def)
qed

lemma NOT_lit_bound: "l < LITS s \<Longrightarrow> NOT_lit l < LITS s"
  by (auto simp: NOT_lit_def LITS_def elim!: evenE oddE)

lemma NOT_lit_eq_iff: "NOT_lit a = b \<longleftrightarrow> a = NOT_lit b"
  by (metis NOT_lit_involution)

lemma true_count_Cons [simp]:
  "true_count vs (l # ls) = (if 0 < vs ! l then 1 else 0) + true_count vs ls"
  by (simp add: true_count_def)

lemma true_count_Nil [simp]: "true_count vs [] = 0"
  by (simp add: true_count_def)

lemma true_count_false_bound:
  "vs ! a \<le> 0 \<Longrightarrow> true_count vs ls + count_list ls a \<le> length ls"
  by (induction ls) auto

lemma true_count_true_bound:
  "0 < vs ! a \<Longrightarrow> count_list ls a \<le> true_count vs ls"
  by (induction ls) auto

lemma true_count_flip:
  assumes "a \<noteq> b" "a < length vs" "b < length vs" "v < 0" "vs ! a = v" "vs ! b = - v"
  shows "true_count (vs[a := - v, b := v]) ls + count_list ls b
           = true_count vs ls + count_list ls a"
proof (induction ls)
  case Nil
  then show ?case by simp
next
  case (Cons l ls)
  consider "l = a" | "l = b" | "l \<noteq> a" "l \<noteq> b" by blast
  then show ?case
  proof cases
    case 1
    then show ?thesis using Cons assms by simp
  next
    case 2
    then show ?thesis using Cons assms by simp
  next
    case 3
    then show ?thesis using Cons by simp
  qed
qed

lemma dereference_literals_cong:
  "refs w' = refs w \<Longrightarrow> binaries w' = binaries w \<Longrightarrow> arena s' = arena s \<Longrightarrow>
   dereference_literals s' w' r = dereference_literals s w r"
  by (simp add: dereference_literals_def Let_def)

lemma cnt_current [simp]: "cnt (w\<lparr>current := c\<rparr>) r = cnt w r"
  by (simp add: cnt_def)

lemma index_inv_current [simp]: "index_inv n (w\<lparr>current := c\<rparr>) = index_inv n w"
  by (simp add: index_inv_def)

lemma flip_literal_unfold:
  assumes "make_clauses_loop (watches s ! flp) w 1 = (w2, st1)"
    and "break_clauses_loop (watches s ! NOT_lit flp) w2 1 = (w3, st2)"
  shows "flip_literal s w flp =
    (add_walk_steps (add_walk_steps
       (s\<lparr>vals := (vals s)[flp := - (vals s ! flp), NOT_lit flp := vals s ! flp]\<rparr>) st1) st2,
     w3\<lparr>current := currently_unsatified w3\<rparr>)"
  using assms
  by (simp add: flip_literal_def Let_def make_clauses_def break_clauses_def add_walk_steps_def)

lemma flip_literal_inv:
  assumes ii: "index_inv n w" and ci: "count_inv n s w" and ao: "assignment_ok s"
    and fl: "flp < LITS s" and neg: "vals s ! flp < 0"
    and f: "flip_literal s w flp = (s', w')"
  shows "index_inv n w'" and "count_inv n s' w'" and "assignment_ok s'"
    and "current w' = currently_unsatified w'"
proof -
  define v where "v = vals s ! flp"
  define nf where "nf = NOT_lit flp"
  define vs' where "vs' = (vals s)[flp := - v, nf := v]"
  let ?cl = "dereference_literals s w"
  have vneg: "v < 0" using neg by (simp add: v_def)
  have lv: "length (vals s) = LITS s" and neg_all: "\<forall>l<LITS s. vals s ! NOT_lit l = - vals s ! l"
    using ao by (simp_all add: assignment_ok_def)
  have nfl: "nf < LITS s" using fl by (simp add: nf_def NOT_lit_bound)
  have nfne: "flp \<noteq> nf" by (simp add: nf_def) (metis NOT_lit_neq)
  have vnf: "vals s ! nf = - v" using neg_all fl by (simp add: nf_def v_def)
  have C: "length (watches s) = LITS s"
    "\<And>l r. l < LITS s \<Longrightarrow> r \<in> set (watches s ! l) \<Longrightarrow> r < n"
    "\<And>r. r < n \<Longrightarrow> cnt w r = true_count (vals s) (?cl r)"
    "\<And>r l. r < n \<Longrightarrow> l < LITS s \<Longrightarrow> count_list (watches s ! l) r =
           (if vals s ! l \<noteq> 0 then count_list (?cl r) l else 0)"
    "\<And>r l. r < n \<Longrightarrow> l \<in> set (?cl r) \<Longrightarrow> l < LITS s"
    "\<And>r. r < n \<Longrightarrow> length (?cl r) < U32"
    using ci unfolding count_inv_def by blast+
  obtain w2 st1 where mk: "make_clauses_loop (watches s ! flp) w 1 = (w2, st1)"
    by (metis surj_pair)
  obtain w3 st2 where bk: "break_clauses_loop (watches s ! nf) w2 1 = (w3, st2)"
    by (metis surj_pair)
  have res: "s' = add_walk_steps (add_walk_steps (s\<lparr>vals := vs'\<rparr>) st1) st2"
    "w' = w3\<lparr>current := currently_unsatified w3\<rparr>"
    using flip_literal_unfold[OF mk bk[unfolded nf_def]] f by (simp_all add: vs'_def v_def nf_def)
  have w1: "\<forall>r \<in> set (watches s ! flp). r < n" using C(2)[OF fl] by blast
  have o1: "\<And>r. r < n \<Longrightarrow> count_list (watches s ! flp) r = count_list (?cl r) flp"
    using C(4)[OF _ fl] neg by simp
  have o2: "\<And>r. r < n \<Longrightarrow> count_list (watches s ! nf) r = count_list (?cl r) nf"
    using C(4)[OF _ nfl] vnf vneg by simp
  have b1: "\<forall>r<n. cnt w r + count_list (watches s ! flp) r < U32"
  proof (intro allI impI)
    fix r assume r: "r < n"
    have "true_count (vals s) (?cl r) + count_list (?cl r) flp \<le> length (?cl r)"
      using neg by (intro true_count_false_bound) simp
    with C(3)[OF r] o1[OF r] C(6)[OF r] show "cnt w r + count_list (watches s ! flp) r < U32"
      by simp
  qed
  note M = make_clauses_loop_inv[OF ii w1 b1 mk]
  have w2': "\<forall>r \<in> set (watches s ! nf). r < n" using C(2)[OF nfl] by blast
  have b2: "\<forall>r<n. count_list (watches s ! nf) r \<le> cnt w2 r"
  proof (intro allI impI)
    fix r assume r: "r < n"
    have "count_list (?cl r) nf \<le> true_count (vals s) (?cl r)"
      using vnf vneg by (intro true_count_true_bound) simp
    with M C(3)[OF r] o2[OF r] r show "count_list (watches s ! nf) r \<le> cnt w2 r" by simp
  qed
  have M1: "index_inv n w2" using M by simp
  note B = break_clauses_loop_inv[OF M1 w2' b2 bk]
  have fr: "search_part w3 = search_part w"
    using make_clauses_loop_frame[of "watches s ! flp" w 1]
      break_clauses_loop_frame[of "watches s ! nf" w2 1] mk bk by simp
  have dr: "\<And>r. dereference_literals s' w' r = ?cl r"
    by (rule dereference_literals_cong)
       (simp_all add: res search_part_fields(6,7)[OF fr] add_walk_steps_def)
  show "index_inv n w'" using B by (simp add: res)
  show "current w' = currently_unsatified w'" by (simp add: res currently_unsatified_def)
  have vs: "vals s' = vs'" "watches s' = watches s" "LITS s' = LITS s"
    by (simp_all add: res add_walk_steps_def LITS_def)
  have nz: "\<And>l. l < LITS s \<Longrightarrow> vs' ! l \<noteq> 0 \<longleftrightarrow> vals s ! l \<noteq> 0"
  proof -
    fix l assume "l < LITS s"
    consider "l = flp" | "l = nf" | "l \<noteq> flp" "l \<noteq> nf" by blast
    then show "vs' ! l \<noteq> 0 \<longleftrightarrow> vals s ! l \<noteq> 0"
    proof cases
      case 1
      then show ?thesis using vneg nfne fl lv by (simp add: vs'_def v_def[symmetric])
    next
      case 2
      then show ?thesis using vneg nfl lv vnf by (simp add: vs'_def)
    next
      case 3
      then show ?thesis by (simp add: vs'_def)
    qed
  qed
  show "assignment_ok s'"
    unfolding assignment_ok_def vs
  proof (intro conjI allI impI)
    show "length vs' = LITS s" using lv by (simp add: vs'_def)
    fix l assume l: "l < LITS s"
    consider "l = flp" | "l = nf" | "l \<noteq> flp" "l \<noteq> nf" by blast
    then show "vs' ! NOT_lit l = - vs' ! l"
    proof cases
      case 1
      then show ?thesis using nfne fl nfl lv by (simp add: vs'_def nf_def[symmetric])
    next
      case 2
      then have "NOT_lit l = flp" by (simp add: nf_def)
      then show ?thesis using 2 nfne fl nfl lv by (simp add: vs'_def)
    next
      case 3
      then have "NOT_lit l \<noteq> nf" "NOT_lit l \<noteq> flp"
        by (simp_all add: nf_def NOT_lit_eq_iff)
      then show ?thesis using 3 neg_all l by (simp add: vs'_def)
    qed
  qed
  show "count_inv n s' w'"
    unfolding count_inv_def vs dr
  proof (intro conjI allI impI ballI)
    show "length (watches s) = LITS s" by (rule C(1))
    show "\<And>l r. l < LITS s \<Longrightarrow> r \<in> set (watches s ! l) \<Longrightarrow> r < n" by (rule C(2))
    show "\<And>r l. r < n \<Longrightarrow> l \<in> set (?cl r) \<Longrightarrow> l < LITS s" by (rule C(5))
    show "\<And>r. r < n \<Longrightarrow> length (?cl r) < U32" by (rule C(6))
    show "\<And>r l. r < n \<Longrightarrow> l < LITS s \<Longrightarrow> count_list (watches s ! l) r =
           (if vs' ! l \<noteq> 0 then count_list (?cl r) l else 0)"
      using C(4) nz by simp
    fix r assume r: "r < n"
    have t: "true_count vs' (?cl r) + count_list (?cl r) nf
           = true_count (vals s) (?cl r) + count_list (?cl r) flp"
      unfolding vs'_def
      by (rule true_count_flip[OF nfne _ _ vneg _ vnf]) (simp_all add: lv fl nfl v_def)
    have "cnt w' r = cnt w3 r" by (simp add: res)
    also have "\<dots> = cnt w2 r - count_list (watches s ! nf) r" using B r by simp
    also have "\<dots> = cnt w r + count_list (watches s ! flp) r - count_list (watches s ! nf) r"
      using M r by simp
    also have "\<dots> = true_count (vals s) (?cl r) + count_list (?cl r) flp - count_list (?cl r) nf"
      using C(3)[OF r] o1[OF r] o2[OF r] by simp
    also have "\<dots> = true_count vs' (?cl r)" using t by simp
    finally show "cnt w' r = true_count vs' (?cl r)" .
  qed
qed

subsection \<open>A local search step keeps the invariants\<close>

lemma tracker_part_simps [simp]:
  "tracker_part (w\<lparr>trail := t\<rparr>) = tracker_part w"
  "tracker_part (w\<lparr>best := b\<rparr>) = tracker_part w"
  "tracker_part (w\<lparr>minimum := m\<rparr>) = tracker_part w"
  by (simp_all add: tracker_part_def)

lemma tracker_part_fields:
  assumes "tracker_part w' = tracker_part w"
  shows "counters w' = counters w" "unsat w' = unsat w" "refs w' = refs w"
    "binaries w' = binaries w" "current w' = current w" "scores w' = scores w"
    "flipped w' = flipped w" "clauses w' = clauses w"
proof -
  have a: "\<And>f. f (tracker_part w') = f (tracker_part w)" using assms by simp
  show "counters w' = counters w" using a[of counters] by (simp add: tracker_part_def)
  show "unsat w' = unsat w" using a[of unsat] by (simp add: tracker_part_def)
  show "refs w' = refs w" using a[of refs] by (simp add: tracker_part_def)
  show "binaries w' = binaries w" using a[of binaries] by (simp add: tracker_part_def)
  show "current w' = current w" using a[of current] by (simp add: tracker_part_def)
  show "scores w' = scores w" using a[of scores] by (simp add: tracker_part_def)
  show "flipped w' = flipped w" using a[of flipped] by (simp add: tracker_part_def)
  show "clauses w' = clauses w" using a[of clauses] by (simp add: tracker_part_def)
qed

lemma phase_part_simps [simp]: "phase_part (s\<lparr>phases_saved := p\<rparr>) = phase_part s"
  by (simp add: phase_part_def)

lemma phase_part_fields:
  assumes "phase_part s' = phase_part s"
  shows "vals s' = vals s" "watches s' = watches s" "arena s' = arena s" "vars s' = vars s"
    "stats s' = stats s" "pol_activity s' = pol_activity s" "frame s' = frame s"
    "active s' = active s" "phases_target s' = phases_target s"
    "last_irredundant s' = last_irredundant s" "binirr_clauses s' = binirr_clauses s"
    "random_seed s' = random_seed s" "stable s' = stable s"
    "option_warmup s' = option_warmup s" "initial_phase s' = initial_phase s"
proof -
  have a: "\<And>f. f (phase_part s') = f (phase_part s)" using assms by simp
  show "vals s' = vals s" using a[of vals] by (simp add: phase_part_def)
  show "watches s' = watches s" using a[of watches] by (simp add: phase_part_def)
  show "arena s' = arena s" using a[of arena] by (simp add: phase_part_def)
  show "vars s' = vars s" using a[of vars] by (simp add: phase_part_def)
  show "stats s' = stats s" using a[of stats] by (simp add: phase_part_def)
  show "pol_activity s' = pol_activity s" using a[of pol_activity] by (simp add: phase_part_def)
  show "frame s' = frame s" using a[of frame] by (simp add: phase_part_def)
  show "active s' = active s" using a[of active] by (simp add: phase_part_def)
  show "phases_target s' = phases_target s" using a[of phases_target] by (simp add: phase_part_def)
  show "last_irredundant s' = last_irredundant s"
    using a[of last_irredundant] by (simp add: phase_part_def)
  show "binirr_clauses s' = binirr_clauses s" using a[of binirr_clauses] by (simp add: phase_part_def)
  show "random_seed s' = random_seed s" using a[of random_seed] by (simp add: phase_part_def)
  show "stable s' = stable s" using a[of stable] by (simp add: phase_part_def)
  show "option_warmup s' = option_warmup s" using a[of option_warmup] by (simp add: phase_part_def)
  show "initial_phase s' = initial_phase s" using a[of initial_phase] by (simp add: phase_part_def)
qed

lemma push_flipped_parts:
  "phase_part (fst (push_flipped s w l)) = phase_part s"
  "tracker_part (snd (push_flipped s w l)) = tracker_part w"
  "minimum (snd (push_flipped s w l)) = minimum w"
  by (simp_all add: push_flipped_def Let_def save_walker_trail_def)

lemma update_best_parts:
  "phase_part (fst (update_best s w)) = phase_part s"
  "tracker_part (snd (update_best s w)) = tracker_part w"
  "minimum (snd (update_best s w)) = current w"
  by (simp_all add: update_best_def Let_def save_all_values_def)

lemma inv_cong:
  assumes "counters w' = counters w" "unsat w' = unsat w" "refs w' = refs w"
    "binaries w' = binaries w" "vals s' = vals s" "watches s' = watches s"
    "arena s' = arena s" "vars s' = vars s"
  shows "index_inv n w' = index_inv n w" "count_inv n s' w' = count_inv n s w"
    "assignment_ok s' = assignment_ok s"
    "\<And>r. dereference_literals s' w' r = dereference_literals s w r"
    "currently_unsatified w' = currently_unsatified w"
proof -
  show d: "\<And>r. dereference_literals s' w' r = dereference_literals s w r"
    using assms by (intro dereference_literals_cong) simp_all
  have c: "\<And>r. cnt w' r = cnt w r" using assms by (simp add: cnt_def)
  have l: "LITS s' = LITS s" using assms by (simp add: LITS_def)
  show "index_inv n w' = index_inv n w" using assms c by (simp add: index_inv_def)
  show "count_inv n s' w' = count_inv n s w" using assms c l d by (simp add: count_inv_def)
  show "assignment_ok s' = assignment_ok s" using assms l by (simp add: assignment_ok_def)
  show "currently_unsatified w' = currently_unsatified w"
    using assms by (simp add: currently_unsatified_def)
qed

lemma flip_literal_vals:
  assumes "assignment_ok s" "flp < LITS s" "vals s ! flp \<noteq> 0"
  shows "\<forall>l<LITS s. vals (fst (flip_literal s w flp)) ! l \<noteq> 0 \<longleftrightarrow> vals s ! l \<noteq> 0"
proof (intro allI impI)
  fix l assume l: "l < LITS s"
  define v where "v = vals s ! flp"
  have lv: "length (vals s) = LITS s" and na: "vals s ! NOT_lit flp = - v"
    using assms by (simp_all add: assignment_ok_def v_def)
  have nb: "NOT_lit flp < LITS s" using assms(2) by (rule NOT_lit_bound)
  have vs: "vals (fst (flip_literal s w flp)) = (vals s)[flp := - v, NOT_lit flp := v]"
    by (simp add: flip_literal_def Let_def make_clauses_def break_clauses_def v_def
        split: prod.splits)
  consider "l = NOT_lit flp" | "l \<noteq> NOT_lit flp" "l = flp" | "l \<noteq> NOT_lit flp" "l \<noteq> flp"
    by blast
  then show "vals (fst (flip_literal s w flp)) ! l \<noteq> 0 \<longleftrightarrow> vals s ! l \<noteq> 0"
  proof cases
    case 1
    then show ?thesis using nb lv na assms(3) by (simp add: vs v_def)
  next
    case 2
    then show ?thesis using lv assms(2,3) by (simp add: vs v_def)
  next
    case 3
    then show ?thesis by (simp add: vs)
  qed
qed

lemma pick_literal_scores: "scores (fst (snd (pick_literal ev s w))) = []"
  by (simp add: pick_literal_def Let_def split: prod.splits)

lemma true_count_zero:
  "true_count vs ls = 0 \<Longrightarrow> l \<in> set ls \<Longrightarrow> vs ! l \<le> 0"
  by (auto simp: true_count_def filter_empty_conv)

lemma host_part_inc_flipped [simp]: "host_part (inc_flipped s) = host_part s"
  by (simp add: inc_flipped_def)

lemma vals_inc_flipped [simp]: "vals (inc_flipped s) = vals s"
  by (simp add: inc_flipped_def)

lemma round_inv_unsat_length:
  assumes "round_inv n s w"
  shows "current w = length (unsat w)"
proof -
  have i: "index_inv n w" and c: "current w = currently_unsatified w"
    using assms by (simp_all add: round_inv_def)
  have "length (unsat w) < U32" using index_inv_length[OF i] index_invD(2)[OF i] by simp
  then show ?thesis using c by (simp add: currently_unsatified_def u32_small)
qed

lemma pick_valid:
  assumes ri: "round_inv n s w" and m: "minimum w \<noteq> 0"
    and p: "pick_literal ev (inc_flipped s) (w\<lparr>flipped := f\<rparr>) = (s2, w2, l)"
  shows "round_inv n s2 w2" and "minimum w2 = minimum w" and "l < LITS s2"
    and "vals s2 ! l < 0"
proof -
  let ?s1 = "inc_flipped s"
  let ?w1 = "w\<lparr>flipped := f\<rparr>"
  have R: "index_inv n w" "count_inv n s w" "assignment_ok s"
    "current w = currently_unsatified w" "minimum w \<le> current w" "scores w = []"
    "\<And>r. r < n \<Longrightarrow> \<exists>l \<in> set (dereference_literals s w r). vals s ! l \<noteq> 0"
    using ri by (simp_all add: round_inv_def)
  note I = index_invD[OF R(1)]
  have cur: "current w = length (unsat w)" by (rule round_inv_unsat_length[OF ri])
  have cpos: "0 < current w" using m R(5) by simp
  define p0 where "p0 = pick_pos ?w1"
  have p0: "p0 < length (unsat w)" using cpos cur by (simp add: p0_def pick_pos_def)
  define rf where "rf = unsat w ! p0"
  have rin: "rf \<in> set (unsat w)" using p0 by (simp add: rf_def)
  have rn: "rf < n" using I(4)[OF rin] .
  have c0: "cnt w rf = 0" using I(6)[OF rn] rin by simp
  define cl where "cl = dereference_literals s w rf"
  have C: "\<And>r. r < n \<Longrightarrow> cnt w r = true_count (vals s) (dereference_literals s w r)"
    "\<And>r l. r < n \<Longrightarrow> l \<in> set (dereference_literals s w r) \<Longrightarrow> l < LITS s"
    using R(2) unfolding count_inv_def by blast+
  have tc: "true_count (vals s) cl = 0" using C(1)[OF rn] c0 by (simp add: cl_def)
  have pc: "picked_clause ?s1 ?w1 = cl"
    unfolding picked_clause_def cl_def rf_def p0_def
    by (rule trans[OF dereference_literals_cong[of _ w _ s]]) (simp_all add: inc_flipped_def)
  have cand: "candidates ?s1 ?w1 = filter (\<lambda>l. vals s ! l \<noteq> 0) cl"
    by (simp add: candidates_def pc)
  have ne: "candidates ?s1 ?w1 \<noteq> []"
    using R(7)[OF rn] by (auto simp: cand cl_def filter_empty_conv)
  have "l = snd (snd (pick_literal ev ?s1 ?w1))" using p by simp
  also have "\<dots> \<in> set (candidates ?s1 ?w1)"
    using pick_literal_result[of ?w1 ev ?s1] R(6) ne by (simp add: pick_choice_member)
  finally have lc: "l \<in> set cl" "vals s ! l \<noteq> 0" by (simp_all add: cand)
  have "vals s ! l \<le> 0" using true_count_zero[OF tc lc(1)] .
  with lc(2) have lneg: "vals s ! l < 0" by simp
  have ll: "l < LITS s" using C(2)[OF rn] lc(1) by (simp add: cl_def)
  have F: "host_part s2 = host_part s" "vals s2 = vals s" "pick_part w2 = pick_part w"
    using pick_literal_frame[OF p] by simp_all
  note hf = host_part_fields[OF F(1)]
  note pf = pick_part_fields[OF F(3)]
  note K = inv_cong[OF pf(6) pf(13) pf(5) pf(7) F(2) hf(3) hf(4) hf(1)]
  have sc: "scores w2 = []" using pick_literal_scores[of ev ?s1 ?w1] p by simp
  show "round_inv n s2 w2"
    unfolding round_inv_def K using R sc pf(14,3) F(2) by simp
  show "minimum w2 = minimum w" by (rule pf(3))
  show "l < LITS s2" using ll hf(1) by (simp add: LITS_def)
  show "vals s2 ! l < 0" using lneg F(2) by simp
qed

lemma flip_valid:
  assumes ri: "round_inv n s w" and l: "l < LITS s" "vals s ! l < 0"
    and f: "flip_literal s w l = (s', w')"
  shows "index_inv n w'" and "count_inv n s' w'" and "assignment_ok s'"
    and "current w' = currently_unsatified w'" and "scores w' = []"
    and "minimum w' = minimum w"
    and "\<forall>r<n. \<exists>x \<in> set (dereference_literals s' w' r). vals s' ! x \<noteq> 0"
proof -
  have R: "index_inv n w" "count_inv n s w" "assignment_ok s" "scores w = []"
    "\<And>r. r < n \<Longrightarrow> \<exists>l \<in> set (dereference_literals s w r). vals s ! l \<noteq> 0"
    using ri by (simp_all add: round_inv_def)
  note F = flip_literal_inv[OF R(1,2,3) l f]
  show "index_inv n w'" "count_inv n s' w'" "assignment_ok s'"
    "current w' = currently_unsatified w'" by (rule F)+
  have sp: "search_part w' = search_part w" and hp: "host_part s' = host_part s"
    using flip_literal_frame[of s w l] f by simp_all
  show "scores w' = []" using search_part_fields(14)[OF sp] R(4) by simp
  show "minimum w' = minimum w" by (rule search_part_fields(3)[OF sp])
  have d: "\<And>r. dereference_literals s' w' r = dereference_literals s w r"
    by (rule dereference_literals_cong)
       (simp_all add: search_part_fields(6,7)[OF sp] host_part_fields(4)[OF hp])
  have C: "\<And>r x. r < n \<Longrightarrow> x \<in> set (dereference_literals s w r) \<Longrightarrow> x < LITS s"
    using R(2) unfolding count_inv_def by blast
  have nz: "\<forall>x<LITS s. vals s' ! x \<noteq> 0 \<longleftrightarrow> vals s ! x \<noteq> 0"
    using flip_literal_vals[OF R(3) l(1), of w] l(2) f by simp
  show "\<forall>r<n. \<exists>x \<in> set (dereference_literals s' w' r). vals s' ! x \<noteq> 0"
  proof (intro allI impI)
    fix r assume r: "r < n"
    from R(5)[OF r] obtain x where x: "x \<in> set (dereference_literals s w r)" "vals s ! x \<noteq> 0"
      by blast
    then have "vals s' ! x \<noteq> 0" using nz C[OF r x(1)] by simp
    with x(1) show "\<exists>x \<in> set (dereference_literals s' w' r). vals s' ! x \<noteq> 0"
      unfolding d by blast
  qed
qed

lemma tracker_inv:
  assumes "index_inv n w" "count_inv n s w" "assignment_ok s"
    "current w = currently_unsatified w" "scores w = []"
    "\<forall>r<n. \<exists>x \<in> set (dereference_literals s w r). vals s ! x \<noteq> 0"
    and "phase_part s' = phase_part s" "tracker_part w' = tracker_part w"
    and "minimum w' \<le> current w"
  shows "round_inv n s' w'"
proof -
  note pf = phase_part_fields[OF assms(7)]
  note tf = tracker_part_fields[OF assms(8)]
  note K = inv_cong[OF tf(1,2,3,4) pf(1,2,3,4)]
  show ?thesis
    unfolding round_inv_def K using assms(1-6,9) tf(5,6) pf(1) by simp
qed

lemma local_search_step_inv:
  assumes ri: "round_inv n s w" and m: "minimum w \<noteq> 0"
    and st: "local_search_step ev s w = (s', w')"
  shows "round_inv n s' w'"
proof -
  obtain s2 w2 l where p: "pick_literal ev (inc_flipped s) (w\<lparr>flipped := u64 (flipped w + 1)\<rparr>) = (s2, w2, l)"
    by (metis prod_cases3)
  obtain s3 w3 where f: "flip_literal s2 w2 l = (s3, w3)" by (metis surj_pair)
  obtain s4 w4 where q: "push_flipped s3 w3 l = (s4, w4)" by (metis surj_pair)
  note P = pick_valid[OF ri m p]
  note F = flip_valid[OF P(1,3,4) f]
  have q1: "phase_part s4 = phase_part s3" "tracker_part w4 = tracker_part w3"
    "minimum w4 = minimum w3"
    using push_flipped_parts[of s3 w3 l] q by simp_all
  have cur4: "current w4 = current w3" by (rule tracker_part_fields(5)[OF q1(2)])
  show ?thesis
  proof (cases "current w4 < minimum w4")
    case True
    then have u: "update_best s4 w4 = (s', w')"
      using local_search_step_unfold[OF p f q] st by simp
    have u1: "phase_part s' = phase_part s3" "tracker_part w' = tracker_part w3"
      "minimum w' = current w4"
      using update_best_parts[of s4 w4] u q1 by simp_all
    show ?thesis
      by (rule tracker_inv[OF F(1,2,3,4,5,7) u1(1,2)]) (simp add: u1(3) cur4)
  next
    case False
    then have e: "s' = s4" "w' = w4"
      using local_search_step_unfold[OF p f q] st by simp_all
    show ?thesis
      unfolding e
      by (rule tracker_inv[OF F(1,2,3,4,5,7) q1(1,2)]) (use False cur4 in simp)
  qed
qed

subsection \<open>Connecting one clause\<close>

lemma watch_literals_length [simp]: "length (watch_literals ls n vs ws) = length ws"
  by (induction ls arbitrary: ws) simp_all

lemma watch_literals_nth:
  "l < length ws \<Longrightarrow>
     watch_literals ls n vs ws ! l
       = ws ! l @ replicate (if vs ! l \<noteq> 0 then count_list ls l else 0) n"
proof (induction ls arbitrary: ws)
  case Nil
  then show ?case by simp
next
  case (Cons x ls)
  show ?case
  proof (cases "vs ! x \<noteq> 0")
    case True
    have "watch_literals (x # ls) n vs ws ! l
            = (ws[x := ws ! x @ [n]]) ! l
              @ replicate (if vs ! l \<noteq> 0 then count_list ls l else 0) n"
      using True Cons.IH[of "ws[x := ws ! x @ [n]]"] Cons.prems by simp
    then show ?thesis using True Cons.prems
      by (cases "x = l") (simp_all add: replicate_append_same)
  next
    case False
    then show ?thesis using Cons.IH[of ws] Cons.prems by auto
  qed
qed

lemma count_list_replicate [simp]:
  "count_list (replicate k x) y = (if x = y then k else 0)"
  by (induction k) auto

lemma true_count_le: "true_count vs ls \<le> length ls"
  by (simp add: true_count_def)

lemma connect_step:
  assumes c: "conn n s w"
    and cap: "n < length (counters w)" "Suc n < U32"
    and ls: "\<forall>l \<in> set ls. l < LITS s" "length ls < U32" "\<exists>l \<in> set ls. vals s ! l \<noteq> 0"
    and s1: "watches s1 = watch_literals ls n (vals s) (watches s)" "vals s1 = vals s"
      "vars s1 = vars s"
    and d: "\<And>r. r < n \<Longrightarrow> dereference_literals s1 w3 r = dereference_literals s w r"
      "dereference_literals s1 w3 n = ls"
    and w3: "length (counters w3) = length (counters w)"
      "\<And>r. r < n \<Longrightarrow> counters w3 ! r = counters w ! r"
      "cnt w3 n = true_count (vals s) ls"
      "unsat w3 = (if true_count (vals s) ls = 0 then unsat w @ [n] else unsat w)"
      "true_count (vals s) ls = 0 \<Longrightarrow> pos (counters w3 ! n) = length (unsat w)"
  shows "conn (Suc n) s1 w3"
proof -
  have I0: "index_inv n w" and C0: "count_inv n s w"
    and E0: "\<And>r. r < n \<Longrightarrow> \<exists>l \<in> set (dereference_literals s w r). vals s ! l \<noteq> 0"
    using c by (simp_all add: conn_def)
  note I = index_invD[OF I0]
  have C: "length (watches s) = LITS s"
    "\<And>l r. l < LITS s \<Longrightarrow> r \<in> set (watches s ! l) \<Longrightarrow> r < n"
    "\<And>r. r < n \<Longrightarrow> cnt w r = true_count (vals s) (dereference_literals s w r)"
    "\<And>r l. r < n \<Longrightarrow> l < LITS s \<Longrightarrow> count_list (watches s ! l) r =
           (if vals s ! l \<noteq> 0 then count_list (dereference_literals s w r) l else 0)"
    "\<And>r l. r < n \<Longrightarrow> l \<in> set (dereference_literals s w r) \<Longrightarrow> l < LITS s"
    "\<And>r. r < n \<Longrightarrow> length (dereference_literals s w r) < U32"
    using C0 unfolding count_inv_def by blast+
  have L: "LITS s1 = LITS s" using s1(3) by (simp add: LITS_def)
  have cw: "\<And>r. r < n \<Longrightarrow> cnt w3 r = cnt w r" using w3(2) by (simp add: cnt_def)
  have nn: "n \<notin> set (unsat w)" using I(4)[of n] by auto
  have wn: "\<And>l. l < LITS s \<Longrightarrow> watches s1 ! l
      = watches s ! l @ replicate (if vals s ! l \<noteq> 0 then count_list ls l else 0) n"
    using watch_literals_nth[of _ "watches s" ls n "vals s"] C(1) s1(1) by simp
  have c0: "\<And>l. l < LITS s \<Longrightarrow> count_list (watches s ! l) n = 0"
    using C(2) by (auto simp: count_list_0_iff)
  have i: "index_inv (Suc n) w3"
  proof (rule index_invI)
    show "Suc n \<le> length (counters w3)" using cap(1) w3(1) by simp
    show "Suc n < U32" by (rule cap(2))
    show "distinct (unsat w3)" using I(3) nn by (simp add: w3(4))
    show "\<And>r. r \<in> set (unsat w3) \<Longrightarrow> r < Suc n"
      using I(4) by (auto simp: w3(4) less_Suc_eq split: if_splits)
    show "\<And>r. r < Suc n \<Longrightarrow> cnt w3 r < U32"
    proof -
      fix r assume "r < Suc n"
      then consider "r < n" | "r = n" by linarith
      then show "cnt w3 r < U32"
      proof cases
        case 1
        then show ?thesis using I(5) cw by simp
      next
        case 2
        then show ?thesis using w3(3) true_count_le[of "vals s" ls] ls(2) by simp
      qed
    qed
    show "\<And>r. r < Suc n \<Longrightarrow> cnt w3 r = 0 \<longleftrightarrow> r \<in> set (unsat w3)"
    proof -
      fix r assume "r < Suc n"
      then consider "r < n" | "r = n" by linarith
      then show "cnt w3 r = 0 \<longleftrightarrow> r \<in> set (unsat w3)"
      proof cases
        case 1
        then show ?thesis using I(6)[of r] cw[of r] by (simp add: w3(4))
      next
        case 2
        then show ?thesis using w3(3) nn by (simp add: w3(4))
      qed
    qed
    show "\<And>i. i < length (unsat w3) \<Longrightarrow> pos (counters w3 ! (unsat w3 ! i)) = i"
    proof -
      fix i assume a: "i < length (unsat w3)"
      show "pos (counters w3 ! (unsat w3 ! i)) = i"
      proof (cases "i < length (unsat w)")
        case True
        then have u: "unsat w3 ! i = unsat w ! i" by (simp add: w3(4) nth_append)
        have "unsat w ! i < n" using I(4) True by simp
        then show ?thesis using I(7)[OF True] w3(2) u by simp
      next
        case False
        then have z: "true_count (vals s) ls = 0" "i = length (unsat w)"
          using a by (simp_all add: w3(4) split: if_splits)
        then show ?thesis using w3(5) by (simp add: w3(4))
      qed
    qed
  qed
  have k: "count_inv (Suc n) s1 w3"
    unfolding count_inv_def L s1(2)
  proof (intro conjI allI impI ballI)
    show "length (watches s1) = LITS s" using C(1) s1(1) by simp
    show "\<And>l r. l < LITS s \<Longrightarrow> r \<in> set (watches s1 ! l) \<Longrightarrow> r < Suc n"
      using wn C(2) by (auto simp: less_Suc_eq split: if_splits)
    show "\<And>r. r < Suc n \<Longrightarrow> cnt w3 r = true_count (vals s) (dereference_literals s1 w3 r)"
      using C(3) cw d w3(3) by (auto simp: less_Suc_eq)
    show "\<And>r l. r < Suc n \<Longrightarrow> l < LITS s \<Longrightarrow> count_list (watches s1 ! l) r =
           (if vals s ! l \<noteq> 0 then count_list (dereference_literals s1 w3 r) l else 0)"
    proof -
      fix r l assume a: "r < Suc n" "l < LITS s"
      then consider "r < n" | "r = n" by linarith
      then show "count_list (watches s1 ! l) r =
           (if vals s ! l \<noteq> 0 then count_list (dereference_literals s1 w3 r) l else 0)"
      proof cases
        case 1
        then show ?thesis using C(4)[OF 1 a(2)] d(1)[OF 1] wn[OF a(2)]
          by (simp add: count_list_0_iff)
      next
        case 2
        then show ?thesis using c0[OF a(2)] d(2) wn[OF a(2)] by simp
      qed
    qed
    show "\<And>r l. r < Suc n \<Longrightarrow> l \<in> set (dereference_literals s1 w3 r) \<Longrightarrow> l < LITS s"
      using C(5) d ls(1) by (auto simp: less_Suc_eq)
    show "\<And>r. r < Suc n \<Longrightarrow> length (dereference_literals s1 w3 r) < U32"
      using C(6) d ls(2) by (auto simp: less_Suc_eq)
  qed
  have e: "\<forall>r<Suc n. \<exists>l \<in> set (dereference_literals s1 w3 r). vals s1 ! l \<noteq> 0"
    using E0 d ls(3) by (auto simp: less_Suc_eq s1(2))
  show ?thesis unfolding conn_def using i k e by blast
qed

subsection \<open>What the connection loops leave alone\<close>

lemma watch_part_simps [simp]:
  "watch_part (s\<lparr>watches := ws\<rparr>) = watch_part s"
  by (simp add: watch_part_def)

lemma clear_garbage_update:
  "map clear_garbage (cs[i := (cs ! i)\<lparr>garbage := True\<rparr>]) = map clear_garbage cs"
proof (cases "i < length cs")
  case True
  have "map clear_garbage (cs[i := (cs ! i)\<lparr>garbage := True\<rparr>])
          = (map clear_garbage cs)[i := map clear_garbage cs ! i]"
    using True by (simp add: map_update clear_garbage_def)
  then show ?thesis by simp
next
  case False
  then have "cs[i := (cs ! i)\<lparr>garbage := True\<rparr>] = cs" by (simp add: not_less list_update_beyond)
  then show ?thesis by (rule arg_cong)
qed

lemma watch_part_garbage [simp]:
  "watch_part (kissat_mark_clause_as_garbage s i) = watch_part s"
  by (simp add: watch_part_def kissat_mark_clause_as_garbage_def clear_garbage_update)

lemma nth_beyond: "length xs \<le> i \<Longrightarrow> xs ! i = [] ! (i - length xs)"
proof (induction xs arbitrary: i)
  case Nil
  then show ?case by simp
next
  case (Cons x xs)
  then obtain j where "i = Suc j" by (cases i) auto
  then show ?case using Cons by simp
qed

lemma watch_part_push [simp]: "watch_part (kissat_push_large_watch s l r) = watch_part s"
  by (simp add: kissat_push_large_watch_def)

lemma watch_part_fields:
  assumes "watch_part s' = watch_part s"
  shows "vars s' = vars s" "vals s' = vals s" "phases_saved s' = phases_saved s"
    "stats s' = stats s" "pol_activity s' = pol_activity s" "active s' = active s"
    "phases_target s' = phases_target s" "frame s' = frame s"
    "last_irredundant s' = last_irredundant s" "binirr_clauses s' = binirr_clauses s"
    "random_seed s' = random_seed s" "stable s' = stable s"
    "option_warmup s' = option_warmup s" "initial_phase s' = initial_phase s"
    "map clear_garbage (arena s') = map clear_garbage (arena s)"
proof -
  have a: "\<And>f. f (watch_part s') = f (watch_part s)" using assms by simp
  show "vars s' = vars s" using a[of vars] by (simp add: watch_part_def)
  show "vals s' = vals s" using a[of vals] by (simp add: watch_part_def)
  show "phases_saved s' = phases_saved s" using a[of phases_saved] by (simp add: watch_part_def)
  show "stats s' = stats s" using a[of stats] by (simp add: watch_part_def)
  show "pol_activity s' = pol_activity s" using a[of pol_activity] by (simp add: watch_part_def)
  show "active s' = active s" using a[of active] by (simp add: watch_part_def)
  show "phases_target s' = phases_target s" using a[of phases_target] by (simp add: watch_part_def)
  show "frame s' = frame s" using a[of frame] by (simp add: watch_part_def)
  show "last_irredundant s' = last_irredundant s"
    using a[of last_irredundant] by (simp add: watch_part_def)
  show "binirr_clauses s' = binirr_clauses s"
    using a[of binirr_clauses] by (simp add: watch_part_def)
  show "random_seed s' = random_seed s" using a[of random_seed] by (simp add: watch_part_def)
  show "stable s' = stable s" using a[of stable] by (simp add: watch_part_def)
  show "option_warmup s' = option_warmup s" using a[of option_warmup] by (simp add: watch_part_def)
  show "initial_phase s' = initial_phase s" using a[of initial_phase] by (simp add: watch_part_def)
  show "map clear_garbage (arena s') = map clear_garbage (arena s)"
    using a[of arena] by (simp add: watch_part_def)
qed

lemma clear_garbage_lits:
  assumes "map clear_garbage cs' = map clear_garbage cs"
  shows "length cs' = length cs" and "lits (cs' ! i) = lits (cs ! i)"
    and "redundant (cs' ! i) = redundant (cs ! i)"
proof -
  show l: "length cs' = length cs" using assms by (metis length_map)
  have c: "\<And>c. lits (clear_garbage c) = lits c \<and> redundant (clear_garbage c) = redundant c"
    by (simp add: clear_garbage_def)
  show "lits (cs' ! i) = lits (cs ! i)"
  proof (cases "i < length cs")
    case True
    then have "clear_garbage (cs' ! i) = clear_garbage (cs ! i)"
      using assms l by (metis nth_map)
    then show ?thesis using c by metis
  next
    case False
    then show ?thesis using l nth_beyond[of cs i] nth_beyond[of cs' i] by simp
  qed
  show "redundant (cs' ! i) = redundant (cs ! i)"
  proof (cases "i < length cs")
    case True
    then have "clear_garbage (cs' ! i) = clear_garbage (cs ! i)"
      using assms l by (metis nth_map)
    then show ?thesis using c by metis
  next
    case False
    then show ?thesis using l nth_beyond[of cs i] nth_beyond[of cs' i] by simp
  qed
qed

lemma conn_part_simps [simp]:
  "conn_part (w\<lparr>counters := cs\<rparr>) = conn_part w"
  "conn_part (w\<lparr>refs := rs\<rparr>) = conn_part w"
  "conn_part (w\<lparr>unsat := us\<rparr>) = conn_part w"
  "conn_part (w\<lparr>size_avg := sz\<rparr>) = conn_part w"
  by (simp_all add: conn_part_def)

lemma conn_part_push [simp]: "conn_part (push_unsat w r) = conn_part w"
  by (simp add: push_unsat_def)

lemma conn_part_fields:
  assumes "conn_part w' = conn_part w"
  shows "binaries w' = binaries w" "scores w' = scores w" "saved w' = saved w"
    "clauses w' = clauses w" "random w' = random w" "trail w' = trail w"
    "best w' = best w" "minimum w' = minimum w" "current w' = current w"
    "initial w' = initial w" "flipped w' = flipped w" "limit w' = limit w"
    "table w' = table w" "exponents w' = exponents w" "epsilon w' = epsilon w"
proof -
  have a: "\<And>f. f (conn_part w') = f (conn_part w)" using assms by simp
  show "binaries w' = binaries w" using a[of binaries] by (simp add: conn_part_def)
  show "scores w' = scores w" using a[of scores] by (simp add: conn_part_def)
  show "saved w' = saved w" using a[of saved] by (simp add: conn_part_def)
  show "clauses w' = clauses w" using a[of clauses] by (simp add: conn_part_def)
  show "random w' = random w" using a[of random] by (simp add: conn_part_def)
  show "trail w' = trail w" using a[of trail] by (simp add: conn_part_def)
  show "best w' = best w" using a[of best] by (simp add: conn_part_def)
  show "minimum w' = minimum w" using a[of minimum] by (simp add: conn_part_def)
  show "current w' = current w" using a[of current] by (simp add: conn_part_def)
  show "initial w' = initial w" using a[of initial] by (simp add: conn_part_def)
  show "flipped w' = flipped w" using a[of flipped] by (simp add: conn_part_def)
  show "limit w' = limit w" using a[of limit] by (simp add: conn_part_def)
  show "table w' = table w" using a[of table] by (simp add: conn_part_def)
  show "exponents w' = exponents w" using a[of exponents] by (simp add: conn_part_def)
  show "epsilon w' = epsilon w" using a[of epsilon] by (simp add: conn_part_def)
qed

lemma connect_binary_loop_frame:
  "connect_binary_loop brs s w n = (s', w', n') \<Longrightarrow>
     watch_part s' = watch_part s \<and> arena s' = arena s \<and> conn_part w' = conn_part w
     \<and> length (counters w') = length (counters w) \<and> length (refs w') = length (refs w)"
proof (induction brs arbitrary: s w n)
  case Nil
  then show ?case by simp
next
  case (Cons b rest)
  show ?case
  proof (cases "vals s ! fst (binaries w ! b) = 0 \<or> vals s ! snd (binaries w ! b) = 0")
    case True
    then have "connect_binary_loop rest s w n = (s', w', n')"
      using Cons.prems by (simp add: Let_def)
    then show ?thesis by (rule Cons.IH)
  next
    case False
    then obtain s1 w3 where
      r: "connect_binary_loop rest s1 w3 (u32 (n + 1)) = (s', w', n')"
      and f: "watch_part s1 = watch_part s" "arena s1 = arena s" "conn_part w3 = conn_part w"
        "length (counters w3) = length (counters w)" "length (refs w3) = length (refs w)"
      using Cons.prems
      by (simp add: Let_def kissat_push_large_watch_def push_unsat_def split: if_splits)
    show ?thesis using Cons.IH[OF r] f by simp
  qed
qed

lemma connect_literals_frame:
  "connect_literals ls s n c z = (s', c', z') \<Longrightarrow>
     s' = s\<lparr>watches := watch_literals ls n (vals s) (watches s)\<rparr>"
proof (induction ls arbitrary: s c z)
  case Nil
  then show ?case by simp
next
  case (Cons a ls)
  show ?case
  proof (cases "vals s ! a = 0")
    case True
    then show ?thesis using Cons.IH[of s c z] Cons.prems by simp
  next
    case False
    let ?s1 = "kissat_push_large_watch s a n"
    have "connect_literals ls ?s1 n (if 0 < vals s ! a then u32 (c + 1) else c) (u32 (z + 1))
            = (s', c', z')"
      using False Cons.prems by (simp add: Let_def)
    from Cons.IH[OF this] show ?thesis
      using False by (simp add: kissat_push_large_watch_def)
  qed
qed

subsection \<open>Connecting the binary clauses\<close>

lemma make_tagged_ref [simp]:
  "r \<le> MAX_WALK_REF \<Longrightarrow> ref (make_tagged b r) = r"
  "binary (make_tagged b r) = b"
  by (simp_all add: make_tagged_def MAX_WALK_REF_def LD_MAX_WALK_REF_def)

lemma conn_unsat_length:
  assumes "conn n s w"
  shows "length (unsat w) < U32"
proof -
  have i: "index_inv n w" using assms by (simp add: conn_def)
  show ?thesis using index_inv_length[OF i] index_invD(2)[OF i] by simp
qed

lemma store_count:
  fixes c :: nat and cs :: "counter list"
  assumes n: "n < length cs" and u: "length (unsat w) < U32"
  defines "w2 \<equiv> w\<lparr>counters := cs[n := (cs ! n)\<lparr>count := c\<rparr>]\<rparr>"
  defines "w3 \<equiv> (if c = 0 then push_unsat w2 n else w2)"
  shows "length (counters w3) = length cs"
    and "\<And>r. r \<noteq> n \<Longrightarrow> counters w3 ! r = cs ! r"
    and "cnt w3 n = c"
    and "unsat w3 = (if c = 0 then unsat w @ [n] else unsat w)"
    and "c = 0 \<Longrightarrow> pos (counters w3 ! n) = length (unsat w)"
    and "conn_part w3 = conn_part w"
    and "refs w3 = refs w"
  using n u by (simp_all add: w3_def w2_def push_unsat_def cnt_def u32_small)

lemma connect_binary_loop_inv:
  assumes c: "conn n s w"
    and b: "\<forall>b \<in> set brs. b \<le> MAX_WALK_REF \<and> fst (binaries w ! b) < LITS s
              \<and> snd (binaries w ! b) < LITS s"
    and cap: "n + length brs \<le> length (counters w)" "n + length brs \<le> length (refs w)"
      "n + length brs < U32"
    and r: "connect_binary_loop brs s w n = (s', w', n')"
  shows "conn n' s' w' \<and> n' \<le> n + length brs"
  using c b cap r
proof (induction brs arbitrary: s w n)
  case Nil
  then show ?case by simp
next
  case (Cons b rest)
  define first where "first = fst (binaries w ! b)"
  define second where "second = snd (binaries w ! b)"
  have bb: "b \<le> MAX_WALK_REF" "first < LITS s" "second < LITS s"
    and br: "\<forall>b \<in> set rest. b \<le> MAX_WALK_REF \<and> fst (binaries w ! b) < LITS s
              \<and> snd (binaries w ! b) < LITS s"
    using Cons.prems(2) by (simp_all add: first_def second_def)
  show ?case
  proof (cases "vals s ! first = 0 \<or> vals s ! second = 0")
    case True
    then have "connect_binary_loop rest s w n = (s', w', n')"
      using Cons.prems(6) by (simp add: Let_def first_def second_def)
    from Cons.IH[OF Cons.prems(1) br _ _ _ this] Cons.prems(3,4,5)
    show ?thesis by simp
  next
    case False
    define tc where "tc = true_count (vals s) [first, second]"
    define w1 where "w1 = w\<lparr>refs := (refs w)[n := make_tagged True b]\<rparr>"
    define s1 where "s1 = kissat_push_large_watch (kissat_push_large_watch s first n) second n"
    define w2 where "w2 = w1\<lparr>counters := (counters w1)[n := (counters w1 ! n)\<lparr>count := tc\<rparr>]\<rparr>"
    define w3 where "w3 = (if tc = 0 then push_unsat w2 n else w2)"
    have sn: "Suc n < U32" and nc: "n < length (counters w)" and nr: "n < length (refs w)"
      using Cons.prems(3,4,5) by simp_all
    have tc: "tc = (if 0 < vals s ! first then 1 else 0) + (if 0 < vals s ! second then 1 else 0)"
      by (simp add: tc_def)
    have "connect_binary_loop (b # rest) s w n = connect_binary_loop rest s1 w3 (Suc n)"
      using False sn unfolding w3_def w2_def w1_def s1_def tc first_def second_def
      by (simp add: Let_def u32_small)
    then have step: "connect_binary_loop rest s1 w3 (Suc n) = (s', w', n')"
      using Cons.prems(6) by simp
    have ul: "length (unsat w1) < U32" using conn_unsat_length[OF Cons.prems(1)] by (simp add: w1_def)
    have nc1: "n < length (counters w1)" using nc by (simp add: w1_def)
    note S = store_count[where c = tc, OF nc1 ul, folded w2_def, folded w3_def]
    have w1f: "counters w1 = counters w" "unsat w1 = unsat w" "conn_part w1 = conn_part w"
      by (simp_all add: w1_def)
    have rf: "refs w3 = (refs w)[n := make_tagged True b]" using S(7) by (simp add: w1_def)
    have bn: "binaries w3 = binaries w" using conn_part_fields(1)[of w3 w] S(6) w1f(3) by simp
    have s1f: "vals s1 = vals s" "vars s1 = vars s" "arena s1 = arena s"
      by (simp_all add: s1_def kissat_push_large_watch_def)
    have c1: "conn (Suc n) s1 w3"
    proof (rule connect_step[OF Cons.prems(1) nc sn, where ls = "[first, second]"])
      show "\<forall>l \<in> set [first, second]. l < LITS s" using bb by simp
      show "length [first, second] < U32" by (simp add: U32_def)
      show "\<exists>l \<in> set [first, second]. vals s ! l \<noteq> 0" using False by simp
      show "watches s1 = watch_literals [first, second] n (vals s) (watches s)"
        using False by (simp add: s1_def kissat_push_large_watch_def)
      show "vals s1 = vals s" "vars s1 = vars s" by (rule s1f)+
      show "\<And>r. r < n \<Longrightarrow> dereference_literals s1 w3 r = dereference_literals s w r"
        by (simp add: dereference_literals_def Let_def rf bn s1f)
      show "dereference_literals s1 w3 n = [first, second]"
        using nr bb(1) by (simp add: dereference_literals_def Let_def rf bn first_def second_def)
      show "length (counters w3) = length (counters w)" using S(1) w1f by simp
      show "\<And>r. r < n \<Longrightarrow> counters w3 ! r = counters w ! r" using S(2) w1f by simp
      show "cnt w3 n = true_count (vals s) [first, second]" using S(3) by (simp add: tc_def)
      show "unsat w3 = (if true_count (vals s) [first, second] = 0 then unsat w @ [n] else unsat w)"
        using S(4) w1f by (simp add: tc_def)
      show "true_count (vals s) [first, second] = 0 \<Longrightarrow> pos (counters w3 ! n) = length (unsat w)"
        using S(5) w1f by (simp add: tc_def)
    qed
    have br1: "\<forall>b \<in> set rest. b \<le> MAX_WALK_REF \<and> fst (binaries w3 ! b) < LITS s1
              \<and> snd (binaries w3 ! b) < LITS s1"
      using br by (simp add: bn LITS_def s1f)
    have "conn n' s' w' \<and> n' \<le> Suc n + length rest"
    proof (rule Cons.IH[OF c1 br1 _ _ _ step])
      show "Suc n + length rest \<le> length (counters w3)" using Cons.prems(3) S(1) w1f by simp
      show "Suc n + length rest \<le> length (refs w3)" using Cons.prems(4) by (simp add: rf)
      show "Suc n + length rest < U32" using Cons.prems(5) by simp
    qed
    then show ?thesis by simp
  qed
qed

subsection \<open>Connecting the large clauses\<close>

lemma connect_literals_count:
  "connect_literals ls s n c z = (s', c', z') \<Longrightarrow> c + length ls < U32 \<Longrightarrow>
     c' = c + true_count (vals s) ls"
proof (induction ls arbitrary: s c z)
  case Nil
  then show ?case by simp
next
  case (Cons a ls)
  show ?case
  proof (cases "vals s ! a = 0")
    case True
    then show ?thesis using Cons.IH[of s c z] Cons.prems by simp
  next
    case False
    let ?s1 = "kissat_push_large_watch s a n"
    let ?c1 = "if 0 < vals s ! a then u32 (c + 1) else c"
    have r: "connect_literals ls ?s1 n ?c1 (u32 (z + 1)) = (s', c', z')"
      using False Cons.prems by (simp add: Let_def)
    have c1: "?c1 = c + (if 0 < vals s ! a then 1 else 0)"
      using Cons.prems(2) by (simp add: u32_small)
    have "c' = ?c1 + true_count (vals ?s1) ls"
      by (rule Cons.IH[OF r]) (use Cons.prems(2) c1 in simp)
    then show ?thesis using c1 by (simp add: kissat_push_large_watch_def)
  qed
qed

lemma conn_cong:
  assumes "counters w' = counters w" "unsat w' = unsat w" "refs w' = refs w"
    "binaries w' = binaries w" "vals s' = vals s" "watches s' = watches s" "vars s' = vars s"
    "\<And>i. lits (arena s' ! i) = lits (arena s ! i)"
  shows "conn n s' w' = conn n s w"
proof -
  have d: "\<And>r. dereference_literals s' w' r = dereference_literals s w r"
    using assms by (simp add: dereference_literals_def Let_def)
  have i: "index_inv n w' = index_inv n w"
    using assms by (simp add: index_inv_def cnt_def)
  have c: "count_inv n s' w' = count_inv n s w"
    using assms by (simp add: count_inv_def cnt_def d LITS_def)
  show ?thesis unfolding conn_def i c d assms(5) ..
qed

lemma mark_garbage_nth:
  "lits (arena (kissat_mark_clause_as_garbage s i) ! j) = lits (arena s ! j)"
  "j \<noteq> i \<Longrightarrow> arena (kissat_mark_clause_as_garbage s i) ! j = arena s ! j"
  "length (arena (kissat_mark_clause_as_garbage s i)) = length (arena s)"
proof -
  show "lits (arena (kissat_mark_clause_as_garbage s i) ! j) = lits (arena s ! j)"
  proof (cases "i < length (arena s)")
    case True
    then show ?thesis
      by (cases "j = i") (simp_all add: kissat_mark_clause_as_garbage_def)
  next
    case False
    then show ?thesis
      by (simp add: kissat_mark_clause_as_garbage_def list_update_beyond not_less)
  qed
qed (simp_all add: kissat_mark_clause_as_garbage_def)

lemma large_cong:
  assumes "vals s' = vals s" "vars s' = vars s" "last_irredundant s' = last_irredundant s"
    "arena s' ! j = arena s ! j"
  shows "connectable s' sv j = connectable s sv j" "clause_ok s' j = clause_ok s j"
    "irredundant_live s' j = irredundant_live s j"
  using assms by (simp_all add: connectable_def clause_ok_def irredundant_live_def LITS_def)

lemma filter_length_cong:
  "(\<And>x. x \<in> set xs \<Longrightarrow> P x = Q x) \<Longrightarrow> length (filter P xs) = length (filter Q xs)"
  by (induction xs) simp_all

lemma connect_large_loop_stop:
  "last_irredundant s \<noteq> INVALID_REF \<and> last_irredundant s < i \<Longrightarrow>
     connect_large_loop (i # rest) s w n = (s, w, n)"
  by (simp add: Let_def)

lemma connect_large_loop_skip:
  assumes "\<not> (last_irredundant s \<noteq> INVALID_REF \<and> last_irredundant s < i)"
    and "garbage (arena s ! i) \<or> redundant (arena s ! i)"
  shows "connect_large_loop (i # rest) s w n = connect_large_loop rest s w n"
proof -
  have e: "(last_irredundant s \<noteq> INVALID_REF \<and> last_irredundant s < i) = False"
    using assms(1) by blast
  show ?thesis
  proof (cases "garbage (arena s ! i)")
    case True
    then show ?thesis unfolding connect_large_loop.simps Let_def e by simp
  next
    case False
    then have "redundant (arena s ! i)" using assms(2) by simp
    then show ?thesis unfolding connect_large_loop.simps Let_def e by simp
  qed
qed

lemma connect_large_loop_sat:
  assumes "\<not> (last_irredundant s \<noteq> INVALID_REF \<and> last_irredundant s < i)"
    and "\<not> (garbage (arena s ! i) \<or> redundant (arena s ! i))"
    and "\<exists>l \<in> set (lits (arena s ! i)). 0 < saved w ! l"
  shows "connect_large_loop (i # rest) s w n
           = connect_large_loop rest (kissat_mark_clause_as_garbage s i) w n"
proof -
  have e: "(last_irredundant s \<noteq> INVALID_REF \<and> last_irredundant s < i) = False"
    using assms(1) by blast
  have g: "\<not> garbage (arena s ! i)" "\<not> redundant (arena s ! i)" using assms(2) by simp_all
  show ?thesis using g assms(3) unfolding connect_large_loop.simps Let_def e by simp
qed

lemma connect_large_loop_con:
  assumes "\<not> (last_irredundant s \<noteq> INVALID_REF \<and> last_irredundant s < i)"
    and "\<not> (garbage (arena s ! i) \<or> redundant (arena s ! i))"
    and "\<not> (\<exists>l \<in> set (lits (arena s ! i)). 0 < saved w ! l)"
    and "connect_literals (lits (arena s ! i)) s n 0 0 = (s1, tc, sz)"
  shows "connect_large_loop (i # rest) s w n
           = connect_large_loop rest s1
               ((if tc = 0
                 then push_unsat (w\<lparr>refs := (refs w)[n := make_tagged False i],
                        counters := (counters w)[n := (counters w ! n)\<lparr>count := tc\<rparr>]\<rparr>) n
                 else w\<lparr>refs := (refs w)[n := make_tagged False i],
                        counters := (counters w)[n := (counters w ! n)\<lparr>count := tc\<rparr>]\<rparr>)
                \<lparr>size_avg := fadd (size_avg w) (dbl (of_nat sz))\<rparr>)
               (u32 (n + 1))"
proof -
  have e0: "(last_irredundant s \<noteq> INVALID_REF \<and> last_irredundant s < i) = False"
    using assms(1) by blast
  have g: "\<not> garbage (arena s ! i)" "\<not> redundant (arena s ! i)" using assms(2) by simp_all
  have e: "(\<exists>l \<in> set (lits (arena s ! i)). 0 < saved w ! l) = False" using assms(3) by simp
  show ?thesis using g assms(4) unfolding connect_large_loop.simps Let_def e e0
    by (simp add: push_unsat_def)
qed

lemma connect_large_loop_inv:
  assumes c: "conn n s w"
    and ix: "distinct ixs"
    and ok: "\<forall>i \<in> set ixs. connectable s (saved w) i \<longrightarrow> clause_ok s i"
    and cap: "n + length (filter (irredundant_live s) ixs) \<le> length (counters w)"
      "n + length (filter (irredundant_live s) ixs) \<le> length (refs w)"
      "n + length (filter (irredundant_live s) ixs) < U32"
    and r: "connect_large_loop ixs s w n = (s', w', n')"
  shows "conn n' s' w'"
  using c ix ok cap r
proof (induction ixs arbitrary: s w n)
  case Nil
  then show ?case by simp
next
  case (Cons i rest)
  define c where "c = arena s ! i"
  have ni: "i \<notin> set rest" and dr: "distinct rest" using Cons.prems(2) by simp_all
  show ?case
  proof (cases "last_irredundant s \<noteq> INVALID_REF \<and> last_irredundant s < i")
    case True
    then have "(s', w', n') = (s, w, n)"
      using Cons.prems(7) connect_large_loop_stop[of s i rest w n] by simp
    then show ?thesis using Cons.prems(1) by simp
  next
    case A: False
    show ?thesis
    proof (cases "garbage c \<or> redundant c")
      case True
      then have r: "connect_large_loop rest s w n = (s', w', n')"
        using connect_large_loop_skip[OF A True[unfolded c_def], of rest w n] Cons.prems(7) by simp
      have f: "filter (irredundant_live s) (i # rest) = filter (irredundant_live s) rest"
        using True by (simp add: irredundant_live_def c_def)
      show ?thesis
        using Cons.IH[OF Cons.prems(1) dr _ _ _ _ r] Cons.prems(3,4,5,6) unfolding f by simp
    next
      case B: False
      then have live: "irredundant_live s i" by (simp add: irredundant_live_def c_def)
      have f: "length (filter (irredundant_live s) (i # rest))
                 = Suc (length (filter (irredundant_live s) rest))"
        using live by simp
      show ?thesis
      proof (cases "\<exists>l \<in> set (lits c). 0 < saved w ! l")
        case True
        define s1 where "s1 = kissat_mark_clause_as_garbage s i"
        have r: "connect_large_loop rest s1 w n = (s', w', n')"
          using connect_large_loop_sat[OF A B[unfolded c_def] True[unfolded c_def], of rest n]
            Cons.prems(7)
          by (simp add: s1_def)
        have s1f: "vals s1 = vals s" "vars s1 = vars s" "watches s1 = watches s"
          "last_irredundant s1 = last_irredundant s"
          by (simp_all add: s1_def kissat_mark_clause_as_garbage_def)
        have c1: "conn n s1 w"
          using Cons.prems(1) conn_cong[of w w s1 s n] s1f mark_garbage_nth(1)[of s i]
          by (simp add: s1_def)
        have eq: "\<And>j. j \<in> set rest \<Longrightarrow> arena s1 ! j = arena s ! j"
        proof -
          fix j assume "j \<in> set rest"
          then have "j \<noteq> i" using ni by auto
          then show "arena s1 ! j = arena s ! j" unfolding s1_def by (rule mark_garbage_nth(2))
        qed
        have ok1: "\<forall>j \<in> set rest. connectable s1 (saved w) j \<longrightarrow> clause_ok s1 j"
          using Cons.prems(3) large_cong[OF s1f(1,2,4) eq] by simp
        have fl: "length (filter (irredundant_live s1) rest)
                    = length (filter (irredundant_live s) rest)"
          by (rule filter_length_cong) (rule large_cong(3)[OF s1f(1,2,4) eq])
        show ?thesis
          using Cons.IH[OF c1 dr ok1 _ _ _ r] Cons.prems(4,5,6) unfolding f fl by simp
      next
        case C: False
        have cn: "connectable s (saved w) i"
          using A B C by (auto simp: connectable_def c_def)
        then have "clause_ok s i" using Cons.prems(3) by simp
        then have ck: "i \<le> MAX_WALK_REF" "\<forall>l \<in> set (lits c). l < LITS s"
          "length (lits c) < U32" "\<exists>l \<in> set (lits c). vals s ! l \<noteq> 0"
          by (simp_all add: clause_ok_def c_def)
        obtain s1 tc sz where cl: "connect_literals (lits c) s n 0 0 = (s1, tc, sz)"
          by (metis prod_cases3)
        have s1: "s1 = s\<lparr>watches := watch_literals (lits c) n (vals s) (watches s)\<rparr>"
          by (rule connect_literals_frame[OF cl])
        have tc: "tc = true_count (vals s) (lits c)"
          using connect_literals_count[OF cl] ck(3) by simp
        define w1 where "w1 = w\<lparr>refs := (refs w)[n := make_tagged False i]\<rparr>"
        define w2 where "w2 = w1\<lparr>counters := (counters w1)[n := (counters w1 ! n)\<lparr>count := tc\<rparr>]\<rparr>"
        define w3 where "w3 = (if tc = 0 then push_unsat w2 n else w2)"
        define w4 where "w4 = w3\<lparr>size_avg := fadd (size_avg w3) (dbl (of_nat sz))\<rparr>"
        have sn: "Suc n < U32" and nc: "n < length (counters w)" and nr: "n < length (refs w)"
          using Cons.prems(4,5,6) unfolding f by simp_all
        have w4: "w4 = (if tc = 0
                 then push_unsat (w\<lparr>refs := (refs w)[n := make_tagged False i],
                        counters := (counters w)[n := (counters w ! n)\<lparr>count := tc\<rparr>]\<rparr>) n
                 else w\<lparr>refs := (refs w)[n := make_tagged False i],
                        counters := (counters w)[n := (counters w ! n)\<lparr>count := tc\<rparr>]\<rparr>)
                \<lparr>size_avg := fadd (size_avg w) (dbl (of_nat sz))\<rparr>"
          unfolding w4_def w3_def w2_def w1_def by (simp add: push_unsat_def)
        have "connect_large_loop (i # rest) s w n = connect_large_loop rest s1 w4 (Suc n)"
          using connect_large_loop_con[OF A B[unfolded c_def] C[unfolded c_def]
              cl[unfolded c_def], of rest] sn
          unfolding w4 by (simp add: u32_small)
        then have r: "connect_large_loop rest s1 w4 (Suc n) = (s', w', n')"
          using Cons.prems(7) by simp
        have ul: "length (unsat w1) < U32"
          using conn_unsat_length[OF Cons.prems(1)] by (simp add: w1_def)
        have nc1: "n < length (counters w1)" using nc by (simp add: w1_def)
        note S = store_count[where c = tc, OF nc1 ul, folded w2_def, folded w3_def]
        have w1f: "counters w1 = counters w" "unsat w1 = unsat w" "conn_part w1 = conn_part w"
          by (simp_all add: w1_def)
        have w4f: "counters w4 = counters w3" "unsat w4 = unsat w3" "refs w4 = refs w3"
          "conn_part w4 = conn_part w3"
          by (simp_all add: w4_def)
        have rf: "refs w4 = (refs w)[n := make_tagged False i]"
          using S(7) w4f by (simp add: w1_def)
        have cp: "conn_part w4 = conn_part w" using S(6) w4f w1f by simp
        note bn = conn_part_fields(1,3)[OF cp]
        have s1f: "vals s1 = vals s" "vars s1 = vars s" "arena s1 = arena s"
          "last_irredundant s1 = last_irredundant s"
          by (simp_all add: s1)
        have c1: "conn (Suc n) s1 w4"
        proof (rule connect_step[OF Cons.prems(1) nc sn, where ls = "lits c"])
          show "\<forall>l \<in> set (lits c). l < LITS s" by (rule ck(2))
          show "length (lits c) < U32" by (rule ck(3))
          show "\<exists>l \<in> set (lits c). vals s ! l \<noteq> 0" by (rule ck(4))
          show "watches s1 = watch_literals (lits c) n (vals s) (watches s)" by (simp add: s1)
          show "vals s1 = vals s" "vars s1 = vars s" by (rule s1f)+
          show "\<And>r. r < n \<Longrightarrow> dereference_literals s1 w4 r = dereference_literals s w r"
            by (simp add: dereference_literals_def Let_def rf bn s1f)
          show "dereference_literals s1 w4 n = lits c"
            using nr ck(1) by (simp add: dereference_literals_def Let_def rf bn s1f c_def)
          show "length (counters w4) = length (counters w)" using S(1) w1f w4f by simp
          show "\<And>r. r < n \<Longrightarrow> counters w4 ! r = counters w ! r" using S(2) w1f w4f by simp
          show "cnt w4 n = true_count (vals s) (lits c)"
            using S(3) w4f by (simp add: tc cnt_def)
          show "unsat w4 = (if true_count (vals s) (lits c) = 0 then unsat w @ [n] else unsat w)"
            using S(4) w1f w4f by (simp add: tc)
          show "true_count (vals s) (lits c) = 0 \<Longrightarrow> pos (counters w4 ! n) = length (unsat w)"
            using S(5) w1f w4f by (simp add: tc)
        qed
        have ok1: "\<forall>j \<in> set rest. connectable s1 (saved w4) j \<longrightarrow> clause_ok s1 j"
          using Cons.prems(3) large_cong[OF s1f(1,2,4)] s1f(3) bn(2) by simp
        have fl: "length (filter (irredundant_live s1) rest)
                    = length (filter (irredundant_live s) rest)"
          by (rule filter_length_cong) (rule large_cong(3)[OF s1f(1,2,4)], simp add: s1f)
        show ?thesis
        proof (rule Cons.IH[OF c1 dr ok1 _ _ _ r])
          show "Suc n + length (filter (irredundant_live s1) rest) \<le> length (counters w4)"
            using Cons.prems(4) S(1) w1f w4f unfolding f fl by simp
          show "Suc n + length (filter (irredundant_live s1) rest) \<le> length (refs w4)"
            using Cons.prems(5) unfolding f fl by (simp add: rf)
          show "Suc n + length (filter (irredundant_live s1) rest) < U32"
            using Cons.prems(6) unfolding f fl by simp
        qed
      qed
    qed
  qed
qed

lemma connect_large_loop_frame:
  "connect_large_loop ixs s w n = (s', w', n') \<Longrightarrow>
     watch_part s' = watch_part s \<and> conn_part w' = conn_part w
     \<and> (\<forall>i. garbage (arena s' ! i) \<longrightarrow> garbage (arena s ! i)
            \<or> (\<exists>l \<in> set (lits (arena s ! i)). 0 < saved w ! l))"
proof (induction ixs arbitrary: s w n)
  case Nil
  then show ?case by simp
next
  case (Cons i rest)
  define c where "c = arena s ! i"
  consider (stop) "last_irredundant s \<noteq> INVALID_REF \<and> last_irredundant s < i"
    | (skip) "\<not> (last_irredundant s \<noteq> INVALID_REF \<and> last_irredundant s < i)"
        "garbage c \<or> redundant c"
    | (sat) "\<not> (last_irredundant s \<noteq> INVALID_REF \<and> last_irredundant s < i)"
        "\<not> (garbage c \<or> redundant c)" "\<exists>l \<in> set (lits c). 0 < saved w ! l"
    | (con) "\<not> (last_irredundant s \<noteq> INVALID_REF \<and> last_irredundant s < i)"
        "\<not> (garbage c \<or> redundant c)" "\<not> (\<exists>l \<in> set (lits c). 0 < saved w ! l)"
    by blast
  then show ?case
  proof cases
    case stop
    then have "(s', w', n') = (s, w, n)"
      using Cons.prems connect_large_loop_stop[of s i rest w n] by simp
    then show ?thesis by simp
  next
    case skip
    then have "connect_large_loop rest s w n = (s', w', n')"
      using Cons.prems connect_large_loop_skip[OF skip(1) skip(2)[unfolded c_def], of rest w n]
      by simp
    then show ?thesis by (rule Cons.IH)
  next
    case sat
    define s1 where "s1 = kissat_mark_clause_as_garbage s i"
    have "connect_large_loop rest s1 w n = (s', w', n')"
      using Cons.prems
        connect_large_loop_sat[OF sat(1) sat(2)[unfolded c_def] sat(3)[unfolded c_def], of rest n]
      by (simp add: s1_def)
    note H = Cons.IH[OF this]
    have g: "\<And>j. garbage (arena s1 ! j) \<Longrightarrow> garbage (arena s ! j) \<or> j = i"
      using mark_garbage_nth(2)[of _ i s] unfolding s1_def by metis
    have l: "\<And>j. lits (arena s1 ! j) = lits (arena s ! j)"
      unfolding s1_def by (rule mark_garbage_nth(1))
    show ?thesis
    proof (intro conjI allI impI)
      show "watch_part s' = watch_part s" using H by (simp add: s1_def)
      show "conn_part w' = conn_part w" using H by simp
      fix j assume "garbage (arena s' ! j)"
      then have "garbage (arena s1 ! j) \<or> (\<exists>l \<in> set (lits (arena s1 ! j)). 0 < saved w ! l)"
        using H by blast
      then show "garbage (arena s ! j) \<or> (\<exists>l \<in> set (lits (arena s ! j)). 0 < saved w ! l)"
        using g[of j] l sat(3) unfolding c_def by auto
    qed
  next
    case con
    obtain s1 tc sz where cl: "connect_literals (lits c) s n 0 0 = (s1, tc, sz)"
      by (metis prod_cases3)
    have s1: "s1 = s\<lparr>watches := watch_literals (lits c) n (vals s) (watches s)\<rparr>"
      by (rule connect_literals_frame[OF cl])
    define w1 where "w1 = w\<lparr>refs := (refs w)[n := make_tagged False i]\<rparr>"
    define w2 where "w2 = w1\<lparr>counters := (counters w1)[n := (counters w1 ! n)\<lparr>count := tc\<rparr>]\<rparr>"
    define w3 where "w3 = (if tc = 0 then push_unsat w2 n else w2)"
    define w4 where "w4 = w3\<lparr>size_avg := fadd (size_avg w3) (dbl (of_nat sz))\<rparr>"
    have w4: "w4 = (if tc = 0
                 then push_unsat (w\<lparr>refs := (refs w)[n := make_tagged False i],
                        counters := (counters w)[n := (counters w ! n)\<lparr>count := tc\<rparr>]\<rparr>) n
                 else w\<lparr>refs := (refs w)[n := make_tagged False i],
                        counters := (counters w)[n := (counters w ! n)\<lparr>count := tc\<rparr>]\<rparr>)
                \<lparr>size_avg := fadd (size_avg w) (dbl (of_nat sz))\<rparr>"
      unfolding w4_def w3_def w2_def w1_def by (simp add: push_unsat_def)
    have "connect_large_loop (i # rest) s w n = connect_large_loop rest s1 w4 (u32 (n + 1))"
      using connect_large_loop_con[OF con(1) con(2)[unfolded c_def] con(3)[unfolded c_def]
          cl[unfolded c_def], of rest]
      unfolding w4 by simp
    then have "connect_large_loop rest s1 w4 (u32 (n + 1)) = (s', w', n')"
      using Cons.prems by simp
    note H = Cons.IH[OF this]
    have cp: "conn_part w4 = conn_part w" by (simp add: w4_def w3_def w2_def w1_def)
    have sv: "saved w4 = saved w" by (rule conn_part_fields(3)[OF cp])
    have wp: "watch_part s1 = watch_part s" "arena s1 = arena s" by (simp_all add: s1)
    show ?thesis using H cp wp sv by simp
  qed
qed

subsection \<open>Importing the decision phases\<close>

lemma import_phase_vals:
  "LIT idx < length (vals s) \<Longrightarrow> vals (import_phase s idx) =
     (if active s ! idx
      then (vals s)[LIT idx := vals (import_phase s idx) ! LIT idx,
                    NOT_lit (LIT idx) := - vals (import_phase s idx) ! LIT idx]
      else vals s)"
  "active s ! idx \<Longrightarrow> length (vals s) = LITS s \<Longrightarrow> idx < vars s \<Longrightarrow> initial_phase s \<noteq> 0 \<Longrightarrow>
     vals (import_phase s idx) ! LIT idx \<noteq> 0"
  "phase_part (host_part (import_phase s idx)) = phase_part (host_part s)"
proof -
  have n: "NOT_lit (LIT idx) \<noteq> LIT idx" by simp
  show "LIT idx < length (vals s) \<Longrightarrow> vals (import_phase s idx) =
     (if active s ! idx
      then (vals s)[LIT idx := vals (import_phase s idx) ! LIT idx,
                    NOT_lit (LIT idx) := - vals (import_phase s idx) ! LIT idx]
      else vals s)"
    using n by (simp add: import_phase_def Let_def)
  show "active s ! idx \<Longrightarrow> length (vals s) = LITS s \<Longrightarrow> idx < vars s \<Longrightarrow> initial_phase s \<noteq> 0 \<Longrightarrow>
     vals (import_phase s idx) ! LIT idx \<noteq> 0"
    using n by (simp add: import_phase_def Let_def LITS_def LIT_def)
  show "phase_part (host_part (import_phase s idx)) = phase_part (host_part s)"
    by (simp add: import_phase_def Let_def host_part_def phase_part_def)
qed

lemma host_phase_fields:
  assumes "phase_part (host_part s') = phase_part (host_part s)"
  shows "vars s' = vars s" "active s' = active s" "initial_phase s' = initial_phase s"
    "watches s' = watches s" "arena s' = arena s" "last_irredundant s' = last_irredundant s"
    "binirr_clauses s' = binirr_clauses s" "pol_activity s' = pol_activity s"
    "phases_target s' = phases_target s" "frame s' = frame s" "random_seed s' = random_seed s"
    "stable s' = stable s" "option_warmup s' = option_warmup s"
proof -
  have a: "\<And>f. f (phase_part (host_part s')) = f (phase_part (host_part s))"
    using assms by simp
  show "vars s' = vars s" using a[of vars] by (simp add: phase_part_def host_part_def)
  show "active s' = active s" using a[of active] by (simp add: phase_part_def host_part_def)
  show "initial_phase s' = initial_phase s"
    using a[of initial_phase] by (simp add: phase_part_def host_part_def)
  show "watches s' = watches s" using a[of watches] by (simp add: phase_part_def host_part_def)
  show "arena s' = arena s" using a[of arena] by (simp add: phase_part_def host_part_def)
  show "last_irredundant s' = last_irredundant s"
    using a[of last_irredundant] by (simp add: phase_part_def host_part_def)
  show "binirr_clauses s' = binirr_clauses s"
    using a[of binirr_clauses] by (simp add: phase_part_def host_part_def)
  show "pol_activity s' = pol_activity s"
    using a[of pol_activity] by (simp add: phase_part_def host_part_def)
  show "phases_target s' = phases_target s"
    using a[of phases_target] by (simp add: phase_part_def host_part_def)
  show "frame s' = frame s" using a[of frame] by (simp add: phase_part_def host_part_def)
  show "random_seed s' = random_seed s"
    using a[of random_seed] by (simp add: phase_part_def host_part_def)
  show "stable s' = stable s" using a[of stable] by (simp add: phase_part_def host_part_def)
  show "option_warmup s' = option_warmup s"
    using a[of option_warmup] by (simp add: phase_part_def host_part_def)
qed

lemma IDX_cases: "IDX l = idx \<longleftrightarrow> l = LIT idx \<or> l = NOT_lit (LIT idx)"
  by (auto simp: IDX_def LIT_def NOT_lit_def)

lemma LIT_bound: "idx < vars s \<Longrightarrow> LIT idx < LITS s"
  by (simp add: LIT_def LITS_def)

lemma import_phase_ok:
  assumes a: "assignment_ok s" and i: "idx < vars s" and p: "initial_phase s \<noteq> 0"
  shows "assignment_ok (import_phase s idx)"
    and "\<forall>l<LITS s. vals s ! l \<noteq> 0 \<or> (IDX l = idx \<and> active s ! idx)
           \<longrightarrow> vals (import_phase s idx) ! l \<noteq> 0"
proof -
  let ?s = "import_phase s idx"
  let ?a = "LIT idx"
  let ?b = "NOT_lit (LIT idx)"
  have lv: "length (vals s) = LITS s" and ng: "\<And>l. l < LITS s \<Longrightarrow> vals s ! NOT_lit l = - vals s ! l"
    using a by (simp_all add: assignment_ok_def)
  have al: "?a < LITS s" by (rule LIT_bound[OF i])
  have bl: "?b < LITS s" by (rule NOT_lit_bound[OF al])
  have L: "LITS ?s = LITS s"
    using host_phase_fields(1)[OF import_phase_vals(3)[of s idx]] by (simp add: LITS_def)
  show "assignment_ok ?s"
  proof (cases "active s ! idx")
    case False
    then have "?s = s" by (simp add: import_phase_def)
    then show ?thesis using a by simp
  next
    case True
    define v where "v = vals ?s ! ?a"
    have vs: "vals ?s = (vals s)[?a := v, ?b := - v]"
      using import_phase_vals(1)[of idx s] True al lv by (simp add: v_def)
    show ?thesis unfolding assignment_ok_def L
    proof (intro conjI allI impI)
      show "length (vals ?s) = LITS s" using lv by (simp add: vs)
      fix l assume l: "l < LITS s"
      consider "l = ?a" | "l = ?b" | "l \<noteq> ?a" "l \<noteq> ?b" by blast
      then show "vals ?s ! NOT_lit l = - vals ?s ! l"
      proof cases
        case 1
        then show ?thesis using al bl lv by (simp add: vs)
      next
        case 2
        then show ?thesis using al bl lv by (simp add: vs)
      next
        case 3
        then have "NOT_lit l \<noteq> ?a" "NOT_lit l \<noteq> ?b"
          by (metis NOT_lit_involution)+
        then show ?thesis using 3 ng[OF l] by (simp add: vs)
      qed
    qed
  qed
  show "\<forall>l<LITS s. vals s ! l \<noteq> 0 \<or> (IDX l = idx \<and> active s ! idx)
           \<longrightarrow> vals ?s ! l \<noteq> 0"
  proof (cases "active s ! idx")
    case False
    then have "?s = s" by (simp add: import_phase_def)
    then show ?thesis using False by simp
  next
    case True
    define v where "v = vals ?s ! ?a"
    have vs: "vals ?s = (vals s)[?a := v, ?b := - v]"
      using import_phase_vals(1)[of idx s] True al lv by (simp add: v_def)
    have v0: "v \<noteq> 0" using import_phase_vals(2)[OF True lv i p] by (simp add: v_def)
    show ?thesis
    proof (intro allI impI)
      fix l assume l: "l < LITS s" and h: "vals s ! l \<noteq> 0 \<or> (IDX l = idx \<and> active s ! idx)"
      consider "l = ?a" | "l = ?b" | "l \<noteq> ?a" "l \<noteq> ?b" by blast
      then show "vals ?s ! l \<noteq> 0"
      proof cases
        case 1
        then show ?thesis using al bl lv v0 by (simp add: vs)
      next
        case 2
        then show ?thesis using al bl lv v0 by (simp add: vs)
      next
        case 3
        then have "IDX l \<noteq> idx" by (simp add: IDX_cases)
        then show ?thesis using 3 h by (simp add: vs)
      qed
    qed
  qed
qed

lemma import_loop_ok:
  assumes "assignment_ok s" "\<forall>idx \<in> set idxs. idx < vars s" "initial_phase s \<noteq> 0"
  shows "assignment_ok (import_decision_phases_loop idxs s)
     \<and> (\<forall>l<LITS s. vals s ! l \<noteq> 0 \<or> (IDX l \<in> set idxs \<and> active s ! IDX l)
           \<longrightarrow> vals (import_decision_phases_loop idxs s) ! l \<noteq> 0)
     \<and> phase_part (host_part (import_decision_phases_loop idxs s)) = phase_part (host_part s)"
  using assms
proof (induction idxs arbitrary: s)
  case Nil
  then show ?case by simp
next
  case (Cons idx rest)
  let ?s1 = "import_phase s idx"
  have i: "idx < vars s" using Cons.prems(2) by simp
  note P = import_phase_ok[OF Cons.prems(1) i Cons.prems(3)]
  note F = host_phase_fields[OF import_phase_vals(3)[of s idx]]
  have L: "LITS ?s1 = LITS s" using F(1) by (simp add: LITS_def)
  have H: "assignment_ok (import_decision_phases_loop rest ?s1)
     \<and> (\<forall>l<LITS ?s1. vals ?s1 ! l \<noteq> 0 \<or> (IDX l \<in> set rest \<and> active ?s1 ! IDX l)
           \<longrightarrow> vals (import_decision_phases_loop rest ?s1) ! l \<noteq> 0)
     \<and> phase_part (host_part (import_decision_phases_loop rest ?s1)) = phase_part (host_part ?s1)"
    by (rule Cons.IH[OF P(1)]) (use Cons.prems(2,3) F in simp_all)
  show ?case
  proof (intro conjI allI impI)
    show "assignment_ok (import_decision_phases_loop (idx # rest) s)" using H by simp
    show "phase_part (host_part (import_decision_phases_loop (idx # rest) s))
            = phase_part (host_part s)"
      using H import_phase_vals(3)[of s idx] by simp
    fix l assume l: "l < LITS s"
      and h: "vals s ! l \<noteq> 0 \<or> (IDX l \<in> set (idx # rest) \<and> active s ! IDX l)"
    have "vals ?s1 ! l \<noteq> 0 \<or> (IDX l \<in> set rest \<and> active ?s1 ! IDX l)"
      using h P(2) l F(2) by auto
    then show "vals (import_decision_phases_loop (idx # rest) s) ! l \<noteq> 0"
      using H l L by simp
  qed
qed

lemma import_decision_phases_ok:
  assumes "initial_phase s \<noteq> 0"
  defines "s0 \<equiv> s\<lparr>vals := replicate (LITS s) 0, pol_activity := replicate (LITS s) 0\<rparr>"
  shows "assignment_ok (import_decision_phases s0)"
    and "\<And>l. l < LITS s \<Longrightarrow> active s ! IDX l \<Longrightarrow> vals (import_decision_phases s0) ! l \<noteq> 0"
    and "phase_part (host_part (import_decision_phases s0)) = phase_part (host_part s0)"
proof -
  let ?s1 = "inc_walk_decisions s0"
  have a: "assignment_ok ?s1"
    by (simp add: assignment_ok_def s0_def inc_walk_decisions_def LITS_def NOT_lit_bound[unfolded LITS_def])
  have b: "\<forall>idx \<in> set [0..<vars ?s1]. idx < vars ?s1" by simp
  have c: "initial_phase ?s1 \<noteq> 0" using assms(1) by (simp add: s0_def inc_walk_decisions_def)
  have e: "import_decision_phases s0 = import_decision_phases_loop [0..<vars ?s1] ?s1"
    by (simp add: import_decision_phases_def inc_walk_decisions_def)
  note M = import_loop_ok[OF a b c, folded e]
  have f: "LITS ?s1 = LITS s" "vars ?s1 = vars s" "active ?s1 = active s"
    by (simp_all add: s0_def inc_walk_decisions_def LITS_def)
  show "assignment_ok (import_decision_phases s0)" using M by simp
  show "phase_part (host_part (import_decision_phases s0)) = phase_part (host_part s0)"
    using M by (simp add: inc_walk_decisions_def)
  show "\<And>l. l < LITS s \<Longrightarrow> active s ! IDX l \<Longrightarrow> vals (import_decision_phases s0) ! l \<noteq> 0"
  proof -
    fix l assume l: "l < LITS s" "active s ! IDX l"
    have "IDX l < vars s" using l(1) by (simp add: IDX_def LITS_def)
    then show "vals (import_decision_phases s0) ! l \<noteq> 0"
      using M l by (simp add: f)
  qed
qed

subsection \<open>The walker after its set-up\<close>

lemma connect_binary_loop_size:
  "connect_binary_loop brs s w n = (s', w', n') \<Longrightarrow> size_avg w' = size_avg w"
proof (induction brs arbitrary: s w n)
  case Nil
  then show ?case by simp
next
  case (Cons b rest)
  show ?case
  proof (cases "vals s ! fst (binaries w ! b) = 0 \<or> vals s ! snd (binaries w ! b) = 0")
    case True
    then have "connect_binary_loop rest s w n = (s', w', n')"
      using Cons.prems by (simp add: Let_def)
    then show ?thesis by (rule Cons.IH)
  next
    case False
    then obtain s1 w3 where
      r: "connect_binary_loop rest s1 w3 (u32 (n + 1)) = (s', w', n')"
      and f: "size_avg w3 = size_avg w"
      using Cons.prems
      by (simp add: Let_def kissat_push_large_watch_def push_unsat_def split: if_splits)
    show ?thesis using Cons.IH[OF r] f by simp
  qed
qed

lemma connect_large_loop_size:
  "connect_large_loop ixs s w n = (s', w', n') \<Longrightarrow> 0 \<le> size_avg w \<Longrightarrow> 0 \<le> size_avg w'"
proof (induction ixs arbitrary: s w n)
  case Nil
  then show ?case by simp
next
  case (Cons i rest)
  define c where "c = arena s ! i"
  consider (stop) "last_irredundant s \<noteq> INVALID_REF \<and> last_irredundant s < i"
    | (skip) "\<not> (last_irredundant s \<noteq> INVALID_REF \<and> last_irredundant s < i)"
        "garbage c \<or> redundant c"
    | (sat) "\<not> (last_irredundant s \<noteq> INVALID_REF \<and> last_irredundant s < i)"
        "\<not> (garbage c \<or> redundant c)" "\<exists>l \<in> set (lits c). 0 < saved w ! l"
    | (con) "\<not> (last_irredundant s \<noteq> INVALID_REF \<and> last_irredundant s < i)"
        "\<not> (garbage c \<or> redundant c)" "\<not> (\<exists>l \<in> set (lits c). 0 < saved w ! l)"
    by blast
  then show ?case
  proof cases
    case stop
    then have "(s', w', n') = (s, w, n)"
      using Cons.prems connect_large_loop_stop[of s i rest w n] by simp
    then show ?thesis using Cons.prems(2) by simp
  next
    case skip
    then have "connect_large_loop rest s w n = (s', w', n')"
      using Cons.prems connect_large_loop_skip[OF skip(1) skip(2)[unfolded c_def], of rest w n]
      by simp
    then show ?thesis using Cons.prems(2) by (rule Cons.IH)
  next
    case sat
    have "connect_large_loop rest (kissat_mark_clause_as_garbage s i) w n = (s', w', n')"
      using Cons.prems
        connect_large_loop_sat[OF sat(1) sat(2)[unfolded c_def] sat(3)[unfolded c_def], of rest n]
      by simp
    then show ?thesis using Cons.prems(2) by (rule Cons.IH)
  next
    case con
    obtain s1 tc sz where cl: "connect_literals (lits c) s n 0 0 = (s1, tc, sz)"
      by (metis prod_cases3)
    note E = connect_large_loop_con[OF con(1) con(2)[unfolded c_def] con(3)[unfolded c_def]
          cl[unfolded c_def], of rest]
    show ?thesis
    proof (rule Cons.IH)
      show "connect_large_loop rest s1
              ((if tc = 0
                 then push_unsat (w\<lparr>refs := (refs w)[n := make_tagged False i],
                        counters := (counters w)[n := (counters w ! n)\<lparr>count := tc\<rparr>]\<rparr>) n
                 else w\<lparr>refs := (refs w)[n := make_tagged False i],
                        counters := (counters w)[n := (counters w ! n)\<lparr>count := tc\<rparr>]\<rparr>)
                \<lparr>size_avg := fadd (size_avg w) (dbl (of_nat sz))\<rparr>)
               (u32 (n + 1)) = (s', w', n')"
        using E Cons.prems(1) by simp
      have "0 \<le> size_avg w + dbl (of_nat sz)" using Cons.prems(2) dbl_nonneg[of "of_nat sz"] by simp
      then show "0 \<le> size_avg ((if tc = 0
                 then push_unsat (w\<lparr>refs := (refs w)[n := make_tagged False i],
                        counters := (counters w)[n := (counters w ! n)\<lparr>count := tc\<rparr>]\<rparr>) n
                 else w\<lparr>refs := (refs w)[n := make_tagged False i],
                        counters := (counters w)[n := (counters w ! n)\<lparr>count := tc\<rparr>]\<rparr>)
                \<lparr>size_avg := fadd (size_avg w) (dbl (of_nat sz))\<rparr>)"
        by (simp add: fadd_def dbl_nonneg)
    qed
  qed
qed

lemma kissat_average_nonneg: "0 \<le> a \<Longrightarrow> 0 \<le> kissat_average a b"
  by (simp add: kissat_average_def fdiv_def dbl_nonneg)

lemma filter_index_length:
  "length (filter (\<lambda>i. P (xs ! i)) [0..<length xs]) = length (filter P xs)"
proof -
  have "filter P xs = filter P (map (nth xs) [0..<length xs])" by (simp add: map_nth)
  also have "\<dots> = map (nth xs) (filter (P \<circ> nth xs) [0..<length xs])" by (rule filter_map)
  finally have "length (filter P xs) = length (filter (P \<circ> nth xs) [0..<length xs])" by simp
  then show ?thesis by (simp add: comp_def)
qed

lemma host_okD:
  assumes "host_ok s bins"
  shows "binirr_clauses s \<le> MAX_WALK_REF"
    and "last_irredundant s \<noteq> INVALID_REF \<Longrightarrow> last_irredundant s \<le> MAX_WALK_REF"
    and "last_irredundant s = INVALID_REF \<Longrightarrow> length (arena s) \<le> MAX_WALK_REF"
    and "length (watches s) = LITS s"
    and "\<And>l. l < LITS s \<Longrightarrow> watches s ! l = []"
    and "initial_phase s \<noteq> 0"
    and "\<And>b. b < length bins \<Longrightarrow> fst (bins ! b) < LITS s \<and> snd (bins ! b) < LITS s"
    and "\<And>i l. i < length (arena s) \<Longrightarrow> l \<in> set (lits (arena s ! i)) \<Longrightarrow> l < LITS s"
    and "\<And>i. i < length (arena s) \<Longrightarrow> length (lits (arena s ! i)) < U32"
    and "length bins + length (filter (\<lambda>c. \<not> garbage c \<and> \<not> redundant c) (arena s))
          \<le> binirr_clauses s"
    and "\<And>i. i < length (arena s) \<Longrightarrow> \<not> garbage (arena s ! i) \<Longrightarrow> \<not> redundant (arena s ! i)
          \<Longrightarrow> \<forall>l \<in> set (lits (arena s ! i)). vals s ! l \<le> 0
          \<Longrightarrow> \<exists>l \<in> set (lits (arena s ! i)). active s ! IDX l"
proof -
  have w: "kissat_walking s" and a: "length (arena s) \<le> arena_size s"
    "arena_size s \<le> UINT_MAX"
    using assms by (simp_all add: host_ok_def)
  have e: "\<not> MAX_WALK_REF < (if last_irredundant s = INVALID_REF then u32 (arena_size s)
                                else last_irredundant s)"
    and b: "\<not> MAX_WALK_REF < binirr_clauses s"
    using w by (simp_all add: kissat_walking_def Let_def split: if_splits)
  show "binirr_clauses s \<le> MAX_WALK_REF" using b by simp
  show "last_irredundant s \<noteq> INVALID_REF \<Longrightarrow> last_irredundant s \<le> MAX_WALK_REF"
    using e by simp
  have "arena_size s < U32" using a(2) by (simp add: UINT_MAX_def U32_def)
  then show "last_irredundant s = INVALID_REF \<Longrightarrow> length (arena s) \<le> MAX_WALK_REF"
    using e a(1) by (simp add: u32_small)
  show "length (watches s) = LITS s" using assms by (simp add: host_ok_def)
  moreover have "\<forall>ws \<in> set (watches s). ws = []"
    using assms unfolding host_ok_def by blast
  ultimately show "\<And>l. l < LITS s \<Longrightarrow> watches s ! l = []"
    using nth_mem by metis
  show "initial_phase s \<noteq> 0" using assms by (simp add: host_ok_def)
  have p: "\<forall>p \<in> set bins. fst p < LITS s \<and> snd p < LITS s"
    using assms unfolding host_ok_def by blast
  show "\<And>b. b < length bins \<Longrightarrow> fst (bins ! b) < LITS s \<and> snd (bins ! b) < LITS s"
    using p nth_mem by blast
  have c: "\<forall>c \<in> set (arena s). (\<forall>l \<in> set (lits c). l < LITS s) \<and> length (lits c) \<le> UINT_MAX"
    using assms unfolding host_ok_def by blast
  show "\<And>i l. i < length (arena s) \<Longrightarrow> l \<in> set (lits (arena s ! i)) \<Longrightarrow> l < LITS s"
    using c nth_mem by blast
  show "\<And>i. i < length (arena s) \<Longrightarrow> length (lits (arena s ! i)) < U32"
  proof -
    fix i assume "i < length (arena s)"
    then have "length (lits (arena s ! i)) \<le> UINT_MAX" using c nth_mem by blast
    then show "length (lits (arena s ! i)) < U32" by (simp add: UINT_MAX_def U32_def)
  qed
  show "length bins + length (filter (\<lambda>c. \<not> garbage c \<and> \<not> redundant c) (arena s))
          \<le> binirr_clauses s"
    using assms by (simp add: host_ok_def)
  have d: "\<forall>c \<in> set (arena s).
           \<not> garbage c \<and> \<not> redundant c \<and> (\<forall>l \<in> set (lits c). vals s ! l \<le> 0)
           \<longrightarrow> (\<exists>l \<in> set (lits c). active s ! IDX l)"
    using assms unfolding host_ok_def by blast
  show "\<And>i. i < length (arena s) \<Longrightarrow> \<not> garbage (arena s ! i) \<Longrightarrow> \<not> redundant (arena s ! i)
          \<Longrightarrow> \<forall>l \<in> set (lits (arena s ! i)). vals s ! l \<le> 0
          \<Longrightarrow> \<exists>l \<in> set (lits (arena s ! i)). active s ! IDX l"
    using d nth_mem by blast
qed

lemma MAX_WALK_REF_less: "n \<le> MAX_WALK_REF \<Longrightarrow> n < U32"
  by (simp add: MAX_WALK_REF_def LD_MAX_WALK_REF_def U32_def)

lemma init_walker_inv:
  assumes h: "host_ok s bins"
  shows "\<exists>s3 w7 n. init_walker ev s bins = Some (s3, w7) \<and> round_inv n s3 w7"
proof -
  note H = host_okD[OF h]
  define cap where "cap = binirr_clauses s"
  have capU: "cap < U32" using H(1) MAX_WALK_REF_less by (simp add: cap_def)
  define w0 where "w0 = zero_walker\<lparr>clauses := u32 cap, binaries := bins,
                 random := xor (random_seed s) (walks (stats s)), saved := vals s\<rparr>"
  define s0 where "s0 = s\<lparr>vals := replicate (LITS s) 0, pol_activity := replicate (LITS s) 0\<rparr>"
  define s1 where "s1 = import_decision_phases s0"
  define w1 where "w1 = w0\<lparr>counters := kissat_malloc (malloc_counters ev) cap,
                  refs := kissat_malloc (malloc_refs ev) cap\<rparr>"
  note I = import_decision_phases_ok[OF H(6), folded s0_def, folded s1_def]
  note F1 = host_phase_fields[OF I(3)]
  have s0f: "vars s0 = vars s" "watches s0 = watches s" "arena s0 = arena s"
    "last_irredundant s0 = last_irredundant s"
    by (simp_all add: s0_def)
  have L1: "LITS s1 = LITS s" using F1(1) s0f by (simp add: LITS_def)
  have w1f: "unsat w1 = []" "binaries w1 = bins" "saved w1 = vals s" "scores w1 = []"
    "length (counters w1) = cap" "length (refs w1) = cap" "size_avg w1 = 0"
    by (simp_all add: w1_def w0_def zero_walker_def kissat_malloc_def)
  have c0: "conn 0 s1 w1"
    unfolding conn_def index_inv_def count_inv_def L1
    using H(4,5) F1(4) s0f(2) by (simp add: w1f U32_def)
  obtain s2 w2' n2 where B: "connect_binary_loop [0..<length bins] s1 w1 0 = (s2, w2', n2)"
    by (metis prod_cases3)
  have bl: "length bins \<le> cap" using H(10) by (simp add: cap_def)
  have BI: "conn n2 s2 w2' \<and> n2 \<le> 0 + length [0..<length bins]"
  proof (rule connect_binary_loop_inv[OF c0 _ _ _ _ B])
    show "\<forall>b \<in> set [0..<length bins]. b \<le> MAX_WALK_REF
            \<and> fst (binaries w1 ! b) < LITS s1 \<and> snd (binaries w1 ! b) < LITS s1"
      using H(7) bl H(1) by (simp add: w1f L1 cap_def)
    show "0 + length [0..<length bins] \<le> length (counters w1)" using bl by (simp add: w1f)
    show "0 + length [0..<length bins] \<le> length (refs w1)" using bl by (simp add: w1f)
    show "0 + length [0..<length bins] < U32" using bl capU by simp
  qed
  note BF = connect_binary_loop_frame[OF B]
  note BS = connect_binary_loop_size[OF B]
  have BF1: "watch_part s2 = watch_part s1" "arena s2 = arena s1" "conn_part w2' = conn_part w1"
    "length (counters w2') = cap" "length (refs w2') = cap"
    using BF by (simp_all add: w1f)
  define w2 where "w2 = w2'\<lparr>size_avg := fadd (size_avg w2') (fmul 2 (dbl (of_nat n2)))\<rparr>"
  have ub: "u32 (length bins) = length bins" using bl capU by (simp add: u32_small)
  have cb: "connect_binary_counters s1 w1 = (s2, w2, n2)"
    using B by (simp add: connect_binary_counters_def w1f ub w2_def)
  have c2: "conn n2 s2 w2"
    using BI conn_cong[of w2 w2' s2 s2 n2] by (simp add: w2_def)
  have w2f: "conn_part w2 = conn_part w1" "length (counters w2) = cap" "length (refs w2) = cap"
    "0 \<le> size_avg w2"
    using BF1 BS by (simp_all add: w2_def w1f fadd_def fmul_def dbl_nonneg)
  note W2 = watch_part_fields[OF BF1(1)]
  have s2f: "vals s2 = vals s1" "vars s2 = vars s" "arena s2 = arena s"
    "last_irredundant s2 = last_irredundant s"
    using W2(1,2,9) BF1(2) F1(1,5,6) s0f by simp_all
  have L2: "LITS s2 = LITS s" using s2f(2) by (simp add: LITS_def)
  have sv2: "saved w2 = vals s" using conn_part_fields(3)[OF w2f(1)] w1f by simp
  obtain s3 w3 n3 where L: "connect_large_loop [0..<length (arena s2)] s2 w2 n2 = (s3, w3, n3)"
    by (metis prod_cases3)
  have ok: "\<forall>i \<in> set [0..<length (arena s2)]. connectable s2 (saved w2) i \<longrightarrow> clause_ok s2 i"
  proof (intro ballI impI)
    fix i assume "i \<in> set [0..<length (arena s2)]" and cn: "connectable s2 (saved w2) i"
    then have i: "i < length (arena s)" by (simp add: s2f)
    have C: "last_irredundant s = INVALID_REF \<or> i \<le> last_irredundant s"
      "\<not> garbage (arena s ! i)" "\<not> redundant (arena s ! i)"
      "\<forall>l \<in> set (lits (arena s ! i)). vals s ! l \<le> 0"
      using cn by (auto simp: connectable_def s2f sv2 not_less)
    have m: "i \<le> MAX_WALK_REF" using C(1) H(2,3) i by linarith
    obtain l where l: "l \<in> set (lits (arena s ! i))" "active s ! IDX l"
      using H(11)[OF i C(2,3,4)] by blast
    have "vals s1 ! l \<noteq> 0" using I(2)[OF H(8)[OF i l(1)] l(2)] .
    then show "clause_ok s2 i"
      unfolding clause_ok_def s2f L2 using m H(8)[OF i] H(9)[OF i] l(1) by blast
  qed
  have fl: "length (filter (irredundant_live s2) [0..<length (arena s2)])
              = length (filter (\<lambda>c. \<not> garbage c \<and> \<not> redundant c) (arena s))"
  proof -
    have e: "irredundant_live s2 = (\<lambda>i. \<not> garbage (arena s ! i) \<and> \<not> redundant (arena s ! i))"
      by (rule ext) (simp add: irredundant_live_def s2f)
    show ?thesis
      unfolding e s2f
      by (rule filter_index_length[of "\<lambda>c. \<not> garbage c \<and> \<not> redundant c" "arena s"])
  qed
  have n2: "n2 + length (filter (irredundant_live s2) [0..<length (arena s2)]) \<le> cap"
    using BI H(10) unfolding fl by (simp add: cap_def)
  have c3: "conn n3 s3 w3"
  proof (rule connect_large_loop_inv[OF c2 distinct_upt ok _ _ _ L])
    show "n2 + length (filter (irredundant_live s2) [0..<length (arena s2)]) \<le> length (counters w2)"
      using n2 by (simp add: w2f)
    show "n2 + length (filter (irredundant_live s2) [0..<length (arena s2)]) \<le> length (refs w2)"
      using n2 by (simp add: w2f)
    show "n2 + length (filter (irredundant_live s2) [0..<length (arena s2)]) < U32"
      using n2 capU by simp
  qed
  have cl: "connect_large_counters s2 w2 n2 = (s3, w3)"
    using L by (simp add: connect_large_counters_def)
  note LF = connect_large_loop_frame[OF L]
  have sz3: "0 \<le> size_avg w3" by (rule connect_large_loop_size[OF L w2f(4)])
  have w3f: "conn_part w3 = conn_part w1" using LF w2f(1) by simp
  have sc3: "scores w3 = []" using conn_part_fields(2)[OF w3f] w1f by simp
  have s3v: "vals s3 = vals s1" "vars s3 = vars s"
    using watch_part_fields(1,2)[of s3 s2] LF s2f by simp_all
  have a3: "assignment_ok s3"
    using I(1) unfolding assignment_ok_def s3v L1 by (simp add: LITS_def s3v)
  define cu where "cu = currently_unsatified w3"
  define w6 where "w6 = w3\<lparr>current := cu, initial := cu,
                        size_avg := kissat_average (size_avg w3) cap, minimum := cu\<rparr>"
  have "0 \<le> size_avg w6" using sz3 by (simp add: w6_def kissat_average_nonneg)
  then have "2 \<le> score_cb s3 w6" by (rule score_cb_ge_2)
  then obtain E where T: "init_score_table ev s3 w6 =
       Some (w6\<lparr>table := map (score_power (fdiv 1 (score_cb s3 w6))) [0..<E], exponents := E,
               epsilon := score_power (fdiv 1 (score_cb s3 w6)) (E - 1)\<rparr>)"
    using init_score_table_result[of s3 w6 ev] by metis
  define w7 where "w7 = w6\<lparr>table := map (score_power (fdiv 1 (score_cb s3 w6))) [0..<E],
               exponents := E, epsilon := score_power (fdiv 1 (score_cb s3 w6)) (E - 1)\<rparr>"
  have iw: "init_walker ev s bins = Some (s3, w7)"
    using cb cl T
    unfolding init_walker_def Let_def cap_def[symmetric] w0_def[symmetric] s0_def[symmetric]
      s1_def[symmetric] w1_def[symmetric]
    by (simp add: w7_def w6_def cu_def)
  have w7f: "counters w7 = counters w3" "unsat w7 = unsat w3" "refs w7 = refs w3"
    "binaries w7 = binaries w3" "current w7 = cu" "minimum w7 = cu" "scores w7 = []"
    by (simp_all add: w7_def w6_def sc3)
  have c7: "conn n3 s3 w7"
    using c3 conn_cong[of w7 w3 s3 s3 n3] w7f by simp
  have "round_inv n3 s3 w7"
    using c7 a3 unfolding round_inv_def conn_def
    by (simp add: w7f currently_unsatified_def cu_def)
  then show ?thesis using iw by blast
qed

subsection \<open>Invariant A along a round\<close>

lemma round_inv_flip_inv: "round_inv n s w \<longleftrightarrow> flip_inv n s w \<and> minimum w \<le> current w"
  unfolding round_inv_def flip_inv_def by blast

lemma local_search_step_point:
  assumes "walk_point ev s0 bins Round_head s w" "minimum w \<noteq> 0"
    "walk_steps (stats s) < limit w" "\<not> termination_poll ev s"
    "local_search_step ev s w = (s', w')"
  shows "walk_point ev s0 bins Round_head s' w'"
proof -
  obtain s2 w2 l where p: "pick_literal ev (inc_flipped s) (w\<lparr>flipped := u64 (flipped w + 1)\<rparr>) = (s2, w2, l)"
    by (metis prod_cases3)
  obtain s3 w3 where f: "flip_literal s2 w2 l = (s3, w3)" by (metis surj_pair)
  obtain s4 w4 where q: "push_flipped s3 w3 l = (s4, w4)" by (metis surj_pair)
  have e: "(if current w4 < minimum w4 then update_best s4 w4 else (s4, w4)) = (s', w')"
    using local_search_step_unfold[OF p f q] assms(5) by simp
  show ?thesis
    by (rule walk_point.finish[OF walk_point.flip[OF assms(1-4) p f] q e])
qed

lemma walk_point_inv:
  assumes "walk_point ev s0 bins p s w"
  shows "\<exists>n. flip_inv n s w \<and> (p = Set_up \<or> p = Round_head \<longrightarrow> minimum w \<le> current w)"
  using assms
proof (induction rule: walk_point.induct)
  case (set_up s w)
  obtain s3 w7 n where "init_walker ev s0 bins = Some (s3, w7)" "round_inv n s3 w7"
    using init_walker_inv[OF set_up(1), of ev] by blast
  then have "round_inv n s w" using set_up(2) by simp
  then show ?case unfolding round_inv_flip_inv by blast
next
  case (start s w)
  then obtain n where n: "flip_inv n s w" "minimum w \<le> current w" by blast
  let ?w = "init_walker_limit ev s w"
  have f: "counters ?w = counters w" "unsat ?w = unsat w" "refs ?w = refs w"
    "binaries ?w = binaries w" "scores ?w = scores w" "current ?w = current w"
    "minimum ?w = minimum w"
    by (simp_all add: init_walker_limit_def)
  note K = inv_cong[where s = s and s' = s, OF f(1,2,3,4) refl refl refl refl]
  have "flip_inv n s ?w" using n(1) unfolding flip_inv_def K(1,2,4,5) f by simp
  then show ?case using n(2) f by auto
next
  case (flip s w s2 w2 l s3 w3)
  then obtain n where n: "flip_inv n s w" "minimum w \<le> current w" by blast
  then have ri: "round_inv n s w" unfolding round_inv_flip_inv by simp
  note P = pick_valid[OF ri flip(2) flip(5)]
  note F = flip_valid[OF P(1,3,4) flip(6)]
  have "flip_inv n s3 w3" unfolding flip_inv_def using F by blast
  then show ?case by auto
next
  case (finish l s3 w3 s4 w4 s5 w5)
  then obtain n where n: "flip_inv n s3 w3" by blast
  then have F: "index_inv n w3" "count_inv n s3 w3" "assignment_ok s3"
    "current w3 = currently_unsatified w3" "scores w3 = []"
    "\<forall>r<n. \<exists>x \<in> set (dereference_literals s3 w3 r). vals s3 ! x \<noteq> 0"
    by (simp_all add: flip_inv_def)
  have q1: "phase_part s4 = phase_part s3" "tracker_part w4 = tracker_part w3"
    using push_flipped_parts[of s3 w3 l] finish(2) by simp_all
  have cur4: "current w4 = current w3" by (rule tracker_part_fields(5)[OF q1(2)])
  have "round_inv n s5 w5"
  proof (cases "current w4 < minimum w4")
    case True
    then have u: "update_best s4 w4 = (s5, w5)" using finish(3) by simp
    have u1: "phase_part s5 = phase_part s3" "tracker_part w5 = tracker_part w3"
      "minimum w5 = current w4"
      using update_best_parts[of s4 w4] u q1 by simp_all
    show ?thesis
      by (rule tracker_inv[OF F u1(1,2)]) (simp add: u1(3) cur4)
  next
    case False
    then have e: "s5 = s4" "w5 = w4" using finish(3) by simp_all
    show ?thesis unfolding e
      by (rule tracker_inv[OF F q1(1,2)]) (use False cur4 in simp)
  qed
  then show ?case unfolding round_inv_flip_inv by blast
qed

lemma flip_inv_refs:
  assumes "flip_inv n s w"
  shows "counter_refs s = {..<n}"
proof -
  have C: "length (watches s) = LITS s"
    "\<And>l r. l < LITS s \<Longrightarrow> r \<in> set (watches s ! l) \<Longrightarrow> r < n"
    "\<And>r l. r < n \<Longrightarrow> l < LITS s \<Longrightarrow> count_list (watches s ! l) r =
           (if vals s ! l \<noteq> 0 then count_list (dereference_literals s w r) l else 0)"
    "\<And>r l. r < n \<Longrightarrow> l \<in> set (dereference_literals s w r) \<Longrightarrow> l < LITS s"
    and E: "\<And>r. r < n \<Longrightarrow> \<exists>l \<in> set (dereference_literals s w r). vals s ! l \<noteq> 0"
    using assms unfolding flip_inv_def count_inv_def by blast+
  show ?thesis
  proof (intro set_eqI iffI)
    fix r assume "r \<in> counter_refs s"
    then obtain ws where ws: "ws \<in> set (watches s)" "r \<in> set ws"
      by (auto simp: counter_refs_def)
    then obtain l where "l < length (watches s)" "ws = watches s ! l"
      by (auto simp: in_set_conv_nth)
    then show "r \<in> {..<n}" using C(1,2) ws(2) by simp
  next
    fix r assume "r \<in> {..<n}"
    then have r: "r < n" by simp
    from E[OF r] obtain l where l: "l \<in> set (dereference_literals s w r)" "vals s ! l \<noteq> 0"
      by blast
    have ll: "l < LITS s" by (rule C(4)[OF r l(1)])
    have "count_list (watches s ! l) r = count_list (dereference_literals s w r) l"
      using C(3)[OF r ll] l(2) by simp
    moreover have "count_list (dereference_literals s w r) l \<noteq> 0"
      using l(1) count_list_0_iff[of "dereference_literals s w r" l] by auto
    ultimately have "count_list (watches s ! l) r \<noteq> 0" by simp
    then have "r \<in> set (watches s ! l)"
      using count_list_0_iff[of "watches s ! l" r] by auto
    moreover have "watches s ! l \<in> set (watches s)" using ll C(1) by simp
    ultimately show "r \<in> counter_refs s" by (auto simp: counter_refs_def)
  qed
qed

lemma flip_inv_A:
  assumes "flip_inv n s w"
  shows "invariant_A s w"
proof -
  have i: "index_inv n w" using assms by (simp add: flip_inv_def)
  note I = index_invD[OF i]
  note R = flip_inv_refs[OF assms]
  show ?thesis
    unfolding invariant_A_def R
    using I(3,4,6) index_inv_pos[OF i] by (auto simp: cnt_def)
qed

lemma pop_unsat_index:
  assumes i: "index_inv n w" and r: "r \<in> set (unsat w)"
  shows "pop_keeps_index w r"
proof -
  note I = index_invD[OF i]
  define us where "us = unsat w"
  define p where "p = pos (counters w ! r)"
  define other where "other = last us"
  define w' where "w' = fst (pop_unsat w r p)"
  have p: "p < length us" "us ! p = r"
    using index_inv_pos[OF i r] by (simp_all add: p_def us_def)
  have d: "distinct us" using I(3) by (simp add: us_def)
  have ne: "us \<noteq> []" using p(1) by auto
  have ol: "other \<in> set us" using ne by (simp add: other_def)
  have oc: "other < length (counters w)" using I(4)[of other] I(1) ol by (simp add: us_def)
  have ps: "\<And>j. j < length us \<Longrightarrow> pos (counters w ! (us ! j)) = j"
    using I(7) by (simp add: us_def)
  have lastnth: "other = us ! (length us - 1)" using ne by (simp add: other_def last_conv_nth)
  have G: "set (unsat w') = set us - {r} \<and> distinct (unsat w')
        \<and> (\<forall>x \<in> set (unsat w'). pos (counters w' ! x) < length (unsat w')
              \<and> unsat w' ! pos (counters w' ! x) = x)
        \<and> (r \<noteq> other \<longrightarrow> unsat w' ! p = other \<and> pos (counters w' ! other) = p)"
  proof (cases "r = other")
    case True
    note S = pop_list_last[OF d p True[unfolded other_def]]
    have u: "unsat w' = butlast us" and c: "counters w' = counters w"
      using True by (simp_all add: w'_def pop_unsat_def Let_def us_def other_def)
    have "\<forall>x \<in> set (butlast us). pos (counters w ! x) < length (butlast us)
              \<and> butlast us ! pos (counters w ! x) = x"
    proof
      fix x assume "x \<in> set (butlast us)"
      then obtain j where j: "j < length (butlast us)" "butlast us ! j = x"
        by (auto simp: in_set_conv_nth)
      then have "us ! j = x" "j < length us" using S(4) by auto
      then have "pos (counters w ! x) = j" using ps by auto
      then show "pos (counters w ! x) < length (butlast us)
              \<and> butlast us ! pos (counters w ! x) = x" using j by simp
    qed
    then show ?thesis using S(2,3) True by (simp add: u c)
  next
    case False
    note S = pop_list_swap[OF d p False[unfolded other_def]]
    have u: "unsat w' = (butlast us)[p := other]"
      and c: "counters w' = (counters w)[other := (counters w ! other)\<lparr>pos := p\<rparr>]"
      using False by (simp_all add: w'_def pop_unsat_def Let_def us_def other_def)
    have a: "\<forall>x \<in> set ((butlast us)[p := other]).
               pos (counters w' ! x) < length ((butlast us)[p := other])
              \<and> (butlast us)[p := other] ! pos (counters w' ! x) = x"
    proof
      fix x assume "x \<in> set ((butlast us)[p := other])"
      then obtain j where j: "j < length (butlast us)" "(butlast us)[p := other] ! j = x"
        by (auto simp: in_set_conv_nth)
      show "pos (counters w' ! x) < length ((butlast us)[p := other])
              \<and> (butlast us)[p := other] ! pos (counters w' ! x) = x"
      proof (cases "j = p")
        case True
        then have "x = other" using j S(1) by simp
        then show ?thesis using oc S(1) by (simp add: c)
      next
        case F: False
        then have x: "x = us ! j" "us ! j \<noteq> other" using j S(4,5) by (auto simp: other_def)
        have "j < length us" using j(1) by simp
        then have "pos (counters w ! x) = j" using ps x(1) by simp
        then show ?thesis using x j F by (simp add: c)
      qed
    qed
    have b: "(butlast us)[p := other] ! p = other \<and> pos (counters w' ! other) = p"
      using S(1) oc by (simp add: c)
    show ?thesis using S(2,3) a b unfolding u other_def by blast
  qed
  show ?thesis
    unfolding pop_keeps_index_def Let_def
    using G unfolding w'_def p_def other_def us_def by simp
qed

text \<open>
  Claim C1.  At every point of a walk that the claim names (after \<open>init_walker\<close> has
  completed, and after every \<open>flip_literal\<close> of the round) and also at the head of every
  iteration of the round, Invariant A holds: a counter reference is on the unsat stack exactly
  when its counter's \<open>count\<close> is zero, and then it sits at the index its \<open>pos\<close>
  field stores, the stack having no duplicates.  The counter references are the ones
  \<open>init_walker\<close> connected, which are the entries of the watch lists and form an initial
  segment of the counter array (the counters behind it are never written).  Moreover
  \<open>pop_unsat\<close>, applied to any entry of the stack at its stored position \<open>p\<close>, keeps
  the index of the remaining entries, and when it swaps the last entry into position
  \<open>p\<close> it stores \<open>p\<close> in the \<open>pos\<close> field of that entry's counter.
\<close>

theorem invariant_A_maintained:
  "walk_point ev s0 bins p s w \<Longrightarrow>
     invariant_A s w
     \<and> (\<exists>n \<le> length (counters w). counter_refs s = {..<n})
     \<and> (\<forall>r \<in> set (unsat w). pop_keeps_index w r)"
proof -
  assume "walk_point ev s0 bins p s w"
  then obtain n where n: "flip_inv n s w" using walk_point_inv by blast
  then have i: "index_inv n w" by (simp add: flip_inv_def)
  have "n \<le> length (counters w)" by (rule index_invD(1)[OF i])
  then have "\<exists>n \<le> length (counters w). counter_refs s = {..<n}"
    using flip_inv_refs[OF n] by blast
  then show ?thesis using flip_inv_A[OF n] pop_unsat_index[OF i] by blast
qed

lemma init_score_table_unsat:
  "init_score_table ev s w = Some w' \<Longrightarrow> unsat w' = unsat w \<and> counters w' = counters w"
  by (auto simp: init_score_table_def Let_def split: option.splits)

lemma host_ex_ok: "host_ok host_ex [(0, 2)]"
  by (simp add: host_ok_def host_ex_def solver_ex_def kissat_walking_def Let_def
      MAX_WALK_REF_def LD_MAX_WALK_REF_def INVALID_REF_def
      UINT_MAX_def LITS_def IDX_def u32_def)

lemma small_lists:
  "[0..<3] = [0, 1, 2]" "[0..<2] = [0, 1]" "[0..<1] = [0]"
  "replicate 6 x = [x, x, x, x, x, x]"
  by (simp_all add: upt_rec numeral_eq_Suc)

lemma host_ex_unsat:
  assumes "init_walker env_ex host_ex [(0, 2)] = Some (s, w)"
  shows "unsat w = [0]"
  using assms
  apply (simp add: small_lists u64_def init_walker_def Let_def host_ex_def solver_ex_def
        env_ex_def LITS_def
        import_decision_phases_def inc_walk_decisions_def import_phase_def LIT_def NOT_lit_def
        zero_walker_def kissat_malloc_def connect_binary_counters_def
        connect_large_counters_def kissat_push_large_watch_def push_unsat_def
        make_tagged_def LD_MAX_WALK_REF_def INVALID_REF_def UINT_MAX_def u32_def
        currently_unsatified_def
        split: option.splits)
  apply (drule init_score_table_unsat)
  apply simp
  done

theorem invariant_A_maintained_witness:
  "walk_point env_ex host_ex [(0, 2)] Set_up
     (fst (the (init_walker env_ex host_ex [(0, 2)])))
     (snd (the (init_walker env_ex host_ex [(0, 2)])))
   \<and> unsat (snd (the (init_walker env_ex host_ex [(0, 2)]))) = [0]
   \<and> invariant_A (fst (the (init_walker env_ex host_ex [(0, 2)])))
       (snd (the (init_walker env_ex host_ex [(0, 2)])))
   \<and> (\<exists>n \<le> length (counters (snd (the (init_walker env_ex host_ex [(0, 2)])))).
         counter_refs (fst (the (init_walker env_ex host_ex [(0, 2)]))) = {..<n})
   \<and> pop_keeps_index (snd (the (init_walker env_ex host_ex [(0, 2)]))) 0"
proof -
  obtain s w where i: "init_walker env_ex host_ex [(0, 2)] = Some (s, w)"
    using init_walker_inv[OF host_ex_ok, of env_ex] by blast
  have p: "walk_point env_ex host_ex [(0, 2)] Set_up s w"
    by (rule walk_point.set_up[OF host_ex_ok i])
  have u: "unsat w = [0]" by (rule host_ex_unsat[OF i])
  have e: "the (init_walker env_ex host_ex [(0, 2)]) = (s, w)" using i by simp
  have c: "invariant_A s w \<and> (\<exists>n \<le> length (counters w). counter_refs s = {..<n})
     \<and> (\<forall>r \<in> set (unsat w). pop_keeps_index w r)"
    by (rule invariant_A_maintained[OF p])
  then have "pop_keeps_index w 0" using u by simp
  then show ?thesis unfolding e fst_conv snd_conv using p u c by blast
qed

subsection \<open>The position that a step inspects\<close>

lemma pick_position:
  assumes ri: "round_inv n s w" and m: "minimum w \<noteq> 0"
    and p: "pick_literal ev (inc_flipped s) (w\<lparr>flipped := f\<rparr>) = (s2, w2, l)"
  shows "l \<in> set (dereference_literals s w (unsat w ! (f mod length (unsat w))))"
    and "unsat w \<noteq> []"
proof -
  let ?s1 = "inc_flipped s"
  let ?w1 = "w\<lparr>flipped := f\<rparr>"
  have R: "index_inv n w" "minimum w \<le> current w" "scores w = []"
    "\<And>r. r < n \<Longrightarrow> \<exists>l \<in> set (dereference_literals s w r). vals s ! l \<noteq> 0"
    using ri by (simp_all add: round_inv_def)
  note I = index_invD[OF R(1)]
  have cur: "current w = length (unsat w)" by (rule round_inv_unsat_length[OF ri])
  have cpos: "0 < current w" using m R(2) by simp
  then show "unsat w \<noteq> []" using cur by auto
  have pp: "pick_pos ?w1 = f mod length (unsat w)" by (simp add: pick_pos_def cur)
  define rf where "rf = unsat w ! (f mod length (unsat w))"
  have rin: "rf \<in> set (unsat w)" using cpos cur by (simp add: rf_def)
  have rn: "rf < n" using I(4)[OF rin] .
  define cl where "cl = dereference_literals s w rf"
  have pc: "picked_clause ?s1 ?w1 = cl"
    unfolding picked_clause_def cl_def rf_def pp
    by (rule trans[OF dereference_literals_cong[of _ w _ s]]) (simp_all add: inc_flipped_def)
  have cand: "candidates ?s1 ?w1 = filter (\<lambda>l. vals s ! l \<noteq> 0) cl"
    by (simp add: candidates_def pc)
  have ne: "candidates ?s1 ?w1 \<noteq> []"
    using R(4)[OF rn] by (auto simp: cand cl_def filter_empty_conv)
  have "l = snd (snd (pick_literal ev ?s1 ?w1))" using p by simp
  also have "\<dots> \<in> set (candidates ?s1 ?w1)"
    using pick_literal_result[of ?w1 ev ?s1] R(3) ne by (simp add: pick_choice_member)
  finally have "l \<in> set cl" by (simp add: cand)
  then show "l \<in> set (dereference_literals s w (unsat w ! (f mod length (unsat w))))"
    by (simp add: cl_def rf_def)
qed

lemma flip_literal_vals_eq:
  "vals (fst (flip_literal s w flp)) = (vals s)[flp := - vals s ! flp, NOT_lit flp := vals s ! flp]"
  by (simp add: flip_literal_def Let_def make_clauses_def break_clauses_def split: prod.splits)

lemma local_search_step_vals:
  assumes p: "pick_literal ev (inc_flipped s) (w\<lparr>flipped := u64 (flipped w + 1)\<rparr>) = (s2, w2, l)"
  shows "vals (fst (local_search_step ev s w)) = (vals s)[l := - vals s ! l, NOT_lit l := vals s ! l]"
proof -
  obtain s3 w3 where f: "flip_literal s2 w2 l = (s3, w3)" by (metis surj_pair)
  obtain s4 w4 where q: "push_flipped s3 w3 l = (s4, w4)" by (metis surj_pair)
  have v2: "vals s2 = vals s" using pick_literal_frame[OF p] by simp
  have v3: "vals s3 = (vals s)[l := - vals s ! l, NOT_lit l := vals s ! l]"
    using flip_literal_vals_eq[of s2 w2 l] f v2 by simp
  have v4: "vals s4 = vals s3"
    using push_flipped_parts[of s3 w3 l] q phase_part_fields(1)[of s4 s3] by simp
  have v5: "vals (fst (update_best s4 w4)) = vals s4"
    using update_best_parts[of s4 w4] phase_part_fields(1)[of "fst (update_best s4 w4)" s4]
    by simp
  show ?thesis
    unfolding local_search_step_unfold[OF p f q] using v3 v4 v5 by simp
qed

lemma round_steps_inv:
  assumes "round_inv n s0 w0" "flipped w0 = 0" "2 * k < 2 ^ 64"
    "round_steps ev k (s0, w0) = Some (s, w)"
  shows "round_inv n s w \<and> flipped w = 2 * k"
  using assms(3,4)
proof (induction k arbitrary: s w)
  case 0
  then show ?case using assms(1,2) by simp
next
  case (Suc k)
  from Suc.prems(2) obtain s1 w1 where k: "round_steps ev k (s0, w0) = Some (s1, w1)"
    and g: "minimum w1 \<noteq> 0" and st: "local_search_step ev s1 w1 = (s, w)"
    by (auto split: option.splits if_splits)
  have "2 * k < (2::nat) ^ 64" using Suc.prems(1) by simp
  from Suc.IH[OF this k] have ih: "round_inv n s1 w1" "flipped w1 = 2 * k" by simp_all
  have "round_inv n s w" by (rule local_search_step_inv[OF ih(1) g st])
  moreover have "flipped w = 2 * Suc k"
    using local_search_step_flipped[OF st] ih(2) Suc.prems(1) by (simp add: u64_def)
  ultimately show ?case by simp
qed

text \<open>
  Claim C10. Every local search step increments the walker's \<open>flipped\<close> counter twice,
  once in the step and once in \<open>pick_literal\<close>: after \<open>k\<close> completed steps of a round
  (the iterations of \<open>local_search_round\<close>, each under the guard of its loop) it is
  \<open>2 * k\<close>. When the guard admits a further step, the \<open>(k + 1)\<close>-th, the unsat stack is not
  empty, the step leaves \<open>flipped\<close> at \<open>2 * (k + 1)\<close>, and the literal it picks and flips is
  a false literal of the clause whose counter reference \<open>pick_literal\<close> reads at position
  \<open>(2 * (k + 1) - 1) mod |unsat|\<close> of the stack: the values after the step are the values
  before it with that literal and its negation exchanged. The round starts from a walker
  with \<open>flipped = 0\<close> that satisfies the invariants of the counters, as the one
  \<open>init_walker\<close> and \<open>init_walker_limit\<close> produce; \<open>flipped\<close> is 64 bits wide, so the count
  is exact while \<open>2 * (k + 1)\<close> is below \<open>2 ^ 64\<close>.
\<close>

theorem step_flips_twice:
  "round_inv n s0 w0 \<Longrightarrow> flipped w0 = 0 \<Longrightarrow> 2 * (k + 1) < 2 ^ 64 \<Longrightarrow>
   round_steps ev k (s0, w0) = Some (s, w) \<Longrightarrow> minimum w \<noteq> 0 \<Longrightarrow>
     flipped w = 2 * k
     \<and> flipped (snd (local_search_step ev s w)) = 2 * (k + 1)
     \<and> unsat w \<noteq> []
     \<and> (\<exists>l \<in> set (dereference_literals s w
                    (unsat w ! ((2 * (k + 1) - 1) mod length (unsat w)))).
           vals s ! l < 0
           \<and> vals (fst (local_search_step ev s w))
               = (vals s)[l := - vals s ! l, NOT_lit l := vals s ! l])"
proof -
  assume a: "round_inv n s0 w0" "flipped w0 = 0" "2 * (k + 1) < 2 ^ 64"
    "round_steps ev k (s0, w0) = Some (s, w)" "minimum w \<noteq> 0"
  have "2 * k < (2::nat) ^ 64" using a(3) by simp
  from round_steps_inv[OF a(1,2) this a(4)]
  have ri: "round_inv n s w" and fl: "flipped w = 2 * k" by simp_all
  obtain s' w' where st: "local_search_step ev s w = (s', w')" by (metis surj_pair)
  have f2: "flipped w' = 2 * (k + 1)"
    using local_search_step_flipped[OF st] fl a(3) by (simp add: u64_def)
  obtain s2 w2 l where p: "pick_literal ev (inc_flipped s) (w\<lparr>flipped := u64 (flipped w + 1)\<rparr>) = (s2, w2, l)"
    by (metis prod_cases3)
  have u: "u64 (flipped w + 1) = 2 * (k + 1) - 1" using fl a(3) by (simp add: u64_def)
  note P = pick_position[OF ri a(5) p, unfolded u]
  note V = pick_valid[OF ri a(5) p]
  have v2: "vals s2 = vals s" using pick_literal_frame[OF p] by simp
  have neg: "vals s ! l < 0" using V(4) v2 by simp
  note S = local_search_step_vals[OF p]
  show ?thesis using fl f2 P neg S st by auto
qed

lemma state_c10_eq:
  "state_c10 =
    (\<lparr>vars = 4, active = [True, True, True, True],
        vals = [- 1, 1, - 1, 1, - 1, 1, 1, - 1],
        pol_activity = [0, 0, 0, 0, 0, 0, 0, 0],
        phases_saved = [- 1, - 1, - 1, - 1], phases_target = [0, 0, 0, 0],
        stable = False, option_warmup = False, initial_phase = 1, arena = [],
        arena_size = 0, last_irredundant = INVALID_REF, binirr_clauses = 4,
        watches = [[0, 3], [], [0, 2], [], [1, 2, 3], [], [1], []],
        random_seed = 0,
        stats = \<lparr>walks = 1, walk_steps = 6, walk_decisions = 1,
             walk_improved = 0, flipped_stat = 1\<rparr>,
        frame = ()\<rparr>,
     \<lparr>best = 1, clauses = 4, current = 3, exponents = 2, initial = 4,
        minimum = 3, random = 2,
        counters = [\<lparr>count = 0, pos = 0\<rparr>, \<lparr>count = 1, pos = 1\<rparr>,
           \<lparr>count = 0, pos = 2\<rparr>, \<lparr>count = 0, pos = 1\<rparr>],
        binaries = [(0, 2), (4, 6), (2, 4), (0, 4)],
        saved = [0, 0, 0, 0, 0, 0, 0, 0],
        refs = [\<lparr>ref = 0, binary = True\<rparr>, \<lparr>ref = 1, binary = True\<rparr>,
           \<lparr>ref = 2, binary = True\<rparr>, \<lparr>ref = 3, binary = True\<rparr>],
        table = [1, 1 / 2], scores = [], unsat = [0, 3, 2], trail = [6],
        size_avg = 2, epsilon = 1 / 2, limit = 100, flipped = 2\<rparr>)"
  by (simp add: state_c10_def local_search_step_def Let_def solver_c10_def walker_c10_def
      env_ex_def
      inc_flipped_def pick_literal_def pick_pos_def dereference_literals_def break_value_def
      scale_score_def add_walk_steps_def NOT_lit_def u32_def u64_def fadd_def fmul_def
      dbl_one dbl_two flip_literal_def make_clauses_def break_clauses_def pop_unsat_def
      push_unsat_def currently_unsatified_def push_flipped_def update_best_def
      INVALID_BEST_def UINT_MAX_def)

lemma state_c10_next:
  "vals (fst (local_search_step env_ex (fst state_c10) (snd state_c10)))
     = [- 1, 1, 1, - 1, - 1, 1, 1, - 1]"
  unfolding state_c10_eq fst_conv snd_conv
  by (simp add: local_search_step_def Let_def env_ex_def
      inc_flipped_def pick_literal_def pick_pos_def dereference_literals_def break_value_def
      scale_score_def add_walk_steps_def NOT_lit_def u32_def u64_def fadd_def fmul_def
      dbl_one dbl_two flip_literal_def make_clauses_def break_clauses_def pop_unsat_def
      push_unsat_def currently_unsatified_def push_flipped_def update_best_def
      INVALID_BEST_def UINT_MAX_def)

lemma all_less_4: "(\<forall>r<(4::nat). P r) \<longleftrightarrow> P 0 \<and> P 1 \<and> P 2 \<and> P 3"
proof -
  have "\<And>r::nat. r < 4 \<longleftrightarrow> r = 0 \<or> r = 1 \<or> r = 2 \<or> r = 3" by auto
  then show ?thesis by auto
qed

lemma all_less_8:
  "(\<forall>r<(8::nat). P r) \<longleftrightarrow> P 0 \<and> P 1 \<and> P 2 \<and> P 3 \<and> P 4 \<and> P 5 \<and> P 6 \<and> P 7"
proof -
  have "\<And>r::nat. r < 8 \<longleftrightarrow> r = 0 \<or> r = 1 \<or> r = 2 \<or> r = 3 \<or> r = 4 \<or> r = 5 \<or> r = 6 \<or> r = 7"
    by auto
  then show ?thesis by auto
qed

lemma c10_index_inv: "index_inv 4 walker_c10"
  unfolding index_inv_def all_less_4
  by (simp add: walker_c10_def U32_def cnt_def All_less_Suc)

lemma c10_assignment_ok: "assignment_ok solver_c10"
  unfolding assignment_ok_def
  by (simp add: solver_c10_def LITS_def all_less_8 NOT_lit_def)

lemma c10_deref:
  "dereference_literals solver_c10 walker_c10 0 = [0, 2]"
  "dereference_literals solver_c10 walker_c10 1 = [4, 6]"
  "dereference_literals solver_c10 walker_c10 2 = [2, 4]"
  "dereference_literals solver_c10 walker_c10 3 = [0, 4]"
  by (simp_all add: dereference_literals_def walker_c10_def)

lemma c10_count_inv: "count_inv 4 solver_c10 walker_c10"
  unfolding count_inv_def all_less_4 c10_deref
  by (simp add: solver_c10_def LITS_def all_less_8 U32_def cnt_def walker_c10_def All_less_Suc)

lemma c10_round_inv: "round_inv 4 solver_c10 walker_c10"
  unfolding round_inv_def all_less_4 c10_deref
  using c10_index_inv c10_count_inv c10_assignment_ok
  by (simp add: walker_c10_def currently_unsatified_def u32_def solver_c10_def)

theorem step_flips_twice_witness:
  "round_inv 4 solver_c10 walker_c10 \<and> flipped walker_c10 = 0
   \<and> 2 * ((1::nat) + 1) < 2 ^ 64
   \<and> round_steps env_ex 1 (solver_c10, walker_c10) = Some (fst state_c10, snd state_c10)
   \<and> minimum (snd state_c10) \<noteq> 0
   \<and> unsat (snd state_c10) = [0, 3, 2]
   \<and> dereference_literals (fst state_c10) (snd state_c10)
        (unsat (snd state_c10) ! ((2 * (1 + 1) - 1) mod length (unsat (snd state_c10))))
       = [0, 2]
   \<and> dereference_literals (fst state_c10) (snd state_c10)
        (unsat (snd state_c10) ! ((1 + 1 - 1) mod length (unsat (snd state_c10))))
       = [0, 4]
   \<and> vals (fst state_c10) = [- 1, 1, - 1, 1, - 1, 1, 1, - 1]
   \<and> vals (fst (local_search_step env_ex (fst state_c10) (snd state_c10)))
       = [- 1, 1, 1, - 1, - 1, 1, 1, - 1]
   \<and> flipped (snd state_c10) = 2 * 1
   \<and> flipped (snd (local_search_step env_ex (fst state_c10) (snd state_c10))) = 2 * (1 + 1)
   \<and> (\<exists>l \<in> set (dereference_literals (fst state_c10) (snd state_c10)
                    (unsat (snd state_c10)
                       ! ((2 * (1 + 1) - 1) mod length (unsat (snd state_c10))))).
           vals (fst state_c10) ! l < 0
           \<and> vals (fst (local_search_step env_ex (fst state_c10) (snd state_c10)))
               = (vals (fst state_c10))[l := - vals (fst state_c10) ! l,
                                        NOT_lit l := vals (fst state_c10) ! l])"
proof -
  have h1: "round_inv 4 solver_c10 walker_c10" by (rule c10_round_inv)
  have h2: "flipped walker_c10 = 0" by (simp add: walker_c10_def)
  have h3: "2 * ((1::nat) + 1) < 2 ^ 64" by simp
  have h4: "round_steps env_ex 1 (solver_c10, walker_c10) = Some (fst state_c10, snd state_c10)"
    by (simp add: state_c10_def) (simp add: solver_c10_def walker_c10_def env_ex_def)
  have h5: "minimum (snd state_c10) \<noteq> 0" by (simp add: state_c10_eq)
  have e1: "unsat (snd state_c10) = [0, 3, 2]" by (simp add: state_c10_eq)
  have e2: "dereference_literals (fst state_c10) (snd state_c10)
        (unsat (snd state_c10) ! ((2 * (1 + 1) - 1) mod length (unsat (snd state_c10))))
       = [0, 2]"
    by (simp add: state_c10_eq dereference_literals_def)
  have e3: "dereference_literals (fst state_c10) (snd state_c10)
        (unsat (snd state_c10) ! ((1 + 1 - 1) mod length (unsat (snd state_c10))))
       = [0, 4]"
    by (simp add: state_c10_eq dereference_literals_def)
  have e4: "vals (fst state_c10) = [- 1, 1, - 1, 1, - 1, 1, 1, - 1]"
    by (simp add: state_c10_eq)
  note c = step_flips_twice[OF h1 h2 h3 h4 h5]
  have c1: "flipped (snd state_c10) = 2 * 1" using c by (rule conjunct1)
  have c2: "flipped (snd (local_search_step env_ex (fst state_c10) (snd state_c10))) = 2 * (1 + 1)"
    using c by (elim conjE)
  have c4: "\<exists>l \<in> set (dereference_literals (fst state_c10) (snd state_c10)
                    (unsat (snd state_c10)
                       ! ((2 * (1 + 1) - 1) mod length (unsat (snd state_c10))))).
           vals (fst state_c10) ! l < 0
           \<and> vals (fst (local_search_step env_ex (fst state_c10) (snd state_c10)))
               = (vals (fst state_c10))[l := - vals (fst state_c10) ! l,
                                        NOT_lit l := vals (fst state_c10) ! l]"
    using c by (elim conjE)
  show ?thesis
    by (intro conjI h1 h2 h3 h4 h5 e1 e2 e3 e4 state_c10_next c1 c2 c4)
qed

subsection \<open>Scores strictly decrease inside the table\<close>

lemma dbl_shrink:
  assumes k: "0 < k" "k \<le> 2 ^ 53" and u: "- 1074 \<le> u"
    and q: "0 \<le> q" "q \<le> of_int k * pow2 u / 2"
  shows "dbl q < of_int k * pow2 u"
proof (cases "u = - 1074")
  case False
  then have u1: "- 1074 \<le> u - 1" using u by simp
  have h: "of_int k * pow2 u / 2 = of_int k * pow2 (u - 1)"
    using pow2_half_step[of u] by simp
  have "dbl q \<le> dbl (of_int k * pow2 (u - 1))"
    using dbl_mono[OF q(1)] q(2) unfolding h by simp
  also have "\<dots> = of_int k * pow2 (u - 1)"
    using dbl_fix[of k "u - 1"] k u1 by simp
  also have "\<dots> < of_int k * pow2 u"
    using k(1) pow2_strict_mono[of "u - 1" u] by simp
  finally show ?thesis .
next
  case True
  show ?thesis
  proof (cases "k = 1")
    case k1: True
    have "of_int k * pow2 u / 2 = pow2 (- 1075)"
      using pow2_half_step[of "- 1074"] k1 True by simp
    then have "dbl q = 0" using dbl_tiny[OF q(1)] q(2) by simp
    then show ?thesis using k(1) by simp
  next
    case False
    then have k2: "2 \<le> k" using k(1) by simp
    define m where "m = (k + 1) div 2"
    have m: "0 \<le> m" "m \<le> 2 ^ 53" "m < k" "k \<le> 2 * m"
      using k2 k(2) by (simp_all add: m_def)
    have "(of_int k :: rat) \<le> of_int (2 * m)" using m(4) by (simp only: of_int_le_iff)
    then have "(of_int k :: rat) / 2 \<le> of_int m" by simp
    then have "of_int k / 2 * pow2 u \<le> of_int m * pow2 u"
      by (rule mult_right_mono) simp
    moreover have "of_int k * pow2 u / 2 = of_int k / 2 * pow2 u" by simp
    ultimately have "q \<le> of_int m * pow2 u" using q(2) by (simp only: order_trans)
    then have "dbl q \<le> dbl (of_int m * pow2 u)" using dbl_mono[OF q(1)] by simp
    also have "\<dots> = of_int m * pow2 u" using dbl_fix[OF m(1,2) u] .
    also have "\<dots> < of_int k * pow2 u" using m(3) by simp
    finally show ?thesis .
  qed
qed

lemma score_power_strict:
  assumes b: "0 \<le> base" "base \<le> 1 / 2" and p: "0 < score_power base k"
  shows "score_power base (Suc k) < score_power base k"
proof -
  define x where "x = score_power base k"
  have fx: "dbl x = x" unfolding x_def by (rule score_power_fix[OF b(1)])
  have x0: "0 \<le> x" using p by (simp add: x_def)
  from dbl_shape[OF x0] obtain m u where
    mu: "0 \<le> m" "m \<le> 2 ^ 53" "- 1074 \<le> u" "dbl x = of_int m * pow2 u"
    by blast
  have xs: "x = of_int m * pow2 u" using mu(4) fx by simp
  have m0: "0 < m"
  proof (rule ccontr)
    assume "\<not> 0 < m"
    then have "m = 0" using mu(1) by simp
    then show False using xs p by (simp add: x_def)
  qed
  have q0: "0 \<le> x * base" using x0 b(1) by simp
  have "x * base \<le> x * (1 / 2)" using b(2) x0 by (rule mult_left_mono)
  then have q1: "x * base \<le> of_int m * pow2 u / 2" by (simp add: xs)
  have "dbl (x * base) < of_int m * pow2 u"
    by (rule dbl_shrink[OF m0 mu(2,3) q0 q1])
  then show ?thesis by (simp add: fmul_def x_def[symmetric] xs)
qed

lemma score_power_strict_antimono:
  assumes b: "0 \<le> base" "base \<le> 1 / 2" and p: "0 < score_power base i" and l: "i < j"
  shows "score_power base j < score_power base i"
proof -
  have b1: "base \<le> 1" using b(2) by simp
  have "score_power base j \<le> score_power base (Suc i)"
    using l by (intro score_power_antimono[OF b(1) b1]) simp
  also have "\<dots> < score_power base i" by (rule score_power_strict[OF b p])
  finally show ?thesis .
qed

lemma score_power_order:
  assumes b: "0 \<le> base" "base \<le> 1 / 2" and p: "\<forall>k<E. 0 < score_power base k"
    and i: "i < E" "j < E"
  shows "score_power base j \<le> score_power base i \<longleftrightarrow> i \<le> j"
proof
  assume "i \<le> j"
  then show "score_power base j \<le> score_power base i"
    using b by (intro score_power_antimono) simp_all
next
  assume a: "score_power base j \<le> score_power base i"
  show "i \<le> j"
  proof (rule ccontr)
    assume "\<not> i \<le> j"
    then have "j < i" by simp
    from score_power_strict_antimono[OF b _ this] p i(2)
    have "score_power base i < score_power base j" by simp
    with a show False by simp
  qed
qed

lemma scale_score_after_init_order:
  assumes "0 \<le> size_avg w"
  obtains w' where "init_score_table ev s w = Some w'" "1 \<le> exponents w'"
    "\<forall>b. 0 < scale_score w' b"
    "\<forall>b1 b2. scale_score w' b2 \<le> scale_score w' b1
        \<longleftrightarrow> min b1 (exponents w' - 1) \<le> min b2 (exponents w' - 1)"
proof -
  from scale_score_after_init[OF assms, of ev s]
  obtain w' E base where w: "init_score_table ev s w = Some w'" "1 \<le> E"
    "0 \<le> base" "base \<le> 1 / 2" "exponents w' = E" "epsilon w' = score_power base (E - 1)"
    "\<forall>k<E. 0 < score_power base k"
    "\<forall>b. scale_score w' b = score_power base (min b (E - 1))"
    by metis
  have mE: "\<And>b. min b (E - 1) < E" using w(2) by simp
  have 2: "\<forall>b. 0 < scale_score w' b" using w(7,8) mE by simp
  have 3: "\<forall>b1 b2. scale_score w' b2 \<le> scale_score w' b1
        \<longleftrightarrow> min b1 (exponents w' - 1) \<le> min b2 (exponents w' - 1)"
    unfolding w(5) using score_power_order[OF w(3,4,7) mE mE] w(8) by simp
  show ?thesis using that[OF w(1) _ 2 3] w(2,5) by simp
qed

text \<open>
  Claim C4, amended. After \<open>init_score_table\<close> (which returns for every non-negative
  average size) the table has at least one entry, \<open>scale_score b\<close> is \<open>table[b]\<close> for
  \<open>b < exponents\<close> and \<open>epsilon\<close> otherwise, and it is strictly positive. The scores are
  ordered as the break counts cut off at the last table index:
  \<open>scale_score b1 \<ge> scale_score b2\<close> iff \<open>min b1 (exponents - 1) \<le> min b2 (exponents - 1)\<close>.
  So the claimed equivalence holds for all break counts inside the table, \<open>b1 \<le> b2\<close>
  implies \<open>scale_score b1 \<ge> scale_score b2\<close> for all break counts, and the equivalence
  fails exactly when \<open>b2 < b1\<close> and both are at least \<open>exponents - 1\<close>, where the score is
  \<open>epsilon\<close>.
\<close>

theorem scale_score_order:
  "0 \<le> size_avg w \<longrightarrow>
   (\<exists>w'. init_score_table ev s w = Some w'
      \<and> 1 \<le> exponents w'
      \<and> (\<forall>b. scale_score w' b = (if b < exponents w' then table w' ! b else epsilon w'))
      \<and> (\<forall>b. 0 < scale_score w' b)
      \<and> (\<forall>b1 b2. scale_score w' b2 \<le> scale_score w' b1
            \<longleftrightarrow> min b1 (exponents w' - 1) \<le> min b2 (exponents w' - 1))
      \<and> (\<forall>b1 b2. b1 < exponents w' \<and> b2 < exponents w'
            \<longrightarrow> (scale_score w' b2 \<le> scale_score w' b1 \<longleftrightarrow> b1 \<le> b2))
      \<and> (\<forall>b1 b2. b1 \<le> b2 \<longrightarrow> scale_score w' b2 \<le> scale_score w' b1)
      \<and> (\<forall>b1 b2. \<not> (scale_score w' b2 \<le> scale_score w' b1 \<longleftrightarrow> b1 \<le> b2)
            \<longleftrightarrow> b2 < b1 \<and> exponents w' - 1 \<le> b2)
      \<and> (\<forall>b. exponents w' - 1 \<le> b \<longrightarrow> scale_score w' b = epsilon w'))"
proof
  assume h: "0 \<le> size_avg w"
  from scale_score_after_init_order[OF h, of ev s]
  obtain w' where w: "init_score_table ev s w = Some w'" "1 \<le> exponents w'"
    "\<forall>b. 0 < scale_score w' b"
    "\<forall>b1 b2. scale_score w' b2 \<le> scale_score w' b1
        \<longleftrightarrow> min b1 (exponents w' - 1) \<le> min b2 (exponents w' - 1)"
    by metis
  define E where "E = exponents w'"
  have o: "\<And>b1 b2. (scale_score w' b2 \<le> scale_score w' b1)
              = (min b1 (E - 1) \<le> min b2 (E - 1))"
    using w(4) by (simp add: E_def)
  have E1: "1 \<le> E" using w(2) by (simp add: E_def)
  have 1: "\<forall>b. scale_score w' b = (if b < exponents w' then table w' ! b else epsilon w')"
    by (simp add: scale_score_def)
  have 5: "\<forall>b1 b2. b1 < E \<and> b2 < E
            \<longrightarrow> (scale_score w' b2 \<le> scale_score w' b1 \<longleftrightarrow> b1 \<le> b2)"
    using E1 by (auto simp: o)
  have 6: "\<forall>b1 b2. b1 \<le> b2 \<longrightarrow> scale_score w' b2 \<le> scale_score w' b1"
    by (auto simp: o)
  have 7: "\<forall>b1 b2. \<not> (scale_score w' b2 \<le> scale_score w' b1 \<longleftrightarrow> b1 \<le> b2)
            \<longleftrightarrow> b2 < b1 \<and> E - 1 \<le> b2"
    by (auto simp: o)
  have e: "\<forall>b1 b2. E - 1 \<le> b1 \<and> E - 1 \<le> b2 \<longrightarrow> scale_score w' b1 = scale_score w' b2"
  proof (intro allI impI)
    fix b1 b2 assume "E - 1 \<le> b1 \<and> E - 1 \<le> b2"
    then have "scale_score w' b2 \<le> scale_score w' b1" "scale_score w' b1 \<le> scale_score w' b2"
      by (auto simp: o)
    then show "scale_score w' b1 = scale_score w' b2" by simp
  qed
  have "scale_score w' E = epsilon w'" by (simp add: scale_score_def E_def)
  then have 8: "\<forall>b. E - 1 \<le> b \<longrightarrow> scale_score w' b = epsilon w'"
    using e by (metis diff_le_self)
  show "\<exists>w'. init_score_table ev s w = Some w'
      \<and> 1 \<le> exponents w'
      \<and> (\<forall>b. scale_score w' b = (if b < exponents w' then table w' ! b else epsilon w'))
      \<and> (\<forall>b. 0 < scale_score w' b)
      \<and> (\<forall>b1 b2. scale_score w' b2 \<le> scale_score w' b1
            \<longleftrightarrow> min b1 (exponents w' - 1) \<le> min b2 (exponents w' - 1))
      \<and> (\<forall>b1 b2. b1 < exponents w' \<and> b2 < exponents w'
            \<longrightarrow> (scale_score w' b2 \<le> scale_score w' b1 \<longleftrightarrow> b1 \<le> b2))
      \<and> (\<forall>b1 b2. b1 \<le> b2 \<longrightarrow> scale_score w' b2 \<le> scale_score w' b1)
      \<and> (\<forall>b1 b2. \<not> (scale_score w' b2 \<le> scale_score w' b1 \<longleftrightarrow> b1 \<le> b2)
            \<longleftrightarrow> b2 < b1 \<and> exponents w' - 1 \<le> b2)
      \<and> (\<forall>b. exponents w' - 1 \<le> b \<longrightarrow> scale_score w' b = epsilon w')"
    using w(1,2,3,4) 1 5 6 7 8 unfolding E_def by blast
qed

lemma init_score_table_c4:
  obtains E where "2 \<le> E"
    "init_score_table env_ex solver_c4 walker_ex =
       Some (walker_ex\<lparr>table := map (score_power (1 / 2)) [0..<E], exponents := E,
               epsilon := score_power (1 / 2) (E - 1)\<rparr>)"
proof -
  have cb: "score_cb solver_c4 walker_ex = 2"
    by (simp add: score_cb_def solver_c4_def)
  have b: "fdiv 1 (score_cb solver_c4 walker_ex) = 1 / 2"
    by (simp add: cb fdiv_def dbl_half)
  have "2 \<le> score_cb solver_c4 walker_ex" by (simp add: cb)
  from init_score_table_result[OF this, of env_ex] obtain E where
    E: "1 \<le> E" "score_power (1 / 2) E = 0"
    "init_score_table env_ex solver_c4 walker_ex =
       Some (walker_ex\<lparr>table := map (score_power (1 / 2)) [0..<E], exponents := E,
               epsilon := score_power (1 / 2) (E - 1)\<rparr>)"
    unfolding b by blast
  have "score_power (1 / 2) 1 = 1 / 2" by (simp add: fmul_def dbl_half)
  then have "E \<noteq> 1" using E(2) by auto
  then have "2 \<le> E" using E(1) by simp
  then show ?thesis using that E(3) by blast
qed

theorem scale_score_order_witness:
  "0 \<le> size_avg walker_ex
   \<and> 2 \<le> exponents (the (init_score_table env_ex solver_c4 walker_ex))
   \<and> scale_score (the (init_score_table env_ex solver_c4 walker_ex)) 0 = 1
   \<and> scale_score (the (init_score_table env_ex solver_c4 walker_ex)) 1 = 1 / 2
   \<and> \<not> scale_score (the (init_score_table env_ex solver_c4 walker_ex)) 0
        \<le> scale_score (the (init_score_table env_ex solver_c4 walker_ex)) 1
   \<and> scale_score (the (init_score_table env_ex solver_c4 walker_ex)) 3
        \<le> scale_score (the (init_score_table env_ex solver_c4 walker_ex)) 0
   \<and> 0 < scale_score (the (init_score_table env_ex solver_c4 walker_ex))
            (exponents (the (init_score_table env_ex solver_c4 walker_ex)))
   \<and> scale_score (the (init_score_table env_ex solver_c4 walker_ex))
        (exponents (the (init_score_table env_ex solver_c4 walker_ex)))
        \<le> scale_score (the (init_score_table env_ex solver_c4 walker_ex))
            (exponents (the (init_score_table env_ex solver_c4 walker_ex)) + 1)"
proof -
  have h: "0 \<le> size_avg walker_ex" by (simp add: walker_ex_def)
  obtain E where E: "2 \<le> E"
    "init_score_table env_ex solver_c4 walker_ex =
       Some (walker_ex\<lparr>table := map (score_power (1 / 2)) [0..<E], exponents := E,
               epsilon := score_power (1 / 2) (E - 1)\<rparr>)"
    by (rule init_score_table_c4)
  define W where "W = the (init_score_table env_ex solver_c4 walker_ex)"
  have W: "W = walker_ex\<lparr>table := map (score_power (1 / 2)) [0..<E], exponents := E,
               epsilon := score_power (1 / 2) (E - 1)\<rparr>"
    by (simp add: W_def E(2))
  have e: "exponents W = E" by (simp add: W)
  have e2: "2 \<le> exponents W" using E(1) e by simp
  have t0: "table W ! 0 = 1" using E(1) by (simp add: W)
  have t1: "table W ! 1 = 1 / 2" using E(1) by (simp add: W fmul_def dbl_half)
  have s0: "scale_score W 0 = 1" using e2 t0 by (simp add: scale_score_def)
  have s1: "scale_score W 1 = 1 / 2" using e2 t1 by (simp add: scale_score_def)
  from mp[OF scale_score_order[of walker_ex env_ex solver_c4] h]
  obtain w' where c0: "init_score_table env_ex solver_c4 walker_ex = Some w'
      \<and> 1 \<le> exponents w'
      \<and> (\<forall>b. scale_score w' b = (if b < exponents w' then table w' ! b else epsilon w'))
      \<and> (\<forall>b. 0 < scale_score w' b)
      \<and> (\<forall>b1 b2. scale_score w' b2 \<le> scale_score w' b1
            \<longleftrightarrow> min b1 (exponents w' - 1) \<le> min b2 (exponents w' - 1))
      \<and> (\<forall>b1 b2. b1 < exponents w' \<and> b2 < exponents w'
            \<longrightarrow> (scale_score w' b2 \<le> scale_score w' b1 \<longleftrightarrow> b1 \<le> b2))
      \<and> (\<forall>b1 b2. b1 \<le> b2 \<longrightarrow> scale_score w' b2 \<le> scale_score w' b1)
      \<and> (\<forall>b1 b2. \<not> (scale_score w' b2 \<le> scale_score w' b1 \<longleftrightarrow> b1 \<le> b2)
            \<longleftrightarrow> b2 < b1 \<and> exponents w' - 1 \<le> b2)
      \<and> (\<forall>b. exponents w' - 1 \<le> b \<longrightarrow> scale_score w' b = epsilon w')"
    by (rule exE)
  note w1 = c0[THEN conjunct1]
  note r1 = c0[THEN conjunct2, THEN conjunct2, THEN conjunct2]
  note w2 = r1[THEN conjunct1]
  note w3 = r1[THEN conjunct2, THEN conjunct1]
  note w4 = r1[THEN conjunct2, THEN conjunct2, THEN conjunct2, THEN conjunct1]
  have ww: "w' = W" using w1 by (simp add: W_def)
  have a: "\<not> scale_score W 0 \<le> scale_score W 1" unfolding s0 s1 by simp
  have "(0::nat) \<le> 3" by simp
  then have b: "scale_score W 3 \<le> scale_score W 0"
    using w4[unfolded ww, rule_format, of 0 3] by simp
  have c: "0 < scale_score W (exponents W)" using w2[unfolded ww] by (rule spec)
  have "min (exponents W + 1) (exponents W - 1) \<le> min (exponents W) (exponents W - 1)"
    by simp
  then have d: "scale_score W (exponents W) \<le> scale_score W (exponents W + 1)"
    using w3[unfolded ww, rule_format, of "exponents W" "exponents W + 1"] by simp
  show ?thesis
    unfolding W_def[symmetric] by (intro conjI h e2 s0 s1 a b c d)
qed

subsection \<open>The interpolation between and beyond the control points\<close>

lemma fit_cbval_line: "fit_cbval sz = cb_line (fit_cbval_index sz 0) sz"
  by (simp add: fit_cbval_def cb_line_def Let_def)

lemma fit_cbval_index_segments:
  "0 \<le> sz \<Longrightarrow> sz \<le> 3 \<Longrightarrow> fit_cbval_index sz 0 = 0"
  "3 < sz \<Longrightarrow> sz \<le> 4 \<Longrightarrow> fit_cbval_index sz 0 = 1"
  "4 < sz \<Longrightarrow> sz \<le> 5 \<Longrightarrow> fit_cbval_index sz 0 = 2"
  "5 < sz \<Longrightarrow> sz \<le> 6 \<Longrightarrow> fit_cbval_index sz 0 = 3"
  "6 < sz \<Longrightarrow> fit_cbval_index sz 0 = 4"
  by (simp_all add: cbvals_def)

lemma cb_line_left:
  "cb_line 0 0 = 2" "cb_line 1 3 = 5 / 2" "cb_line 2 4 = dbl (285 / 100)"
  "cb_line 3 5 = dbl (37 / 10)" "cb_line 4 6 = dbl (51 / 10)"
  unfolding cb_line_def cbvals_def Let_def
  by (simp_all, code_simp+)

lemma cb_line_right:
  "cb_line 0 3 = 5 / 2" "cb_line 1 4 = dbl (285 / 100)" "cb_line 2 5 = dbl (37 / 10)"
  "cb_line 3 6 = dbl (51 / 10)" "cb_line 4 7 = dbl (74 / 10)"
  unfolding cb_line_def cbvals_def Let_def
  by (simp_all, code_simp+)

lemma line_mono:
  assumes "0 \<le> dy" "0 < dx" "0 \<le> y1" "x1 \<le> a" "a \<le> b"
  shows "fadd (fdiv (fmul dy (fsub a x1)) dx) y1 \<le> fadd (fdiv (fmul dy (fsub b x1)) dx) y1"
proof -
  have ta: "0 \<le> fsub a x1" using assms(4) by (simp add: fsub_def dbl_nonneg)
  have t: "fsub a x1 \<le> fsub b x1"
    unfolding fsub_def using assms(4,5) by (intro dbl_mono) simp_all
  have ma: "0 \<le> fmul dy (fsub a x1)" using assms(1) ta by (simp add: fmul_def dbl_nonneg)
  have m: "fmul dy (fsub a x1) \<le> fmul dy (fsub b x1)"
    unfolding fmul_def using assms(1) ta t by (intro dbl_mono mult_left_mono) simp_all
  have da: "0 \<le> fdiv (fmul dy (fsub a x1)) dx"
    using ma assms(2) by (simp add: fdiv_def dbl_nonneg)
  have d: "fdiv (fmul dy (fsub a x1)) dx \<le> fdiv (fmul dy (fsub b x1)) dx"
    unfolding fdiv_def using ma m assms(2) by (intro dbl_mono divide_right_mono) simp_all
  show ?thesis
    unfolding fadd_def using da d assms(3) by (intro dbl_mono) simp_all
qed

lemma cbvals_nth:
  "fst (cbvals ! 0) = 0" "fst (cbvals ! Suc 0) = 3" "fst (cbvals ! 2) = 4"
  "fst (cbvals ! 3) = 5" "fst (cbvals ! 4) = 6" "fst (cbvals ! 5) = 7"
  "snd (cbvals ! 0) = 2" "snd (cbvals ! Suc 0) = 5 / 2" "snd (cbvals ! 2) = dbl (285 / 100)"
  "snd (cbvals ! 3) = dbl (37 / 10)" "snd (cbvals ! 4) = dbl (51 / 10)"
  "snd (cbvals ! 5) = dbl (74 / 10)"
  by (simp_all add: cbvals_def)

lemma cb_slopes:
  "0 \<le> fsub (5 / 2) 2 \<and> 0 < fsub 3 0 \<and> (0::rat) \<le> 2"
  "0 \<le> fsub (dbl (285 / 100)) (5 / 2) \<and> 0 < fsub 4 3 \<and> (0::rat) \<le> 5 / 2"
  "0 \<le> fsub (dbl (37 / 10)) (dbl (285 / 100)) \<and> 0 < fsub 5 4 \<and> 0 \<le> dbl (285 / 100)"
  "0 \<le> fsub (dbl (51 / 10)) (dbl (37 / 10)) \<and> 0 < fsub 6 5 \<and> 0 \<le> dbl (37 / 10)"
  "0 \<le> fsub (dbl (74 / 10)) (dbl (51 / 10)) \<and> 0 < fsub 7 6 \<and> 0 \<le> dbl (51 / 10)"
  by code_simp+

lemma five_cases: "i < 5 \<Longrightarrow> i = 0 \<or> i = Suc 0 \<or> i = 2 \<or> i = 3 \<or> i = 4"
  by auto

lemma cb_line_mono:
  assumes "i < 5" "fst (cbvals ! i) \<le> a" "a \<le> b"
  shows "cb_line i a \<le> cb_line i b"
proof -
  have c: "0 \<le> fsub (snd (cbvals ! (i + 1))) (snd (cbvals ! i))
      \<and> 0 < fsub (fst (cbvals ! (i + 1))) (fst (cbvals ! i)) \<and> 0 \<le> snd (cbvals ! i)"
    using five_cases[OF assms(1)]
  proof (elim disjE)
    assume "i = 0"
    then show ?thesis using cb_slopes(1) by (simp add: cbvals_nth numeral_2_eq_2[symmetric])
  next
    assume "i = Suc 0"
    then show ?thesis using cb_slopes(2) by (simp add: cbvals_nth numeral_2_eq_2[symmetric])
  next
    assume "i = 2"
    then show ?thesis using cb_slopes(3) by (simp add: cbvals_nth numeral_2_eq_2[symmetric])
  next
    assume "i = 3"
    then show ?thesis using cb_slopes(4) by (simp add: cbvals_nth numeral_2_eq_2[symmetric])
  next
    assume "i = 4"
    then show ?thesis using cb_slopes(5) by (simp add: cbvals_nth numeral_2_eq_2[symmetric])
  qed
  show ?thesis
    unfolding cb_line_def Let_def
    using c assms(2,3) by (intro line_mono) simp_all
qed

lemma cb_line_ends:
  assumes "i < 5"
  shows "cb_line i (fst (cbvals ! i)) = snd (cbvals ! i)"
    and "cb_line i (fst (cbvals ! (i + 1))) = snd (cbvals ! (i + 1))"
    and "0 < i \<Longrightarrow> cb_line (i - 1) (fst (cbvals ! i)) = snd (cbvals ! i)"
proof -
  note L = cb_line_left[unfolded One_nat_def]
  note R = cb_line_right[unfolded One_nat_def]
  show "cb_line i (fst (cbvals ! i)) = snd (cbvals ! i)"
    using five_cases[OF assms] by (elim disjE) (simp_all add: cbvals_nth L numeral_2_eq_2[symmetric])
  show "cb_line i (fst (cbvals ! (i + 1))) = snd (cbvals ! (i + 1))"
    using five_cases[OF assms] by (elim disjE) (simp_all add: cbvals_nth R numeral_2_eq_2[symmetric])
  show "0 < i \<Longrightarrow> cb_line (i - 1) (fst (cbvals ! i)) = snd (cbvals ! i)"
    using five_cases[OF assms] by (elim disjE) (simp_all add: cbvals_nth R numeral_2_eq_2[symmetric])
qed

lemma fit_cbval_segment:
  assumes "i < 5" "fst (cbvals ! i) \<le> sz" "sz \<le> fst (cbvals ! (i + 1))"
  shows "fit_cbval sz = cb_line i sz" "snd (cbvals ! i) \<le> fit_cbval sz"
    "fit_cbval sz \<le> snd (cbvals ! (i + 1))"
proof -
  note E = cb_line_ends[OF assms(1)]
  note l = E(1) and r = E(2) and p = E(3)
  show e: "fit_cbval sz = cb_line i sz"
  proof (cases "sz = fst (cbvals ! i)")
    case True
    show ?thesis
    proof (cases "i = 0")
      case i0: True
      then have "sz = 0" using True by (simp add: cbvals_def)
      then show ?thesis
        using i0 by (simp add: fit_cbval_line fit_cbval_index_segments del: fit_cbval_index.simps)
    next
      case False
      have i: "i = Suc 0 \<or> i = 2 \<or> i = 3 \<or> i = 4"
        using five_cases[OF assms(1)] False by auto
      have "fit_cbval_index sz 0 = i - 1"
        using i True by (elim disjE)
           (simp_all add: cbvals_nth fit_cbval_index_segments numeral_2_eq_2[symmetric]
              del: fit_cbval_index.simps)
      then have "fit_cbval sz = cb_line (i - 1) (fst (cbvals ! i))"
        using True by (simp add: fit_cbval_line del: fit_cbval_index.simps)
      then show ?thesis using p False l True by simp
    qed
  next
    case False
    then have s: "fst (cbvals ! i) < sz" using assms(2) by simp
    have "fit_cbval_index sz 0 = i"
      using five_cases[OF assms(1)] s assms(3)
      by (elim disjE)
           (simp_all add: cbvals_nth fit_cbval_index_segments numeral_2_eq_2[symmetric]
              del: fit_cbval_index.simps)
    then show ?thesis by (simp add: fit_cbval_line del: fit_cbval_index.simps)
  qed
  show "snd (cbvals ! i) \<le> fit_cbval sz"
    unfolding e using cb_line_mono[OF assms(1) order_refl assms(2)] l by simp
  show "fit_cbval sz \<le> snd (cbvals ! (i + 1))"
    unfolding e using cb_line_mono[OF assms(1,2,3)] r by simp
qed

lemma fit_cbval_extrapolation:
  assumes "7 \<le> sz"
  shows "fit_cbval sz = cb_line 4 sz" "dbl (74 / 10) \<le> fit_cbval sz"
proof -
  have "6 < sz" using assms by simp
  then show e: "fit_cbval sz = cb_line 4 sz"
    by (simp add: fit_cbval_line fit_cbval_index_segments del: fit_cbval_index.simps)
  have "fst (cbvals ! 4) \<le> 7" by (simp add: cbvals_nth)
  from cb_line_mono[OF _ this assms] show "dbl (74 / 10) \<le> fit_cbval sz"
    unfolding e by (simp add: cb_line_right)
qed

lemma fit_cbval_spec_values:
  "fit_cbval 10 = fadd (dbl (74 / 10)) (fmul (fsub 10 7) (fsub (dbl (74 / 10)) (dbl (51 / 10))))"
  "\<bar>fit_cbval 10 - 143 / 10\<bar> < 1 / 2 ^ 48"
  "fit_cbval (11 / 2) = fdiv (fadd (dbl (37 / 10)) (dbl (51 / 10))) 2"
  unfolding fit_cbval_10 fit_cbval_11_2
  by code_simp+

lemma fit_cbval_8: "dbl (74 / 10) < fit_cbval 8"
  unfolding fit_cbval_line fit_cbval_index_segments(5)[of 8, simplified] cb_line_def Let_def
    cbvals_nth
  by code_simp

text \<open>
  Claim C9. \<open>fit_cbval\<close> returns at each control point the value of the table. Between
  two neighbouring control points it is the line through them, in the source's double
  arithmetic \<open>dy * (size - x1) / dx + y1\<close>, and the result lies between the two table
  values. From the last control point on it is the line through the last two points, with
  no clamp: the result is at least 7.40 and, for instance, above it at size 8. The three
  values of the claim: \<open>fit_cbval(3.0)\<close> is 2.50; \<open>fit_cbval(5.5)\<close> is the double
  \<open>(3.70 + 5.10) / 2\<close>, which is the double 4.40; \<open>fit_cbval(10.0)\<close> is the double that the
  formula \<open>7.40 + (10 - 7) * (7.40 - 5.10)\<close> of the specification gives, which is 14.30 up
  to the rounding of the last place (within \<open>2 ^ -48\<close>).
\<close>

theorem fit_cbval_interpolation:
  "map fit_cbval (map fst cbvals) = map snd cbvals
   \<and> (\<forall>i<5. \<forall>sz. fst (cbvals ! i) \<le> sz \<and> sz \<le> fst (cbvals ! (i + 1)) \<longrightarrow>
         fit_cbval sz = cb_line i sz \<and> snd (cbvals ! i) \<le> fit_cbval sz
         \<and> fit_cbval sz \<le> snd (cbvals ! (i + 1)))
   \<and> (\<forall>sz. 7 \<le> sz \<longrightarrow> fit_cbval sz = cb_line 4 sz \<and> dbl (74 / 10) \<le> fit_cbval sz)
   \<and> dbl (74 / 10) < fit_cbval 8
   \<and> fit_cbval 3 = 5 / 2
   \<and> fit_cbval (11 / 2) = fdiv (fadd (dbl (37 / 10)) (dbl (51 / 10))) 2
   \<and> fit_cbval (11 / 2) = dbl (44 / 10)
   \<and> fit_cbval 10
       = fadd (dbl (74 / 10)) (fmul (fsub 10 7) (fsub (dbl (74 / 10)) (dbl (51 / 10))))
   \<and> \<bar>fit_cbval 10 - 143 / 10\<bar> < 1 / 2 ^ 48"
proof -
  have 1: "map fit_cbval (map fst cbvals) = map snd cbvals"
    by (simp add: cbvals_def fit_cbval_0 fit_cbval_3 fit_cbval_4 fit_cbval_5 fit_cbval_6
        fit_cbval_7)
  have 2: "\<forall>i<5. \<forall>sz. fst (cbvals ! i) \<le> sz \<and> sz \<le> fst (cbvals ! (i + 1)) \<longrightarrow>
         fit_cbval sz = cb_line i sz \<and> snd (cbvals ! i) \<le> fit_cbval sz
         \<and> fit_cbval sz \<le> snd (cbvals ! (i + 1))"
    using fit_cbval_segment by blast
  have 3: "\<forall>sz. 7 \<le> sz \<longrightarrow> fit_cbval sz = cb_line 4 sz \<and> dbl (74 / 10) \<le> fit_cbval sz"
    using fit_cbval_extrapolation by blast
  show ?thesis
    by (intro conjI 1 2 3 fit_cbval_8 fit_cbval_3 fit_cbval_spec_values(3) fit_cbval_11_2
        fit_cbval_spec_values(1) fit_cbval_spec_values(2))
qed

theorem fit_cbval_interpolation_witness:
  "(3::nat) < 5 \<and> fst (cbvals ! 3) \<le> 11 / 2 \<and> 11 / 2 \<le> fst (cbvals ! (3 + 1))
   \<and> fit_cbval (11 / 2) = cb_line 3 (11 / 2)
   \<and> snd (cbvals ! 3) \<le> fit_cbval (11 / 2) \<and> fit_cbval (11 / 2) \<le> snd (cbvals ! (3 + 1))
   \<and> (7::rat) \<le> 8 \<and> fit_cbval 8 = cb_line 4 8 \<and> dbl (74 / 10) \<le> fit_cbval 8"
proof -
  have h1: "(3::nat) < 5" by simp
  have h2: "fst (cbvals ! 3) \<le> 11 / 2 \<and> 11 / 2 \<le> fst (cbvals ! (3 + 1))"
    by (simp add: cbvals_def)
  have h3: "(7::rat) \<le> 8" by simp
  note T = fit_cbval_interpolation
  note s = T[THEN conjunct2, THEN conjunct1, rule_format, OF h1 h2]
  note x = T[THEN conjunct2, THEN conjunct2, THEN conjunct1, rule_format, OF h3]
  show ?thesis using h1 h2 h3 s x by simp
qed

end
